(* ===== verification/Prelude.thy ===== *)
theory Prelude
  imports Main "HOL-Library.Word" "HOL-Library.Monad_Syntax"
begin

text \<open>
  Shared ground of the development: Go's machine integers and byte strings, run-time panics
  as the option monad, slices with their spare capacity, the decimal and hexadecimal verbs of
  package fmt, and the generic list, map and word lemmas the components use.

  Conventions. A Go string is a \<^typ>\<open>string\<close> read as its bytes. A computation that can panic has
  a result type \<open>'a go\<close>: \<^term>\<open>None\<close> is the panic, \<^term>\<open>Some x\<close> a normal return of \<open>x\<close>. A Go pair
  \<open>(value, error)\<close> is a sum, \<^term>\<open>Inl e\<close> for a non-nil error and \<^term>\<open>Inr v\<close> for a value.
\<close>

named_theorems hex_simps \<open>the verbs %x and %d: printing and scanning digits\<close>
named_theorems go_simps \<open>evaluation of the panic monad and of slices\<close>

type_synonym byte = "8 word"
type_synonym bytes = "8 word list"
type_synonym u16 = "16 word"
type_synonym u32 = "32 word"
type_synonym u64 = "64 word"

type_synonym 'a go = "'a option"

abbreviation panic :: "'a go" where "panic \<equiv> None"
abbreviation ret :: "'a \<Rightarrow> 'a go" where "ret \<equiv> Some"

section \<open>Panics\<close>

lemma go_bind_ret [go_simps]: "Option.bind (ret x) f = f x"
  by simp

lemma go_bind_panic [go_simps]: "Option.bind panic f = panic"
  by simp

lemma go_bind_eq_ret:
  "Option.bind m f = ret y \<longleftrightarrow> (\<exists>x. m = ret x \<and> f x = ret y)"
  by (cases m) auto

section \<open>Slices\<close>

text \<open>
  A byte slice is its visible bytes and the spare bytes of its backing array behind them.
  Re-slicing \<open>h[0:n]\<close> is checked against the capacity, not the length: it panics only when
  \<open>n\<close> exceeds both parts together, and otherwise may read spare bytes.
\<close>

datatype slice = Slice (visible: bytes) (spare: bytes)

definition slice_len :: "slice \<Rightarrow> nat" where
  "slice_len h = length (visible h)"

definition slice_cap :: "slice \<Rightarrow> nat" where
  "slice_cap h = length (visible h) + length (spare h)"

definition reslice :: "slice \<Rightarrow> nat \<Rightarrow> bytes go" where
  "reslice h n = (if n \<le> slice_cap h then ret (take n (visible h @ spare h)) else panic)"

lemma reslice_within [go_simps]:
  "n \<le> slice_len h \<Longrightarrow> reslice h n = ret (take n (visible h))"
  by (simp add: reslice_def slice_len_def slice_cap_def)

lemma reslice_panics: "reslice h n = panic \<longleftrightarrow> slice_cap h < n"
  by (auto simp: reslice_def)

lemma reslice_length: "reslice h n = ret xs \<Longrightarrow> length xs = n"
  by (auto simp: reslice_def slice_cap_def split: if_splits)

section \<open>The verb %d on natural numbers\<close>

definition digit_char :: "nat \<Rightarrow> char" where
  "digit_char d = char_of (48 + d)"

fun show_nat :: "nat \<Rightarrow> string" where
  "show_nat n = (if n < 10 then [digit_char n] else show_nat (n div 10) @ [digit_char (n mod 10)])"

declare show_nat.simps [simp del]

definition read_digits :: "string \<Rightarrow> nat" where
  "read_digits = foldl (\<lambda>a c. 10 * a + (of_char c - 48)) 0"

definition is_digit :: "char \<Rightarrow> bool" where
  "is_digit c \<longleftrightarrow> 48 \<le> (of_char c :: nat) \<and> (of_char c :: nat) \<le> 57"

lemma of_char_digit_char [hex_simps]: "d < 10 \<Longrightarrow> (of_char (digit_char d) :: nat) = 48 + d"
  by (simp add: digit_char_def)

lemma digit_chars [hex_simps]:
  "digit_char 0 = CHR ''0''" "digit_char (Suc 0) = CHR ''1''" "digit_char 1 = CHR ''1''" "digit_char 2 = CHR ''2''"
  "digit_char 3 = CHR ''3''" "digit_char 4 = CHR ''4''" "digit_char 5 = CHR ''5''" "digit_char 6 = CHR ''6''"
  "digit_char 7 = CHR ''7''" "digit_char 8 = CHR ''8''" "digit_char 9 = CHR ''9''"
  by code_simp+

lemma read_digits_snoc [hex_simps]:
  "read_digits (xs @ [c]) = 10 * read_digits xs + (of_char c - 48)"
  by (simp add: read_digits_def)

lemma read_digits_show_nat [hex_simps]: "read_digits (show_nat n) = n"
proof (induction n rule: show_nat.induct)
  case (1 n)
  show ?case
  proof (cases "n < 10")
    case True
    then show ?thesis
      by (simp add: show_nat.simps [of n] read_digits_def of_char_digit_char)
  next
    case False
    then show ?thesis
      using "1.IH" by (simp add: show_nat.simps [of n] hex_simps)
  qed
qed

lemma show_nat_inject [simp]: "show_nat m = show_nat n \<longleftrightarrow> m = n"
  by (metis read_digits_show_nat)

lemma show_nat_digits: "c \<in> set (show_nat n) \<Longrightarrow> is_digit c"
proof (induction n rule: show_nat.induct)
  case (1 n)
  show ?case
  proof (cases "n < 10")
    case True
    with "1.prems" show ?thesis
      by (simp add: show_nat.simps [of n] is_digit_def of_char_digit_char)
  next
    case False
    have last: "is_digit (digit_char (n mod 10))"
      by (simp add: is_digit_def of_char_digit_char)
    show ?thesis
      using "1.prems" "1.IH" [OF False] last False
      by (auto simp: show_nat.simps [of n])
  qed
qed

section \<open>The verb %x on byte strings\<close>

definition hex_char :: "nat \<Rightarrow> char" where
  "hex_char d = (if d < 10 then char_of (48 + d) else char_of (87 + d))"

definition hex_val :: "char \<Rightarrow> nat option" where
  "hex_val c =
     (let n = of_char c in
      if 48 \<le> n \<and> n \<le> 57 then Some (n - 48)
      else if 97 \<le> n \<and> n \<le> 102 then Some (n - 87)
      else if 65 \<le> n \<and> n \<le> 70 then Some (n - 55)
      else None)"

definition is_hex :: "char \<Rightarrow> bool" where
  "is_hex c \<longleftrightarrow> hex_val c \<noteq> None"

definition join_nibbles :: "nat \<Rightarrow> nat \<Rightarrow> byte" where
  "join_nibbles hi lo = word_of_nat (16 * hi + lo)"

definition show_byte :: "byte \<Rightarrow> string" where
  "show_byte b = [hex_char (unat b div 16), hex_char (unat b mod 16)]"

definition show_hex :: "bytes \<Rightarrow> string" where
  "show_hex bs = concat (map show_byte bs)"

lemma hex_val_bound: "hex_val c = Some v \<Longrightarrow> v < 16"
  by (auto simp: hex_val_def Let_def split: if_splits)

lemma hex_val_hex_char [hex_simps]: "d < 16 \<Longrightarrow> hex_val (hex_char d) = Some d"
  by (auto simp: hex_val_def hex_char_def Let_def)

lemma is_hex_hex_char [hex_simps]: "d < 16 \<Longrightarrow> is_hex (hex_char d)"
  by (simp add: is_hex_def hex_simps)

lemma nibbles_bound [hex_simps]: "unat (b :: byte) div 16 < 16"
proof -
  have "unat b < 2 ^ LENGTH(8)" by (rule unsigned_less)
  then show ?thesis by simp
qed

lemma nibbles_join [hex_simps]: "join_nibbles (unat b div 16) (unat b mod 16) = b"
  by (simp add: join_nibbles_def)

lemma unat_join_nibbles [hex_simps]:
  assumes "hi < 16" "lo < 16"
  shows "unat (join_nibbles hi lo) = 16 * hi + lo"
proof -
  have "16 * hi + lo < 2 ^ LENGTH(8)" using assms by simp
  then show ?thesis by (simp add: join_nibbles_def take_bit_nat_eq_self unsigned_of_nat del: of_nat_add of_nat_mult)
qed

lemma show_byte_hex: "c \<in> set (show_byte b) \<Longrightarrow> is_hex c"
  by (auto simp: show_byte_def hex_simps)

lemma show_hex_hex: "c \<in> set (show_hex bs) \<Longrightarrow> is_hex c"
  by (auto simp: show_hex_def show_byte_hex)

lemma show_hex_Nil [simp]: "show_hex [] = []"
  by (simp add: show_hex_def)

lemma show_hex_Cons [simp]: "show_hex (b # bs) = show_byte b @ show_hex bs"
  by (simp add: show_hex_def)

lemma length_show_hex [hex_simps]: "length (show_hex bs) = 2 * length bs"
  by (induction bs) (auto simp: show_byte_def)

lemma show_hex_eq_Nil [simp]: "show_hex bs = [] \<longleftrightarrow> bs = []"
  by (cases bs) (auto simp: show_byte_def)

text \<open>
  Scanning with \<open>fmt.Sscanf(s, "%x", &data)\<close> into a byte slice: leading blanks are skipped (a
  newline is an error), then pairs of digits are read until the first character that is not a
  digit; a lone digit before such a character or before the end, and no digit at all, are errors.
  What is left behind the last pair is ignored. Strings are taken to be ASCII.
\<close>

datatype scan_error = ScanNewline | ScanEOF | ScanIllegalHex | ScanNoHex

fun skip_space :: "string \<Rightarrow> scan_error + string" where
  "skip_space [] = Inr []"
| "skip_space (c # cs) =
     (if c = CHR 0x0A then Inl ScanNewline
      else if c \<in> {CHR 0x20, CHR 0x09, CHR 0x0B, CHR 0x0C, CHR 0x0D} then skip_space cs
      else Inr (c # cs))"

fun hex_pairs :: "string \<Rightarrow> scan_error + bytes" where
  "hex_pairs [] = Inr []"
| "hex_pairs [c] = (case hex_val c of None \<Rightarrow> Inr [] | Some _ \<Rightarrow> Inl ScanEOF)"
| "hex_pairs (c # d # cs) =
     (case hex_val c of
        None \<Rightarrow> Inr []
      | Some hi \<Rightarrow>
          (case hex_val d of
             None \<Rightarrow> Inl ScanIllegalHex
           | Some lo \<Rightarrow> map_sum id ((#) (join_nibbles hi lo)) (hex_pairs cs)))"

definition sscanf_hex :: "string \<Rightarrow> scan_error + bytes" where
  "sscanf_hex s =
     (case skip_space s of
        Inl e \<Rightarrow> Inl e
      | Inr [] \<Rightarrow> Inl ScanEOF
      | Inr (c # cs) \<Rightarrow>
          (case hex_pairs (c # cs) of
             Inl e \<Rightarrow> Inl e
           | Inr [] \<Rightarrow> Inl ScanNoHex
           | Inr bs \<Rightarrow> Inr bs))"

lemma hex_not_blank:
  assumes "is_hex c"
  shows "c \<notin> {CHR 0x0A, CHR 0x20, CHR 0x09, CHR 0x0B, CHR 0x0C, CHR 0x0D}"
  using assms by (auto simp: is_hex_def hex_val_def)

lemma skip_space_hex [hex_simps]: "is_hex c \<Longrightarrow> skip_space (c # cs) = Inr (c # cs)"
  using hex_not_blank [of c] by simp

lemma hex_pairs_show_hex [hex_simps]: "hex_pairs (show_hex bs) = Inr bs"
proof (induction bs)
  case Nil
  then show ?case by simp
next
  case (Cons b bs)
  then show ?case by (simp add: show_byte_def hex_simps)
qed

text \<open>An even number of digits always scans, to half as many bytes.\<close>

lemma hex_pairs_even:
  "even (length s) \<Longrightarrow> list_all is_hex s \<Longrightarrow> \<exists>bs. hex_pairs s = Inr bs \<and> 2 * length bs = length s"
  by (induction s rule: hex_pairs.induct) (fastforce simp: is_hex_def)+

section \<open>Lists and maps\<close>

lemma takeWhile_all_append: "list_all P xs \<Longrightarrow> \<not> P y \<Longrightarrow> takeWhile P (xs @ y # ys) = xs"
  by (induction xs) auto

lemma dropWhile_all_append: "list_all P xs \<Longrightarrow> \<not> P y \<Longrightarrow> dropWhile P (xs @ y # ys) = y # ys"
  by (induction xs) auto

lemma takeWhile_all: "list_all P xs \<Longrightarrow> takeWhile P xs = xs"
  by (induction xs) auto

lemma dropWhile_all: "list_all P xs \<Longrightarrow> dropWhile P xs = []"
  by (induction xs) auto

lemma list_all_takeWhile: "list_all P (takeWhile P xs)"
  by (induction xs) auto

end
