(* ===== verification/RouterErrors.thy ===== *)
theory RouterErrors
  imports Prelude
begin

text \<open>
  Error values of the router package: storage/router/errors.go, with the errors that reach it from
  the redis client, from the URL parser and from package errors' \<open>Wrap\<close>, and the error list type
  used by the configuration check.
\<close>

datatype rerr =
    ErrInvalidRange
  | ErrNotRoutable
  | ErrNotFound
  | ErrPoolNotFound
  | ErrUnknownScheme
  | ErrUrl string              \<comment> \<open>returned by \<open>url.Parse\<close>\<close>
  | RedisNil                   \<comment> \<open>\<open>redis.ErrNil\<close>: the key is not in the server\<close>
  | RedisErr string            \<comment> \<open>any other error of the redis client\<close>
  | NoLookupTable              \<comment> \<open>"no lookup table defined"\<close>
  | NoPoolNamed string         \<comment> \<open>"no pool with name '%s'"\<close>
  | Wrapped rerr string        \<comment> \<open>\<open>errors.Wrap(err, message)\<close>\<close>
  | ErrYaml string             \<comment> \<open>reading or unmarshalling the configuration failed\<close>
  | ErrEmptyUrl                \<comment> \<open>"empty storage url"\<close>
  | ErrNotExist                \<comment> \<open>the file does not exist: \<open>os.IsNotExist\<close>\<close>
  | ManyErrors "rerr list"     \<comment> \<open>a value of type \<open>Errors\<close>\<close>

type_synonym errors = "rerr list"

definition errors_Add :: "errors \<Rightarrow> rerr \<Rightarrow> errors" where
  "errors_Add e err = e @ [err]"

definition errors_HasErrors :: "errors \<Rightarrow> bool" where
  "errors_HasErrors e \<longleftrightarrow> length e > 0"

text \<open>The text of an error list; \<open>render\<close> is the text of one error.\<close>

definition errors_Error :: "(rerr \<Rightarrow> string) \<Rightarrow> errors \<Rightarrow> string" where
  "errors_Error render e =
     ''found '' @ show_nat (length e) @ '' errors''
       @ concat (map (\<lambda>err. CHR 0x0A # ''  - '' @ render err) e)"

lemma errors_HasErrors_Add [simp]: "errors_HasErrors (errors_Add e err)"
  by (simp add: errors_HasErrors_def errors_Add_def)

lemma set_errors_Add [simp]: "set (errors_Add e err) = insert err (set e)"
  by (simp add: errors_Add_def)

lemma errors_Add_ne [simp]: "errors_Add e err \<noteq> []"
  by (simp add: errors_Add_def)

text \<open>The root cause of an error: \<open>errors.Wrap\<close> keeps the error it wraps.\<close>

fun cause :: "rerr \<Rightarrow> rerr" where
  "cause (Wrapped e m) = cause e"
| "cause e = e"

end
