(* ===== verification/Dial.thy ===== *)
theory Dial
  imports RouterErrors
begin

text \<open>
  Dialling with a cache of name lookups: storage/router/dial.go. The resolver \<open>net.LookupIP\<close>, the
  random index \<open>rand.Intn\<close>, the text of an IPv6 address and \<open>net.Dial\<close> are parameters; times are
  integers in seconds. A nil \<open>net.IP\<close> in a resolver's answer is \<^term>\<open>None\<close>.
\<close>

section \<open>Addresses\<close>

type_synonym ip = bytes

datatype dial_error =
    Malformed                  \<comment> \<open>"mallformed address expected format <host>:<port>"\<close>
  | LookupFailed string        \<comment> \<open>the error of \<open>net.LookupIP\<close>\<close>
  | CannotResolve string       \<comment> \<open>"can not resolve host '%s'"\<close>
  | InvalidIP ip               \<comment> \<open>"invalid ip address '%s'"\<close>
  | NetError string            \<comment> \<open>the error of \<open>net.Dial\<close>\<close>

text \<open>\<open>strings.SplitN(address, ":", 2)\<close>, when it gives two parts.\<close>

definition split_address :: "string \<Rightarrow> (string \<times> string) option" where
  "split_address address =
     (case dropWhile (\<lambda>c. c \<noteq> CHR '':'') address of
        [] \<Rightarrow> None
      | _ # port \<Rightarrow> Some (takeWhile (\<lambda>c. c \<noteq> CHR '':'') address, port))"

lemma split_address_colon:
  assumes "CHR '':'' \<notin> set host"
  shows "split_address (host @ '':'' @ port) = Some (host, port)"
proof -
  have "list_all (\<lambda>c. c \<noteq> CHR '':'') host" using assms by (auto simp: list_all_iff)
  from takeWhile_all_append [OF this, of "CHR '':''" port] dropWhile_all_append [OF this, of "CHR '':''" port]
  show ?thesis by (simp add: split_address_def)
qed

definition To4 :: "ip \<Rightarrow> ip option" where
  "To4 a =
     (if length a = 4 then Some a
      else if length a = 16 \<and> take 12 a = replicate 10 0 @ [0xFF, 0xFF] then Some (drop 12 a)
      else None)"

definition To16 :: "ip \<Rightarrow> ip option" where
  "To16 a =
     (if length a = 4 then Some (replicate 10 0 @ [0xFF, 0xFF] @ a)
      else if length a = 16 then Some a
      else None)"

fun ip4_string :: "ip \<Rightarrow> string" where
  "ip4_string [] = []"
| "ip4_string [b] = show_nat (unat b)"
| "ip4_string (b # bs) = show_nat (unat b) @ ''.'' @ ip4_string bs"

definition target :: "(ip \<Rightarrow> string) \<Rightarrow> ip \<Rightarrow> string \<Rightarrow> dial_error + string" where
  "target ip6_string a port =
     (case To4 a of
        Some a4 \<Rightarrow> Inr (ip4_string a4 @ '':'' @ port)
      | None \<Rightarrow>
          (case To16 a of
             Some a6 \<Rightarrow> Inr (''['' @ ip6_string a6 @ '']:'' @ port)
           | None \<Rightarrow> Inl (InvalidIP a)))"

section \<open>Lookup with the cache\<close>

definition dnsCacheTimeout :: int where "dnsCacheTimeout = 5 * 60"

type_synonym dns = "string \<rightharpoonup> ip list \<times> int"

text \<open>What one call meets: the address, the resolver, the random choice, the time of the check and
  the time when the resolver has answered.\<close>

record dial_env =
  de_address :: string
  de_lookup :: "string \<Rightarrow> string + ip option list"
  de_rand :: "nat \<Rightarrow> nat"
  de_now :: int
  de_after :: int

definition cached_ips :: "dial_env \<Rightarrow> string \<Rightarrow> dns \<Rightarrow> ip list" where
  "cached_ips q host cache =
     (case cache host of
        None \<Rightarrow> []
      | Some (ips, on) \<Rightarrow> if de_now q - on < dnsCacheTimeout then ips else [])"

definition resolve :: "dial_env \<Rightarrow> string \<Rightarrow> dns \<Rightarrow> (dial_error + ip list) \<times> dns" where
  "resolve q host cache =
     (let ips = cached_ips q host cache
      in if length ips = 0 then
           (case de_lookup q host of
              Inl err \<Rightarrow> (Inl (LookupFailed err), cache)
            | Inr result \<Rightarrow>
                let ips = List.map_filter id result
                in if length ips = 0 then (Inl (CannotResolve (de_address q)), cache)
                   else (Inr ips, cache(host \<mapsto> (ips, de_after q))))
         else (Inr ips, cache))"

definition dial_target :: "(ip \<Rightarrow> string) \<Rightarrow> dial_env \<Rightarrow> dns \<Rightarrow> ((dial_error + string) \<times> dns) go" where
  "dial_target ip6_string q cache =
     (case split_address (de_address q) of
        None \<Rightarrow> ret (Inl Malformed, cache)
      | Some (host, port) \<Rightarrow>
          (case resolve q host cache of
             (Inl err, cache') \<Rightarrow> ret (Inl err, cache')
           | (Inr ips, cache') \<Rightarrow>
               let i = de_rand q (length ips)
               in if i < length ips then ret (target ip6_string (ips ! i) port, cache') else panic))"

definition dial ::
  "(ip \<Rightarrow> string) \<Rightarrow> (string \<Rightarrow> string \<Rightarrow> string + 'c) \<Rightarrow> string \<Rightarrow> dial_env \<Rightarrow> dns
    \<Rightarrow> ((dial_error + 'c) \<times> dns) go" where
  "dial ip6_string net_dial network q cache =
     do {
       (t, cache') \<leftarrow> dial_target ip6_string q cache;
       ret (case t of
              Inl err \<Rightarrow> Inl err
            | Inr addr \<Rightarrow> (case net_dial network addr of Inl m \<Rightarrow> Inl (NetError m) | Inr c \<Rightarrow> Inr c),
            cache')
     }"

section \<open>Sequences of calls\<close>

text \<open>The cache after any sequence of calls from the start of the process, with the calls made, the
  last one first. Calls exclude each other (the mutex), so a sequence is all there is.\<close>

inductive dialled :: "(ip \<Rightarrow> string) \<Rightarrow> dial_env list \<Rightarrow> dns \<Rightarrow> bool" for ip6_string where
  start: "dialled ip6_string [] Map.empty"
| call: "dialled ip6_string qs cache \<Longrightarrow> dial_target ip6_string q cache = ret (res, cache') \<Longrightarrow>
    dialled ip6_string (q # qs) cache'"

inductive_cases dialled_ConsE: "dialled ip6_string (q # qs) cache"

definition answered :: "dial_env \<Rightarrow> string \<Rightarrow> ip list \<Rightarrow> bool" where
  "answered q host ips \<longleftrightarrow>
     (\<exists>port result. split_address (de_address q) = Some (host, port) \<and> de_lookup q host = Inr result \<and>
        ips = List.map_filter id result \<and> ips \<noteq> [])"

definition cache_ok :: "dial_env list \<Rightarrow> dns \<Rightarrow> bool" where
  "cache_ok qs cache \<longleftrightarrow>
     (\<forall>host ips on. cache host = Some (ips, on) \<longrightarrow> (\<exists>q\<in>set qs. on = de_after q \<and> answered q host ips))"

lemma cached_ips_ok:
  assumes "cache_ok qs cache" "cached_ips q host cache = ips" "ips \<noteq> []"
  shows "\<exists>q'\<in>set qs. answered q' host ips \<and> de_now q - de_after q' < dnsCacheTimeout"
proof -
  obtain on where "cache host = Some (ips, on)" "de_now q - on < dnsCacheTimeout"
    using assms(2,3) by (auto simp: cached_ips_def split: option.splits if_splits)
  then show ?thesis using assms(1) unfolding cache_ok_def by metis
qed

lemma resolve_ok:
  assumes "cache_ok qs cache" "split_address (de_address q) = Some (host, port)"
    "resolve q host cache = (res, cache')" "de_now q \<le> de_after q"
  shows "cache_ok (q # qs) cache' \<and>
    (\<forall>ips. res = Inr ips \<longrightarrow> ips \<noteq> [] \<and>
      (\<exists>q'\<in>set (q # qs). answered q' host ips \<and> de_now q - de_after q' < dnsCacheTimeout))"
proof (cases "cached_ips q host cache")
  case Nil
  have old: "cache_ok (q # qs) cache" using assms(1) by (fastforce simp: cache_ok_def)
  show ?thesis
  proof (cases "de_lookup q host")
    case (Inl err)
    then show ?thesis using assms(3) Nil old by (auto simp: resolve_def)
  next
    case (Inr result)
    let ?ips = "List.map_filter id result"
    show ?thesis
    proof (cases "?ips = []")
      case True
      then show ?thesis using assms(3) Nil Inr old by (auto simp: resolve_def)
    next
      case False
      then have ans: "answered q host ?ips" using assms(2) Inr by (auto simp: answered_def)
      have "cache' = cache(host \<mapsto> (?ips, de_after q))" "res = Inr ?ips"
        using assms(3) Nil Inr False by (auto simp: resolve_def Let_def)
      then show ?thesis
        using ans old False assms(4) by (auto simp: cache_ok_def dnsCacheTimeout_def)
    qed
  qed
next
  case (Cons a as)
  then have "res = Inr (a # as)" "cache' = cache" using assms(3) by (auto simp: resolve_def)
  moreover have "\<exists>q'\<in>set (q # qs). answered q' host (a # as) \<and> de_now q - de_after q' < dnsCacheTimeout"
    using cached_ips_ok [OF assms(1) Cons] by auto
  moreover have "cache_ok (q # qs) cache" using assms(1) by (fastforce simp: cache_ok_def)
  ultimately show ?thesis by auto
qed

lemma dial_target_ok:
  assumes "cache_ok qs cache" "dial_target ip6 q cache = ret (res, cache')" "de_now q \<le> de_after q"
  shows "cache_ok (q # qs) cache'"
proof (cases "split_address (de_address q)")
  case None
  then show ?thesis using assms(1,2) by (fastforce simp: dial_target_def cache_ok_def)
next
  case (Some hp)
  obtain host port where hp: "hp = (host, port)" by fastforce
  obtain r c where r: "resolve q host cache = (r, c)" by fastforce
  have "cache_ok (q # qs) c" using resolve_ok [OF assms(1) Some [unfolded hp] r assms(3)] by simp
  moreover have "c = cache'"
    using assms(2) by (cases r) (auto simp: dial_target_def Some hp r Let_def split: if_splits)
  ultimately show ?thesis by simp
qed

lemma dialled_ok:
  "dialled ip6 qs cache \<Longrightarrow> \<forall>q\<in>set qs. de_now q \<le> de_after q \<Longrightarrow> cache_ok qs cache"
proof (induction rule: dialled.induct)
  case start
  then show ?case by (simp add: cache_ok_def)
next
  case (call qs cache q res cache')
  then show ?case using dial_target_ok by simp
qed

text \<open>An address is cut at its first colon, and only an address without one is malformed.\<close>

lemma split_address_None: "split_address s = None \<Longrightarrow> CHR '':'' \<notin> set s"
  by (auto simp: split_address_def dropWhile_eq_Nil_conv split: list.splits)

lemma split_address_Some:
  assumes "split_address s = Some (host, port)"
  shows "s = host @ '':'' @ port" "CHR '':'' \<notin> set host"
proof -
  obtain c where dw: "dropWhile (\<lambda>c. c \<noteq> CHR '':'') s = c # port"
    and host: "host = takeWhile (\<lambda>c. c \<noteq> CHR '':'') s"
    using assms by (auto simp: split_address_def split: list.splits)
  have "c = CHR '':''" using dw by (metis (full_types) dropWhile_eq_Cons_conv)
  then show "s = host @ '':'' @ port"
    using takeWhile_dropWhile_id [of "\<lambda>c. c \<noteq> CHR '':''" s] dw host by simp
  show "CHR '':'' \<notin> set host" using set_takeWhileD host by metis
qed

section \<open>Properties\<close>

text \<open>C39. Names are resolved freshly: whatever calls were made before, a call never panics, and the
  address it dials is that of an IP which the resolver gave for the very host of the call less than
  five minutes ago, with the port of the call; the host is the text before the first colon.\<close>

theorem dial_fresh:
  assumes "dialled ip6 qs cache" "\<forall>q'\<in>set (q # qs). de_now q' \<le> de_after q'"
    and "\<forall>n>0. de_rand q n < n"
  shows "\<exists>res cache'. dial_target ip6 q cache = ret (res, cache') \<and>
    (res = Inl Malformed \<longleftrightarrow> CHR '':'' \<notin> set (de_address q)) \<and>
    (\<forall>addr. res = Inr addr \<longrightarrow>
      (\<exists>q'\<in>set (q # qs). \<exists>host port result a.
         de_address q = host @ '':'' @ port \<and> CHR '':'' \<notin> set host \<and>
         de_lookup q' host = Inr result \<and> Some a \<in> set result \<and>
         de_now q - de_after q' < 300 \<and> target ip6 a port = Inr addr))"
proof (cases "split_address (de_address q)")
  case None
  then have "CHR '':'' \<notin> set (de_address q)" by (rule split_address_None)
  then show ?thesis by (simp add: dial_target_def None)
next
  case (Some hp)
  obtain host port where hp: "hp = (host, port)" by fastforce
  note addr = split_address_Some [OF Some [unfolded hp]]
  obtain r cache' where r: "resolve q host cache = (r, cache')" by fastforce
  have ok: "cache_ok qs cache" using dialled_ok assms(1,2) by auto
  have le: "de_now q \<le> de_after q" using assms(2) by simp
  note fresh = resolve_ok [OF ok Some [unfolded hp] r le]
  show ?thesis
  proof (cases r)
    case (Inl err)
    then have "err \<noteq> Malformed"
      using r by (auto simp: resolve_def Let_def split: sum.splits if_splits)
    moreover have "dial_target ip6 q cache = ret (Inl err, cache')" using Inl by (simp add: dial_target_def Some hp r)
    ultimately show ?thesis by (simp add: addr(1))
  next
    case (Inr ips)
    then obtain q' where q': "ips \<noteq> []" "q' \<in> set (q # qs)" "answered q' host ips"
      "de_now q - de_after q' < dnsCacheTimeout" using fresh by blast
    have i: "de_rand q (length ips) < length ips" using assms(3) q'(1) by simp
    let ?a = "ips ! de_rand q (length ips)"
    obtain result where result: "de_lookup q' host = Inr result" "ips = List.map_filter id result"
      using q'(3) by (auto simp: answered_def)
    have "?a \<in> set (List.map_filter id result)" using i result(2) nth_mem by metis
    then have a: "Some ?a \<in> set result" by (auto simp: List.map_filter_def)
    have t: "target ip6 ?a port \<noteq> Inl Malformed" by (simp add: target_def split: option.splits)
    have dt: "dial_target ip6 q cache = ret (target ip6 ?a port, cache')"
      using i by (simp add: dial_target_def Some hp r Inr Let_def)
    have "\<exists>q'\<in>set (q # qs). \<exists>host port result a.
         de_address q = host @ '':'' @ port \<and> CHR '':'' \<notin> set host \<and>
         de_lookup q' host = Inr result \<and> Some a \<in> set result \<and>
         de_now q - de_after q' < 300 \<and> target ip6 a port = Inr x"
      if "target ip6 ?a port = Inr x" for x
      using addr q' result(1) a that unfolding dnsCacheTimeout_def
      by (intro bexI [of _ q'] exI [of _ host] exI [of _ port] exI [of _ result] exI [of _ ?a]) auto
    then show ?thesis using dt t by (simp add: addr(1))
  qed
qed

definition demo_env :: dial_env where
  "demo_env = \<lparr>de_address = ''hub:99'', de_lookup = (\<lambda>h. Inr [None, Some [10, 0, 0, 7]]),
     de_rand = (\<lambda>n. 0), de_now = 0, de_after = 1\<rparr>"

lemma demo_dial: "dial_target ip6 demo_env Map.empty = ret (Inr ''10.0.0.7:99'', [''hub'' \<mapsto> ([[10, 0, 0, 7]], 1)])"
  by (simp add: dial_target_def demo_env_def split_address_def resolve_def cached_ips_def Let_def
      List.map_filter_def target_def To4_def show_nat.simps hex_simps)

theorem dial_fresh_witness:
  "\<exists>result a. de_lookup demo_env ''hub'' = Inr result \<and> Some a \<in> set result \<and>
     target (\<lambda>_. []) a ''99'' = Inr ''10.0.0.7:99''"
proof -
  have "\<forall>n>0. de_rand demo_env n < n" "\<forall>q'\<in>set [demo_env]. de_now q' \<le> de_after q'"
    by (simp_all add: demo_env_def)
  from dial_fresh [OF dialled.start [of "\<lambda>_. []"] this(2) this(1)] obtain host port result a where
    *: "de_address demo_env = host @ '':'' @ port" "CHR '':'' \<notin> set host"
    "de_lookup demo_env host = Inr result" "Some a \<in> set result" "target (\<lambda>_. []) a port = Inr ''10.0.0.7:99''"
    by (auto simp: demo_dial)
  have "split_address (host @ '':'' @ port) = Some (host, port)"
    using *(2) by (intro split_address_colon)
  moreover have "split_address (de_address demo_env) = Some (''hub'', ''99'')"
    by (simp add: demo_env_def split_address_def)
  ultimately have "host = ''hub''" "port = ''99''" using *(1) by auto
  then show ?thesis using * by auto
qed

text \<open>The resolver is spared: while an answer for a host is less than five minutes old, calls for
  that host neither ask the resolver nor change the cache.\<close>

theorem dial_cached:
  assumes "split_address (de_address q) = Some (host, port)" "cache host = Some (a # as, on)"
    and "de_now q < on + 300"
  shows "dial_target ip6 (q\<lparr>de_lookup := any\<rparr>) cache = dial_target ip6 q cache \<and>
    (\<forall>res cache'. dial_target ip6 q cache = ret (res, cache') \<longrightarrow> cache' = cache)"
proof -
  have "cached_ips (q\<lparr>de_lookup := l\<rparr>) host cache = a # as" "cached_ips q host cache = a # as" for l
    using assms(2,3) by (simp_all add: cached_ips_def dnsCacheTimeout_def)
  then show ?thesis using assms(1) by (auto simp: dial_target_def resolve_def Let_def)
qed

theorem dial_cached_witness:
  "dial_target (\<lambda>_. []) (demo_env\<lparr>de_now := 300, de_lookup := (\<lambda>h. Inl ''down'')\<rparr>)
      [''hub'' \<mapsto> ([[10, 0, 0, 7]], 1)]
    = dial_target (\<lambda>_. []) (demo_env\<lparr>de_now := 300\<rparr>) [''hub'' \<mapsto> ([[10, 0, 0, 7]], 1)]"
proof -
  let ?q = "demo_env\<lparr>de_now := 300\<rparr>"
  have "split_address (de_address ?q) = Some (''hub'', ''99'')" "de_now ?q < 1 + 300"
    "[''hub'' \<mapsto> ([[10, 0, 0, 7]] :: ip list, 1 :: int)] ''hub'' = Some ([10, 0, 0, 7] # [], 1)"
    by (simp_all add: demo_env_def split_address_def)
  from dial_cached [where q = ?q and host = "''hub''" and cache = "[''hub'' \<mapsto> ([[10, 0, 0, 7]] :: ip list, 1 :: int)]" and a = "[10, 0, 0, 7]" and as = "[]" and on = 1, OF this(1,3,2), of "\<lambda>_. []" "\<lambda>h. Inl ''down''"]
  show ?thesis by simp
qed

text \<open>An IPv6 literal is cut at its first colon: the resolver is asked for the opening bracket.\<close>

lemma ipv6_literal_cut:
  "split_address (''[::1]:9900'') = Some (''['', '':1]:9900'')"
  by (simp add: split_address_def)

end
