(* ===== verification/Paths.thy ===== *)
theory Paths
  imports Prelude
begin

text \<open>
  Slash-separated paths: what the program uses of the packages path and path/filepath (on a Unix
  system both agree) and of \<open>strings.Split\<close>. \<open>Clean\<close> is written over the list of components, which
  is the documented reading of its lexical rules.
\<close>

section \<open>Splitting and joining\<close>

fun split_on :: "char \<Rightarrow> string \<Rightarrow> string list" where
  "split_on c [] = [[]]"
| "split_on c (x # xs) =
     (if x = c then [] # split_on c xs
      else (case split_on c xs of [] \<Rightarrow> [[x]] | y # ys \<Rightarrow> (x # y) # ys))"

fun join_with :: "string \<Rightarrow> string list \<Rightarrow> string" where
  "join_with sep [] = []"
| "join_with sep [x] = x"
| "join_with sep (x # y # ys) = x @ sep @ join_with sep (y # ys)"

lemma split_on_ne [simp]: "split_on c xs \<noteq> []"
  by (induction xs) (auto split: list.splits)

lemma split_on_plain: "c \<notin> set xs \<Longrightarrow> split_on c xs = [xs]"
  by (induction xs) auto

lemma split_on_app: "c \<notin> set xs \<Longrightarrow> split_on c (xs @ c # ys) = xs # split_on c ys"
  by (induction xs) auto

lemma split_on_join:
  "xs \<noteq> [] \<Longrightarrow> \<forall>x\<in>set xs. c \<notin> set x \<Longrightarrow> split_on c (join_with [c] xs) = xs"
proof (induction xs rule: induct_list012)
  case (3 x y zs)
  then show ?case using split_on_app [of c x "join_with [c] (y # zs)"] by simp
qed (simp_all add: split_on_plain)

lemma split_on_parts: "\<forall>x\<in>set (split_on c xs). c \<notin> set x"
proof (induction xs)
  case (Cons x xs)
  then show ?case by (auto split: list.splits)
qed simp

lemma join_split: "join_with [c] (split_on c xs) = xs"
proof (induction xs)
  case (Cons x xs)
  show ?case
  proof (cases "split_on c xs")
    case (Cons y ys)
    then show ?thesis using Cons.IH by (cases ys) auto
  qed simp
qed simp

lemma join_with_snoc: "xs \<noteq> [] \<Longrightarrow> join_with sep (xs @ [y]) = join_with sep xs @ sep @ y"
  by (induction xs rule: induct_list012) auto

lemma join_with_app: "xs \<noteq> [] \<Longrightarrow> ys \<noteq> [] \<Longrightarrow> join_with sep (xs @ ys) = join_with sep xs @ sep @ join_with sep ys"
proof (induction xs rule: induct_list012)
  case (2 x)
  then show ?case by (cases ys) auto
qed auto

text \<open>The room a list of components takes, with one slash each.\<close>

definition room :: "string list \<Rightarrow> nat" where
  "room xs = sum_list (map (\<lambda>x. Suc (length x)) xs)"

lemma room_simps [simp]: "room [] = 0" "room (x # xs) = Suc (length x) + room xs"
  "room (xs @ ys) = room xs + room ys" "room (rev xs) = room xs"
  by (simp_all add: room_def rev_map [symmetric])

lemma length_join: "xs \<noteq> [] \<Longrightarrow> Suc (length (join_with [c] xs)) = room xs"
  by (induction xs rule: induct_list012) auto

lemma room_split: "room (split_on c xs) = Suc (length xs)"
  using length_join [of "split_on c xs" c] by (simp add: join_split)

section \<open>Clean, Join, Dir and Base\<close>

definition clean_step :: "bool \<Rightarrow> string list \<Rightarrow> string \<Rightarrow> string list" where
  "clean_step rooted stack x =
     (if x = [] \<or> x = ''.'' then stack
      else if x = ''..'' then
        (case stack of
           [] \<Rightarrow> (if rooted then [] else [''..''])
         | t # rest \<Rightarrow> (if t = ''..'' then ''..'' # stack else rest))
      else x # stack)"

definition path_Clean :: "string \<Rightarrow> string" where
  "path_Clean p =
     (if p = [] then ''.''
      else
        let rooted = (hd p = CHR ''/'');
            body = join_with ''/'' (rev (foldl (clean_step rooted) [] (split_on (CHR ''/'') p)))
        in if rooted then CHR ''/'' # body else if body = [] then ''.'' else body)"

definition path_Join :: "string list \<Rightarrow> string" where
  "path_Join elems =
     (case dropWhile (\<lambda>e. e = []) elems of
        [] \<Rightarrow> []
      | es \<Rightarrow> path_Clean (join_with ''/'' es))"

text \<open>The part up to and including the last slash, and the part behind it.\<close>

definition split_dir :: "string \<Rightarrow> string" where
  "split_dir p = rev (dropWhile (\<lambda>c. c \<noteq> CHR ''/'') (rev p))"

definition split_file :: "string \<Rightarrow> string" where
  "split_file p = rev (takeWhile (\<lambda>c. c \<noteq> CHR ''/'') (rev p))"

definition path_Dir :: "string \<Rightarrow> string" where
  "path_Dir p = path_Clean (split_dir p)"

definition path_Base :: "string \<Rightarrow> string" where
  "path_Base p =
     (if p = [] then ''.''
      else
        let s = rev (dropWhile (\<lambda>c. c = CHR ''/'') (rev p));
            b = split_file s
        in if b = [] then ''/'' else b)"

lemma clean_step_room: "room (clean_step rooted stack x) \<le> room stack + Suc (length x)"
  by (auto simp: clean_step_def split: list.split)

lemma clean_fold_room: "room (foldl (clean_step rooted) stack xs) \<le> room stack + room xs"
proof (induction xs arbitrary: stack)
  case (Cons x xs)
  have "room (foldl (clean_step rooted) stack (x # xs)) \<le> room (clean_step rooted stack x) + room xs"
    using Cons by simp
  then show ?case using clean_step_room [of rooted stack x] by simp
qed simp

lemma clean_step_empty [simp]: "clean_step rooted stack [] = stack"
  by (simp add: clean_step_def)

lemma split_on_snoc: "split_on c (xs @ [c]) = split_on c xs @ [[]]"
proof (induction xs)
  case (Cons x xs)
  then show ?case by (auto split: list.split)
qed simp

lemma split_dir_cases:
  obtains (none) "split_dir p = []" "CHR ''/'' \<notin> set p"
  | (some) d where "split_dir p = d @ ''/''" "length d < length p"
proof (cases "dropWhile (\<lambda>c. c \<noteq> CHR ''/'') (rev p)")
  case Nil
  then show ?thesis using none by (auto simp: split_dir_def dropWhile_eq_Nil_conv)
next
  case (Cons c cs)
  then have "c = CHR ''/''" by (metis (full_types) dropWhile_eq_Cons_conv)
  moreover have "length (dropWhile (\<lambda>c. c \<noteq> CHR ''/'') (rev p)) \<le> length p"
    using length_dropWhile_le [of "\<lambda>c. c \<noteq> CHR ''/''" "rev p"] by simp
  ultimately show ?thesis using some [of "rev cs"] Cons by (simp add: split_dir_def)
qed

text \<open>The parent of a path is shorter, unless it is the root or the current directory.\<close>

lemma path_Clean_dir_shorter:
  assumes "path_Clean (d @ ''/'') \<noteq> ''.''" "path_Clean (d @ ''/'') \<noteq> ''/''"
  shows "length (path_Clean (d @ ''/'')) \<le> length d"
proof -
  let ?p = "d @ ''/''"
  define rooted where "rooted = (hd ?p = CHR ''/'')"
  define stack where "stack = foldl (clean_step rooted) [] (split_on (CHR ''/'') ?p)"
  have stack: "stack = foldl (clean_step rooted) [] (split_on (CHR ''/'') d)"
    using split_on_snoc [of "CHR ''/''" d] by (simp add: stack_def)
  have clean: "path_Clean ?p =
    (if rooted then CHR ''/'' # join_with ''/'' (rev stack)
     else if join_with ''/'' (rev stack) = [] then ''.'' else join_with ''/'' (rev stack))"
    by (simp add: path_Clean_def stack_def rooted_def Let_def)
  have ne: "stack \<noteq> []" using assms clean by (cases rooted) auto
  then have len: "Suc (length (join_with ''/'' (rev stack))) = room stack"
    using length_join [of "rev stack" "CHR ''/''"] by simp
  show ?thesis
  proof (cases "rooted \<and> d \<noteq> []")
    case True
    then obtain d' where d: "d = CHR ''/'' # d'" by (cases d) (auto simp: rooted_def)
    then have "stack = foldl (clean_step rooted) [] (split_on (CHR ''/'') d')" using stack by simp
    then have "room stack \<le> Suc (length d')"
      using clean_fold_room [of rooted "[]" "split_on (CHR ''/'') d'"] by (simp add: room_split)
    then show ?thesis using clean len True d by simp
  next
    case False
    show ?thesis
    proof (cases "d = []")
      case True
      then show ?thesis using ne stack by simp
    next
      case dne: False
      then have "\<not> rooted" using False by simp
      moreover have "room stack \<le> Suc (length d)"
        using clean_fold_room [of rooted "[]" "split_on (CHR ''/'') d"] stack by (simp add: room_split)
      moreover have "path_Clean ?p = join_with ''/'' (rev stack)"
        using clean \<open>\<not> rooted\<close> assms(1) by (auto split: if_splits)
      ultimately show ?thesis using len by simp
    qed
  qed
qed

lemma path_Dir_shorter:
  assumes "path_Dir p \<noteq> ''.''" "path_Dir p \<noteq> ''/''"
  shows "length (path_Dir p) < length p"
proof (cases rule: split_dir_cases [of p])
  case none
  then show ?thesis using assms by (simp add: path_Dir_def path_Clean_def)
next
  case (some d)
  then show ?thesis using assms path_Clean_dir_shorter [of d] by (simp add: path_Dir_def)
qed

section \<open>Paths made of plain names\<close>

text \<open>A name that can stand in a path: no slash, and none of the empty name, "." and "..".\<close>

definition plain_name :: "string \<Rightarrow> bool" where
  "plain_name x \<longleftrightarrow> x \<noteq> [] \<and> x \<noteq> ''.'' \<and> x \<noteq> ''..'' \<and> CHR ''/'' \<notin> set x"

definition path_of :: "string list \<Rightarrow> string" where
  "path_of xs = join_with ''/'' xs"

lemma path_of_Nil [simp]: "path_of [] = []"
  by (simp add: path_of_def)

lemma path_of_snoc: "xs \<noteq> [] \<Longrightarrow> path_of (xs @ [n]) = path_of xs @ CHR ''/'' # n"
  by (simp add: path_of_def join_with_snoc)

lemma path_of_ne: "xs \<noteq> [] \<Longrightarrow> list_all plain_name xs \<Longrightarrow> path_of xs \<noteq> []"
  by (induction xs rule: induct_list012) (auto simp: path_of_def plain_name_def)

lemma path_of_split: "xs \<noteq> [] \<Longrightarrow> list_all plain_name xs \<Longrightarrow> split_on (CHR ''/'') (path_of xs) = xs"
  unfolding path_of_def by (rule split_on_join) (auto simp: list_all_iff plain_name_def)

lemma path_of_inject:
  assumes "path_of xs = path_of ys" "list_all plain_name xs" "list_all plain_name ys"
  shows "xs = ys"
  using assms by (metis path_of_Nil path_of_ne path_of_split)

lemma clean_plain: "list_all plain_name xs \<Longrightarrow> foldl (clean_step r) stack xs = rev xs @ stack"
  by (induction xs arbitrary: stack) (auto simp: clean_step_def plain_name_def)

lemma hd_path_of: "xs \<noteq> [] \<Longrightarrow> list_all plain_name xs \<Longrightarrow> hd (path_of xs) \<noteq> CHR ''/''"
  by (induction xs rule: induct_list012) (auto simp: path_of_def plain_name_def hd_append dest: hd_in_set)

lemma path_Clean_plain:
  assumes "xs \<noteq> []" "list_all plain_name xs"
  shows "path_Clean (path_of xs) = path_of xs" "path_Clean (path_of xs @ ''/'') = path_of xs"
proof -
  have ne: "path_of xs \<noteq> []" using assms by (rule path_of_ne)
  have hd: "hd (path_of xs) \<noteq> CHR ''/''" "hd (path_of xs @ ''/'') \<noteq> CHR ''/''"
    using hd_path_of [OF assms] ne by (simp_all add: hd_append)
  have sp: "split_on (CHR ''/'') (path_of xs) = xs" using assms by (rule path_of_split)
  show "path_Clean (path_of xs) = path_of xs"
    using ne hd sp assms(2) by (simp add: path_Clean_def clean_plain path_of_def [symmetric] Let_def)
  have "split_on (CHR ''/'') (path_of xs @ ''/'') = xs @ [[]]" using split_on_snoc [of "CHR ''/''" "path_of xs"] sp by simp
  then show "path_Clean (path_of xs @ ''/'') = path_of xs"
    using ne hd assms(2) by (simp add: path_Clean_def clean_plain path_of_def [symmetric] Let_def)
qed

lemma no_slash_rev: "CHR ''/'' \<notin> set n \<Longrightarrow> list_all (\<lambda>c. c \<noteq> CHR ''/'') (rev n)"
  by (auto simp: list_all_iff)

lemma split_dir_slash: "CHR ''/'' \<notin> set n \<Longrightarrow> split_dir (d @ CHR ''/'' # n) = d @ ''/''"
  using dropWhile_all_append [OF no_slash_rev, of n "CHR ''/''" "rev d"] by (simp add: split_dir_def)

lemma split_file_slash: "CHR ''/'' \<notin> set n \<Longrightarrow> split_file (d @ CHR ''/'' # n) = n"
  using takeWhile_all_append [OF no_slash_rev, of n "CHR ''/''" "rev d"] by (simp add: split_file_def)

lemma split_plain: "CHR ''/'' \<notin> set n \<Longrightarrow> split_dir n = []" "CHR ''/'' \<notin> set n \<Longrightarrow> split_file n = n"
proof -
  assume n: "CHR ''/'' \<notin> set n"
  show "split_dir n = []" by (simp only: split_dir_def dropWhile_all [OF no_slash_rev [OF n]] rev.simps)
  show "split_file n = n" by (simp only: split_file_def takeWhile_all [OF no_slash_rev [OF n]] rev_rev_ident)
qed

lemma path_Dir_snoc:
  assumes "list_all plain_name xs" "plain_name n"
  shows "path_Dir (path_of (xs @ [n])) = (if xs = [] then ''.'' else path_of xs)"
proof (cases "xs = []")
  case True
  then show ?thesis using assms by (simp add: path_Dir_def path_of_def plain_name_def split_plain path_Clean_def)
next
  case False
  then show ?thesis
    using assms by (simp add: path_Dir_def path_of_snoc plain_name_def split_dir_slash path_Clean_plain(2))
qed

lemma path_Base_snoc:
  assumes "plain_name n"
  shows "path_Base (path_of (xs @ [n])) = n"
proof -
  have n: "CHR ''/'' \<notin> set n" "n \<noteq> []" using assms by (auto simp: plain_name_def)
  have p: "path_of (xs @ [n]) = n \<or> path_of (xs @ [n]) = path_of xs @ CHR ''/'' # n"
    by (cases "xs = []") (simp_all add: path_of_snoc, simp add: path_of_def)
  have "rev (dropWhile (\<lambda>c. c = CHR ''/'') (rev (u @ n))) = u @ n" for u
    using n by (cases "rev n") (auto simp: rev_eq_append_conv)
  note keep = this [of "[]"] this [of "path_of xs @ ''/''"]
  show ?thesis
    using p keep n split_file_slash [OF n(1)] split_plain(2) [OF n(1)] by (auto simp: path_Base_def Let_def)
qed

lemma path_Join_snoc:
  assumes "list_all plain_name xs" "plain_name n"
  shows "path_Join [path_of xs, n] = path_of (xs @ [n])"
proof (cases "xs = []")
  case True
  have "path_Clean (path_of [n]) = path_of [n]" using assms(2) by (intro path_Clean_plain) simp_all
  then show ?thesis using True assms(2) by (simp add: path_Join_def plain_name_def path_of_def)
next
  case False
  then have "path_of xs \<noteq> []" using assms(1) path_of_ne by blast
  moreover have "path_Clean (path_of (xs @ [n])) = path_of (xs @ [n])"
    using assms by (intro path_Clean_plain) simp_all
  ultimately show ?thesis using False by (simp add: path_Join_def path_of_snoc)
qed

end
