(* ===== verification/Metas.thy ===== *)
theory Metas
  imports Paths
begin

unbundle bit_operations_syntax

text \<open>
  The metadata of files: meta/meta.go, file.go, dir.go, link.go and special.go, with the accessors
  of cap.np/model.capnp.go they rely on. The Cap'n Proto records are given as what their accessors
  return; an accessor whose error the code drops returns the zero value then. The \<open>sync.Once\<close>
  fields memoise reads of immutable records, so a method is the function it memoises.
\<close>

section \<open>Node types\<close>

type_synonym node_type = u32

abbreviation UnknownType :: node_type where "UnknownType \<equiv> 0"
abbreviation DirType :: node_type where "DirType \<equiv> 0x4000"
abbreviation RegularType :: node_type where "RegularType \<equiv> 0x8000"
abbreviation BlockDeviceType :: node_type where "BlockDeviceType \<equiv> 0x6000"
abbreviation CharDeviceType :: node_type where "CharDeviceType \<equiv> 0x2000"
abbreviation SocketType :: node_type where "SocketType \<equiv> 0xC000"
abbreviation FIFOType :: node_type where "FIFOType \<equiv> 0x1000"
abbreviation LinkType :: node_type where "LinkType \<equiv> 0xA000"

definition NodeType_String :: "node_type \<Rightarrow> string" where
  "NodeType_String nt =
     (if nt = DirType then ''dir type''
      else if nt = RegularType then ''file type''
      else if nt = BlockDeviceType then ''block device type''
      else if nt = CharDeviceType then ''char device type''
      else if nt = SocketType then ''socket type''
      else if nt = FIFOType then ''fifo type''
      else if nt = LinkType then ''link type''
      else ''unknown type'')"

section \<open>Attributes\<close>

record access =
  ac_UID :: u32
  ac_GID :: u32
  ac_Mode :: u32

record info =
  in_CreationTime :: u32
  in_ModificationTime :: u32
  in_Access :: access
  in_Type :: node_type
  in_Size :: u64
  in_LinkTarget :: string
  in_FileBlockSize :: u64
  in_SpecialData :: string

record block_info =
  bi_Key :: bytes
  bi_Decipher :: bytes

text \<open>Errors of the metadata stores.\<close>

datatype merr =
    MNotFound               \<comment> \<open>\<open>meta.ErrNotFound\<close>\<close>
  | MNoRows                 \<comment> \<open>\<open>sql.ErrNoRows\<close>\<close>
  | MNoACI                  \<comment> \<open>\<open>errNoACI\<close>\<close>
  | MSkipDir                \<comment> \<open>\<open>ErrSkipDir\<close>\<close>
  | MErr string             \<comment> \<open>any other error\<close>

section \<open>The records of a flist\<close>

record np_block =
  nb_hash :: bytes
  nb_key :: bytes

record np_file =
  nf_BlockSize :: u16
  nf_HasBlocks :: bool
  nf_Blocks :: "np_block list"

text \<open>The union \<open>Inode.attributes\<close>; a tag this schema does not know is \<open>At_other\<close>.\<close>

datatype np_attributes =
    At_dir string            \<comment> \<open>the key of the subdirectory\<close>
  | At_file np_file
  | At_link string           \<comment> \<open>the target\<close>
  | At_special u16 bytes     \<comment> \<open>type and data\<close>
  | At_other u16

record np_inode =
  ni_Name :: string
  ni_Size :: u64
  ni_Attributes :: np_attributes
  ni_Aclkey :: string
  ni_ModificationTime :: u32
  ni_CreationTime :: u32

record np_dir =
  nd_Name :: string
  nd_HasContents :: bool
  nd_Contents :: "merr + np_inode list"
  nd_Aclkey :: "merr + string"
  nd_ModificationTime :: u32
  nd_CreationTime :: u32

text \<open>An ACI; \<open>uid\<close> and \<open>gid\<close> are stored XOR their default -1.\<close>

record np_aci =
  na_Uname :: string
  na_Gname :: string
  na_Mode :: u16
  na_uid_bits :: u64
  na_gid_bits :: u64

definition aci_Uid :: "np_aci \<Rightarrow> int" where
  "aci_Uid a = sint (na_uid_bits a XOR 18446744073709551615)"

definition aci_Gid :: "np_aci \<Rightarrow> int" where
  "aci_Gid a = sint (na_gid_bits a XOR 18446744073709551615)"

section \<open>The metadata objects\<close>

text \<open>\<open>NilDir\<close> is a nil \<open>*Dir\<close> behind a non-nil \<open>Meta\<close>: its methods that touch a field panic.\<close>

datatype meta =
    Dir np_dir access
  | File np_inode np_file access
  | Link np_inode string access
  | Special np_inode u16 bytes access
  | NilDir

fun meta_Name :: "meta \<Rightarrow> string go" where
  "meta_Name (Dir d a) = ret (nd_Name d)"
| "meta_Name (File i f a) = ret (ni_Name i)"
| "meta_Name (Link i t a) = ret (ni_Name i)"
| "meta_Name (Special i t d a) = ret (ni_Name i)"
| "meta_Name NilDir = panic"

fun meta_IsDir :: "meta \<Rightarrow> bool" where
  "meta_IsDir (Dir d a) = True"
| "meta_IsDir (File i f a) = False"
| "meta_IsDir (Link i t a) = False"
| "meta_IsDir (Special i t d a) = False"
| "meta_IsDir NilDir = True"

definition getBlocks :: "np_file \<Rightarrow> block_info list" where
  "getBlocks f =
     (if \<not> nf_HasBlocks f then []
      else map (\<lambda>b. \<lparr>bi_Key = nb_hash b, bi_Decipher = nb_key b\<rparr>) (nf_Blocks f))"

fun meta_Blocks :: "meta \<Rightarrow> block_info list" where
  "meta_Blocks (File i f a) = getBlocks f"
| "meta_Blocks _ = []"

text \<open>\<open>ID\<close>: the MD5 of the keys of the blocks; \<open>md5\<close> is the hash function.\<close>

fun meta_ID :: "(bytes \<Rightarrow> bytes) \<Rightarrow> meta \<Rightarrow> string" where
  "meta_ID md5 (File i f a) = show_hex (md5 (concat (map bi_Key (getBlocks f))))"
| "meta_ID md5 _ = []"

definition special_type :: "u16 \<Rightarrow> node_type" where
  "special_type t =
     (if t = 0 then SocketType
      else if t = 1 then BlockDeviceType
      else if t = 2 then CharDeviceType
      else if t = 3 then FIFOType
      else UnknownType)"

definition dir_Info :: "np_dir \<Rightarrow> access \<Rightarrow> info" where
  "dir_Info d a =
     \<lparr>in_CreationTime = nd_CreationTime d, in_ModificationTime = nd_ModificationTime d,
      in_Access = a, in_Type = DirType, in_Size = 4096,
      in_LinkTarget = [], in_FileBlockSize = 0, in_SpecialData = []\<rparr>"

definition file_Info :: "np_inode \<Rightarrow> np_file \<Rightarrow> access \<Rightarrow> info" where
  "file_Info i f a =
     \<lparr>in_CreationTime = ni_CreationTime i, in_ModificationTime = ni_ModificationTime i,
      in_Access = a, in_Type = RegularType, in_Size = ni_Size i,
      in_LinkTarget = [], in_FileBlockSize = ucast (nf_BlockSize f) * 4096, in_SpecialData = []\<rparr>"

definition link_Info :: "np_inode \<Rightarrow> string \<Rightarrow> access \<Rightarrow> info" where
  "link_Info i t a =
     \<lparr>in_CreationTime = ni_CreationTime i, in_ModificationTime = ni_ModificationTime i,
      in_Access = a, in_Type = LinkType, in_Size = ni_Size i,
      in_LinkTarget = t, in_FileBlockSize = 0, in_SpecialData = []\<rparr>"

definition special_Info :: "np_inode \<Rightarrow> u16 \<Rightarrow> bytes \<Rightarrow> access \<Rightarrow> info" where
  "special_Info i t d a =
     \<lparr>in_CreationTime = ni_CreationTime i, in_ModificationTime = ni_ModificationTime i,
      in_Access = a, in_Type = special_type t, in_Size = ni_Size i,
      in_LinkTarget = [], in_FileBlockSize = 0, in_SpecialData = map (\<lambda>b. char_of (unat b)) d\<rparr>"

fun meta_Info :: "meta \<Rightarrow> info go" where
  "meta_Info (Dir d a) = ret (dir_Info d a)"
| "meta_Info (File i f a) = ret (file_Info i f a)"
| "meta_Info (Link i t a) = ret (link_Info i t a)"
| "meta_Info (Special i t d a) = ret (special_Info i t d a)"
| "meta_Info NilDir = panic"

lemma meta_Name_panic: "meta_Name m = panic \<longleftrightarrow> m = NilDir"
  by (cases m) auto

lemma meta_Info_panic: "meta_Info m = panic \<longleftrightarrow> m = NilDir"
  by (cases m) auto

text \<open>The block size of a file fits: at most 65535 units of 4096 bytes, no wrap-around.\<close>

lemma file_block_size: "unat (in_FileBlockSize (file_Info i f a)) = unat (nf_BlockSize f) * 4096"
proof -
  have "unat (nf_BlockSize f) < 65536" using unsigned_less [of "nf_BlockSize f", where ?'a = nat] by simp
  then have "unat (nf_BlockSize f) * 4096 < 2 ^ LENGTH(64)" by simp
  moreover have "(ucast (nf_BlockSize f) * 4096 :: u64) = word_of_nat (unat (nf_BlockSize f) * 4096)"
    by (simp add: unsigned_of_nat)
  ultimately show ?thesis by (simp add: file_Info_def take_bit_nat_eq_self unsigned_of_nat del: of_nat_mult)
qed

text \<open>The default -1 is what an absent uid reads as.\<close>

lemma aci_default: "na_uid_bits a = 0 \<Longrightarrow> aci_Uid a = -1" "na_gid_bits a = 0 \<Longrightarrow> aci_Gid a = -1"
  by (simp_all add: aci_Uid_def aci_Gid_def)


section \<open>The interfaces \<open>Meta\<close> and \<open>Store\<close>\<close>

text \<open>
  What the layers and the filesystem rely on: a store is asked for paths made of plain names, and its
  answers and its directory listings agree. \<open>sound\<close> collects what is assumed of the data behind the
  store. \<open>attr\<close> is what \<open>Info\<close> returns.
\<close>

locale meta_store =
  fixes get :: "string \<Rightarrow> 'm option go"
    and name :: "'m \<Rightarrow> string go"
    and isDir :: "'m \<Rightarrow> bool"
    and children :: "'m \<Rightarrow> 'm list go"
    and attr :: "'m \<Rightarrow> 'i"
    and sound :: bool
  assumes file_children: "sound \<Longrightarrow> list_all plain_name cs \<Longrightarrow> get (path_of cs) = ret (Some m) \<Longrightarrow>
      \<not> isDir m \<Longrightarrow> children m = ret []"
    and get_total: "sound \<Longrightarrow> list_all plain_name cs \<Longrightarrow> \<exists>r. get (path_of cs) = ret r"
    and children_total: "sound \<Longrightarrow> list_all plain_name cs \<Longrightarrow> get (path_of cs) = ret (Some m) \<Longrightarrow>
      \<exists>ms. children m = ret ms \<and> (\<forall>c\<in>set ms. \<exists>n. name c = ret n \<and> plain_name n)"
    and child_found: "sound \<Longrightarrow> list_all plain_name cs \<Longrightarrow> get (path_of cs) = ret (Some m) \<Longrightarrow>
      children m = ret ms \<Longrightarrow> c \<in> set ms \<Longrightarrow> name c = ret n \<Longrightarrow>
      \<exists>c'. get (path_of (cs @ [n])) = ret (Some c') \<and> attr c' = attr c \<and> isDir c' = isDir c"
    and found_child: "sound \<Longrightarrow> list_all plain_name cs \<Longrightarrow> plain_name n \<Longrightarrow>
      get (path_of (cs @ [n])) = ret (Some c') \<Longrightarrow>
      \<exists>m ms c. get (path_of cs) = ret (Some m) \<and> children m = ret ms \<and> c \<in> set ms \<and> name c = ret n"
begin

text \<open>The names listed in a directory are exactly those that can be looked up below it.\<close>

lemma listing:
  assumes "sound" "list_all plain_name cs" "get (path_of cs) = ret (Some m)"
  shows "\<exists>ms. children m = ret ms \<and>
    {n. \<exists>c\<in>set ms. name c = ret n} = {n. plain_name n \<and> (\<exists>c. get (path_of (cs @ [n])) = ret (Some c))}"
proof -
  obtain ms where ms: "children m = ret ms" "\<forall>c\<in>set ms. \<exists>n. name c = ret n \<and> plain_name n"
    using children_total [OF assms] by blast
  have "plain_name n \<and> (\<exists>c. get (path_of (cs @ [n])) = ret (Some c))" if "c \<in> set ms" "name c = ret n" for c n
    using child_found [OF assms ms(1) that] ms(2) that by fastforce
  moreover have "\<exists>c\<in>set ms. name c = ret n"
    if n: "plain_name n" "get (path_of (cs @ [n])) = ret (Some c')" for n c'
    using found_child [OF assms(1,2) n] assms(3) ms(1) by auto
  ultimately have "{n. \<exists>c\<in>set ms. name c = ret n} = {n. plain_name n \<and> (\<exists>c. get (path_of (cs @ [n])) = ret (Some c))}"
    by blast
  with ms(1) show ?thesis by blast
qed

text \<open>Nothing lies below a file or below a path that is not there.\<close>

lemma nothing_below:
  assumes "sound" "list_all plain_name cs" "plain_name n"
    and "get (path_of cs) = ret None \<or> (\<exists>m. get (path_of cs) = ret (Some m) \<and> \<not> isDir m)"
  shows "get (path_of (cs @ [n])) = ret None"
proof -
  have "list_all plain_name (cs @ [n])" using assms(2,3) by simp
  then obtain r where r: "get (path_of (cs @ [n])) = ret r" using get_total assms(1) by blast
  show ?thesis
  proof (cases r)
    case (Some c')
    then obtain m ms c where "get (path_of cs) = ret (Some m)" "children m = ret ms" "c \<in> set ms"
      using found_child [OF assms(1-3)] r by blast
    then show ?thesis using assms(4) file_children [OF assms(1,2)] by fastforce
  qed (use r in simp)
qed

end

end
