(* ===== verification/SqlStore.thy ===== *)
theory SqlStore
  imports Metas
begin

text \<open>
  The metadata store of one flist: meta/store.go and \<open>Dir.getChildren\<close> of meta/dir.go. The query of
  the SQLite table, BLAKE2b, the Cap'n Proto decoding of a row, the system's user and group
  databases and the LRU caches are the fields of an environment; the two caches, and the maps of
  names already looked up, are the state. The second half of the theory shows that the state is
  invisible: every operation returns what its cache-free counterpart returns.
\<close>

section \<open>Environment and state\<close>

record ('l, 'v) lru_api =
  lru_Get :: "'l \<Rightarrow> string \<Rightarrow> 'v option \<times> 'l"
  lru_Add :: "'l \<Rightarrow> string \<Rightarrow> 'v \<Rightarrow> 'l"

record ('c, 'a) env =
  ev_query :: "string \<Rightarrow> merr + bytes"          \<comment> \<open>\<open>stmt.QueryRow(key)\<close> and \<open>Scan\<close>\<close>
  ev_blake :: "string \<Rightarrow> bytes"                  \<comment> \<open>the 16 byte BLAKE2b digest\<close>
  ev_dir :: "bytes \<Rightarrow> merr + np_dir"             \<comment> \<open>decoding a row as a \<open>Dir\<close>\<close>
  ev_aci :: "bytes \<Rightarrow> merr + np_aci"             \<comment> \<open>decoding a row as an \<open>ACI\<close>\<close>
  ev_user :: "string \<Rightarrow> string option"           \<comment> \<open>\<open>user.Lookup\<close>: the text of the uid\<close>
  ev_group :: "string \<Rightarrow> string option"          \<comment> \<open>\<open>user.LookupGroup\<close>: the text of the gid\<close>
  ev_dirs :: "('c, meta) lru_api"
  ev_acis :: "('a, np_aci) lru_api"

record ('c, 'a) store =
  st_cache :: 'c
  st_acl :: 'a
  st_users :: "string \<rightharpoonup> int"
  st_groups :: "string \<rightharpoonup> int"

definition DefaultAccess :: access where
  "DefaultAccess = \<lparr>ac_UID = 1000, ac_GID = 1000, ac_Mode = 256\<rparr>"

section \<open>Access control\<close>

definition getACI :: "('c, 'a) env \<Rightarrow> string \<Rightarrow> ('c, 'a) store \<Rightarrow> (merr + np_aci) \<times> ('c, 'a) store" where
  "getACI ev key st =
     (case lru_Get (ev_acis ev) (st_acl st) key of
        (Some aci, acl) \<Rightarrow> (Inr aci, st\<lparr>st_acl := acl\<rparr>)
      | (None, acl) \<Rightarrow>
          (case ev_query ev key of
             Inl err \<Rightarrow> (Inl (if err = MNoRows then MNoACI else err), st\<lparr>st_acl := acl\<rparr>)
           | Inr data \<Rightarrow>
               (case ev_aci ev data of
                  Inl err \<Rightarrow> (Inl err, st\<lparr>st_acl := acl\<rparr>)
                | Inr aci \<Rightarrow> (Inr aci, st\<lparr>st_acl := lru_Add (ev_acis ev) acl key aci\<rparr>))))"

text \<open>\<open>strconv.ParseInt(s, 10, 32)\<close>.\<close>

definition parse_int32 :: "string \<Rightarrow> int option" where
  "parse_int32 s =
     (let (neg, ds) = (case s of
            [] \<Rightarrow> (False, [])
          | c # cs \<Rightarrow> (if c = CHR ''-'' then (True, cs) else if c = CHR ''+'' then (False, cs) else (False, s)));
          n = (if neg then - int (read_digits ds) else int (read_digits ds))
      in if ds \<noteq> [] \<and> list_all is_digit ds \<and> - (2 ^ 31) \<le> n \<and> n < 2 ^ 31 then Some n else None)"

definition id_or_default :: "string option \<Rightarrow> int" where
  "id_or_default u =
     (case u of
        None \<Rightarrow> 1000
      | Some text \<Rightarrow> (case parse_int32 text of None \<Rightarrow> 1000 | Some i \<Rightarrow> i))"

definition lookUpUser :: "('c, 'a) env \<Rightarrow> string \<Rightarrow> ('c, 'a) store \<Rightarrow> int \<times> ('c, 'a) store" where
  "lookUpUser ev name st =
     (case st_users st name of
        Some i \<Rightarrow> (i, st)
      | None \<Rightarrow>
          let uid = id_or_default (ev_user ev name)
          in (uid, st\<lparr>st_users := (st_users st)(name \<mapsto> uid)\<rparr>))"

definition lookUpGroup :: "('c, 'a) env \<Rightarrow> string \<Rightarrow> ('c, 'a) store \<Rightarrow> int \<times> ('c, 'a) store" where
  "lookUpGroup ev name st =
     (case st_groups st name of
        Some i \<Rightarrow> (i, st)
      | None \<Rightarrow>
          let gid = id_or_default (ev_group ev name)
          in (gid, st\<lparr>st_groups := (st_groups st)(name \<mapsto> gid)\<rparr>))"

text \<open>\<open>getAccess\<close> returns an access beside its error; \<open>os.ModePerm\<close> is 0777.\<close>

definition getAccess ::
  "('c, 'a) env \<Rightarrow> string \<Rightarrow> ('c, 'a) store \<Rightarrow> (access \<times> merr option) \<times> ('c, 'a) store" where
  "getAccess ev key st =
     (case getACI ev key st of
        (Inl err, st1) \<Rightarrow> ((DefaultAccess, Some err), st1)
      | (Inr aci, st1) \<Rightarrow>
          let (uid, st2) = (if aci_Uid aci = -1 then lookUpUser ev (na_Uname aci) st1 else (aci_Uid aci, st1));
              (gid, st3) = (if aci_Gid aci = -1 then lookUpGroup ev (na_Gname aci) st2 else (aci_Gid aci, st2))
          in ((\<lparr>ac_UID = word_of_int uid, ac_GID = word_of_int gid, ac_Mode = 511 AND ucast (na_Mode aci)\<rparr>,
               None), st3))"

section \<open>Directories\<close>

definition getDirWithHash ::
  "('c, 'a) env \<Rightarrow> string \<Rightarrow> ('c, 'a) store \<Rightarrow> (merr + meta) \<times> ('c, 'a) store" where
  "getDirWithHash ev hash st =
     (case ev_query ev hash of
        Inl err \<Rightarrow> (Inl err, st)
      | Inr data \<Rightarrow>
          (case ev_dir ev data of
             Inl err \<Rightarrow> (Inl err, st)
           | Inr dir \<Rightarrow>
               (case nd_Aclkey dir of
                  Inl err \<Rightarrow> (Inl err, st)
                | Inr key \<Rightarrow>
                    (case getAccess ev key st of
                       ((access, err), st1) \<Rightarrow>
                         if err \<noteq> None \<and> err \<noteq> Some MNoACI then (Inl (the err), st1)
                         else (Inr (Dir dir access), st1)))))"

definition sql_hash :: "('c, 'a) env \<Rightarrow> string \<Rightarrow> string" where
  "sql_hash ev p = show_hex (ev_blake ev p)"

definition getDir :: "('c, 'a) env \<Rightarrow> string \<Rightarrow> ('c, 'a) store \<Rightarrow> (merr + meta) \<times> ('c, 'a) store" where
  "getDir ev p st = getDirWithHash ev (sql_hash ev (if p = ''.'' then [] else p)) st"

text \<open>One inode of a directory. A subdirectory that cannot be read is a nil pointer, which is not
  the nil interface and is appended all the same; a special file is left out.\<close>

definition child_of ::
  "('c, 'a) env \<Rightarrow> np_inode \<Rightarrow> ('c, 'a) store \<Rightarrow> meta option \<times> ('c, 'a) store" where
  "child_of ev inode st =
     (case ni_Attributes inode of
        At_dir subkey \<Rightarrow>
          (case getDirWithHash ev subkey st of
             (Inl _, st1) \<Rightarrow> (Some NilDir, st1)
           | (Inr sub, st1) \<Rightarrow> (Some sub, st1))
      | At_file f \<Rightarrow>
          (case getAccess ev (ni_Aclkey inode) st of ((access, _), st1) \<Rightarrow> (Some (File inode f access), st1))
      | At_link t \<Rightarrow>
          (case getAccess ev (ni_Aclkey inode) st of ((access, _), st1) \<Rightarrow> (Some (Link inode t access), st1))
      | At_special t d \<Rightarrow> (None, st)
      | At_other t \<Rightarrow> (None, st))"

fun children_from :: "('c, 'a) env \<Rightarrow> np_inode list \<Rightarrow> ('c, 'a) store \<Rightarrow> meta list \<times> ('c, 'a) store" where
  "children_from ev [] st = ([], st)"
| "children_from ev (inode # inodes) st =
     (case child_of ev inode st of
        (m, st1) \<Rightarrow>
          (case children_from ev inodes st1 of
             (ms, st2) \<Rightarrow> ((case m of None \<Rightarrow> ms | Some c \<Rightarrow> c # ms), st2)))"

definition getChildren :: "('c, 'a) env \<Rightarrow> np_dir \<Rightarrow> ('c, 'a) store \<Rightarrow> meta list \<times> ('c, 'a) store" where
  "getChildren ev d st =
     (if \<not> nd_HasContents d then ([], st)
      else
        (case nd_Contents d of
           Inl err \<Rightarrow> ([], st)
         | Inr inodes \<Rightarrow> children_from ev inodes st))"

fun meta_Children :: "('c, 'a) env \<Rightarrow> meta \<Rightarrow> ('c, 'a) store \<Rightarrow> (meta list \<times> ('c, 'a) store) go" where
  "meta_Children ev (Dir d a) st = ret (getChildren ev d st)"
| "meta_Children ev NilDir st = panic"
| "meta_Children ev _ st = ret ([], st)"

section \<open>Lookup\<close>

definition parent_path :: "string \<Rightarrow> string" where
  "parent_path p = (if path_Dir p = ''.'' \<or> path_Dir p = ''/'' then [] else path_Dir p)"

lemma parent_path_shorter: "p \<noteq> [] \<Longrightarrow> length (parent_path p) < length p"
  using path_Dir_shorter [of p] by (auto simp: parent_path_def)

fun find_child :: "string \<Rightarrow> meta list \<Rightarrow> meta option go" where
  "find_child name [] = ret None"
| "find_child name (child # children) =
     do { n \<leftarrow> meta_Name child; if n = name then ret (Some child) else find_child name children }"

function sql_get ::
  "('c, 'a) env \<Rightarrow> string \<Rightarrow> ('c, 'a) store \<Rightarrow> ((merr + meta) \<times> ('c, 'a) store) go" where
  "sql_get ev p st =
     (case lru_Get (ev_dirs ev) (st_cache st) p of
        (Some m, c) \<Rightarrow> ret (Inr m, st\<lparr>st_cache := c\<rparr>)
      | (None, c) \<Rightarrow>
          (case getDir ev p (st\<lparr>st_cache := c\<rparr>) of
             (Inr dir, st2) \<Rightarrow> ret (Inr dir, st2\<lparr>st_cache := lru_Add (ev_dirs ev) (st_cache st2) p dir\<rparr>)
           | (Inl _, st2) \<Rightarrow>
               (if p = [] then ret (Inl MNotFound, st2)
                else
                  do {
                    (res, st3) \<leftarrow> sql_get ev (parent_path p) st2;
                    case res of
                      Inl err \<Rightarrow> ret (Inl err, st3)
                    | Inr parent \<Rightarrow>
                        do {
                          (children, st4) \<leftarrow> meta_Children ev parent st3;
                          m \<leftarrow> find_child (path_Base p) children;
                          ret (case m of None \<Rightarrow> Inl MNotFound | Some m \<Rightarrow> Inr m, st4)
                        }
                  })))"
  by pat_completeness auto
termination
  by (relation "measure (\<lambda>(ev, p, st). length p)") (auto intro: parent_path_shorter)

declare sql_get.simps [simp del]

definition sql_Get ::
  "('c, 'a) env \<Rightarrow> string \<Rightarrow> ('c, 'a) store \<Rightarrow> (meta option \<times> ('c, 'a) store) go" where
  "sql_Get ev p st =
     do { (res, st1) \<leftarrow> sql_get ev p st; ret (case res of Inl _ \<Rightarrow> None | Inr m \<Rightarrow> Some m, st1) }"

section \<open>Walking\<close>

text \<open>The outer option of \<open>walkDir\<close> is the fuel: a damaged flist can have a directory below itself,
  and then the walk does not end. \<open>fn\<close> is the callback over its own state.\<close>

type_synonym 'f walk_fn = "string \<Rightarrow> meta \<Rightarrow> 'f \<Rightarrow> merr option \<times> 'f"

fun walkDir ::
  "nat \<Rightarrow> ('c, 'a) env \<Rightarrow> 'f walk_fn \<Rightarrow> string \<Rightarrow> meta \<Rightarrow> 'f \<times> ('c, 'a) store
    \<Rightarrow> (merr option \<times> 'f \<times> ('c, 'a) store) go option"
and walk_children ::
  "nat \<Rightarrow> ('c, 'a) env \<Rightarrow> 'f walk_fn \<Rightarrow> string \<Rightarrow> meta list \<Rightarrow> 'f \<times> ('c, 'a) store
    \<Rightarrow> (merr option \<times> 'f \<times> ('c, 'a) store) go option" where
  "walkDir 0 ev fn root dir (f, st) = None"
| "walkDir (Suc k) ev fn root dir (f, st) =
     (case fn root dir f of
        (Some err, f1) \<Rightarrow> Some (ret (if err = MSkipDir then None else Some err, f1, st))
      | (None, f1) \<Rightarrow>
          (case meta_Children ev dir st of
             None \<Rightarrow> Some panic
           | Some (children, st1) \<Rightarrow> walk_children k ev fn root children (f1, st1)))"
| "walk_children k ev fn root [] (f, st) = Some (ret (None, f, st))"
| "walk_children k ev fn root (child # children) (f, st) =
     (case meta_Name child of
        None \<Rightarrow> Some panic
      | Some name \<Rightarrow>
          let p = path_Join [root, name]
          in if meta_IsDir child then
               (case walkDir k ev fn p child (f, st) of
                  None \<Rightarrow> None
                | Some None \<Rightarrow> Some panic
                | Some (Some (Some err, f1, st1)) \<Rightarrow> Some (ret (Some err, f1, st1))
                | Some (Some (None, f1, st1)) \<Rightarrow> walk_children k ev fn root children (f1, st1))
             else
               (case fn p child f of
                  (Some err, f1) \<Rightarrow> Some (ret (if err = MSkipDir then None else Some err, f1, st))
                | (None, f1) \<Rightarrow> walk_children k ev fn root children (f1, st)))"

definition sql_Walk ::
  "nat \<Rightarrow> ('c, 'a) env \<Rightarrow> string \<Rightarrow> 'f walk_fn \<Rightarrow> 'f \<times> ('c, 'a) store
    \<Rightarrow> (merr option \<times> 'f \<times> ('c, 'a) store) go option" where
  "sql_Walk k ev root fn s =
     (case sql_get ev root (snd s) of
        None \<Rightarrow> Some panic
      | Some (Inl err, st) \<Rightarrow> Some (ret (Some err, fst s, st))
      | Some (Inr dir, st) \<Rightarrow>
          (if meta_IsDir dir then walkDir k ev fn root dir (fst s, st)
           else (case fn root dir (fst s) of (err, f) \<Rightarrow> Some (ret (err, f, st)))))"


section \<open>Opening a store\<close>

definition SQLiteDBName :: string where "SQLiteDBName = ''flistdb.sqlite3''"

text \<open>\<open>open_db\<close> opens the database and prepares the query; \<open>dirs\<close> and \<open>acis\<close> are new LRU caches.\<close>

definition NewStore ::
  "(string \<Rightarrow> merr + ('c, 'a) env) \<Rightarrow> 'c \<Rightarrow> 'a \<Rightarrow> string \<Rightarrow> merr + ('c, 'a) env \<times> ('c, 'a) store" where
  "NewStore open_db dirs acis p =
     (case open_db (''file:'' @ path_Join [p, SQLiteDBName] @ ''?mode=ro'') of
        Inl err \<Rightarrow> Inl err
      | Inr ev \<Rightarrow>
          Inr (ev, \<lparr>st_cache = dirs, st_acl = acis, st_users = Map.empty, st_groups = Map.empty\<rparr>))"

text \<open>\<open>Close\<close> closes the statement, whose error is dropped, and the database.\<close>

definition sql_Close :: "('w \<Rightarrow> merr option \<times> 'w) \<Rightarrow> ('w \<Rightarrow> merr option \<times> 'w) \<Rightarrow> 'w \<Rightarrow> merr option \<times> 'w" where
  "sql_Close close_stmt close_db w = (let (dropped, w1) = close_stmt w in close_db w1)"

text \<open>A sequence of lookups.\<close>

fun sql_Gets ::
  "('c, 'a) env \<Rightarrow> string list \<Rightarrow> ('c, 'a) store \<Rightarrow> (meta option list \<times> ('c, 'a) store) go" where
  "sql_Gets ev [] st = ret ([], st)"
| "sql_Gets ev (p # ps) st =
     do {
       (m, st1) \<leftarrow> sql_Get ev p st;
       (ms, st2) \<leftarrow> sql_Gets ev ps st1;
       ret (m # ms, st2)
     }"

section \<open>The store without its caches\<close>

definition aci_at :: "('c, 'a) env \<Rightarrow> string \<Rightarrow> merr + np_aci" where
  "aci_at ev key =
     (case ev_query ev key of
        Inl err \<Rightarrow> Inl (if err = MNoRows then MNoACI else err)
      | Inr data \<Rightarrow> ev_aci ev data)"

definition uid_of :: "('c, 'a) env \<Rightarrow> np_aci \<Rightarrow> int" where
  "uid_of ev a = (if aci_Uid a = -1 then id_or_default (ev_user ev (na_Uname a)) else aci_Uid a)"

definition gid_of :: "('c, 'a) env \<Rightarrow> np_aci \<Rightarrow> int" where
  "gid_of ev a = (if aci_Gid a = -1 then id_or_default (ev_group ev (na_Gname a)) else aci_Gid a)"

definition access_at :: "('c, 'a) env \<Rightarrow> string \<Rightarrow> access \<times> merr option" where
  "access_at ev key =
     (case aci_at ev key of
        Inl err \<Rightarrow> (DefaultAccess, Some err)
      | Inr a \<Rightarrow> (\<lparr>ac_UID = word_of_int (uid_of ev a), ac_GID = word_of_int (gid_of ev a),
                  ac_Mode = 511 AND ucast (na_Mode a)\<rparr>, None))"

definition dir_at :: "('c, 'a) env \<Rightarrow> string \<Rightarrow> merr + meta" where
  "dir_at ev hash =
     (case ev_query ev hash of
        Inl err \<Rightarrow> Inl err
      | Inr data \<Rightarrow>
          (case ev_dir ev data of
             Inl err \<Rightarrow> Inl err
           | Inr dir \<Rightarrow>
               (case nd_Aclkey dir of
                  Inl err \<Rightarrow> Inl err
                | Inr key \<Rightarrow>
                    (case access_at ev key of
                       (access, err) \<Rightarrow>
                         if err \<noteq> None \<and> err \<noteq> Some MNoACI then Inl (the err) else Inr (Dir dir access)))))"

definition inode_meta :: "('c, 'a) env \<Rightarrow> np_inode \<Rightarrow> meta option" where
  "inode_meta ev inode =
     (case ni_Attributes inode of
        At_dir subkey \<Rightarrow> Some (case dir_at ev subkey of Inl _ \<Rightarrow> NilDir | Inr sub \<Rightarrow> sub)
      | At_file f \<Rightarrow> Some (File inode f (fst (access_at ev (ni_Aclkey inode))))
      | At_link t \<Rightarrow> Some (Link inode t (fst (access_at ev (ni_Aclkey inode))))
      | At_special t d \<Rightarrow> None
      | At_other t \<Rightarrow> None)"

definition dir_inodes :: "np_dir \<Rightarrow> np_inode list" where
  "dir_inodes d =
     (if \<not> nd_HasContents d then [] else (case nd_Contents d of Inl _ \<Rightarrow> [] | Inr inodes \<Rightarrow> inodes))"

fun children_of :: "('c, 'a) env \<Rightarrow> meta \<Rightarrow> meta list go" where
  "children_of ev (Dir d a) = ret (List.map_filter (inode_meta ev) (dir_inodes d))"
| "children_of ev NilDir = panic"
| "children_of ev _ = ret []"

definition dir_path_at :: "('c, 'a) env \<Rightarrow> string \<Rightarrow> merr + meta" where
  "dir_path_at ev p = dir_at ev (sql_hash ev (if p = ''.'' then [] else p))"

function get_at :: "('c, 'a) env \<Rightarrow> string \<Rightarrow> (merr + meta) go" where
  "get_at ev p =
     (case dir_path_at ev p of
        Inr dir \<Rightarrow> ret (Inr dir)
      | Inl _ \<Rightarrow>
          (if p = [] then ret (Inl MNotFound)
           else
             do {
               res \<leftarrow> get_at ev (parent_path p);
               case res of
                 Inl err \<Rightarrow> ret (Inl err)
               | Inr parent \<Rightarrow>
                   do {
                     children \<leftarrow> children_of ev parent;
                     m \<leftarrow> find_child (path_Base p) children;
                     ret (case m of None \<Rightarrow> Inl MNotFound | Some m \<Rightarrow> Inr m)
                   }
             }))"
  by pat_completeness auto
termination
  by (relation "measure (\<lambda>(ev, p). length p)") (auto intro: parent_path_shorter)

declare get_at.simps [simp del]

section \<open>The caches are invisible\<close>

text \<open>What an LRU cache does, whatever it evicts: it holds a part of what was added, newest value
  per key. \<open>content\<close> reads it as a map.\<close>

definition lru_laws :: "('l, 'v) lru_api \<Rightarrow> ('l \<Rightarrow> string \<rightharpoonup> 'v) \<Rightarrow> bool" where
  "lru_laws api content \<longleftrightarrow>
     (\<forall>l k. fst (lru_Get api l k) = content l k \<and> content (snd (lru_Get api l k)) = content l) \<and>
     (\<forall>l k v. content (lru_Add api l k v) \<subseteq>\<^sub>m (content l)(k \<mapsto> v))"

text \<open>Everything the state remembers is what the environment says.\<close>

definition store_ok ::
  "('c \<Rightarrow> string \<rightharpoonup> meta) \<Rightarrow> ('a \<Rightarrow> string \<rightharpoonup> np_aci) \<Rightarrow> ('c, 'a) env \<Rightarrow> ('c, 'a) store \<Rightarrow> bool" where
  "store_ok dirs acis ev st \<longleftrightarrow>
     (\<forall>p m. dirs (st_cache st) p = Some m \<longrightarrow> dir_path_at ev p = Inr m) \<and>
     (\<forall>k a. acis (st_acl st) k = Some a \<longrightarrow> aci_at ev k = Inr a) \<and>
     (\<forall>n i. st_users st n = Some i \<longrightarrow> i = id_or_default (ev_user ev n)) \<and>
     (\<forall>n i. st_groups st n = Some i \<longrightarrow> i = id_or_default (ev_group ev n))"

definition env_ok ::
  "('c \<Rightarrow> string \<rightharpoonup> meta) \<Rightarrow> ('a \<Rightarrow> string \<rightharpoonup> np_aci) \<Rightarrow> ('c, 'a) env \<Rightarrow> bool" where
  "env_ok dirs acis ev \<longleftrightarrow> lru_laws (ev_dirs ev) dirs \<and> lru_laws (ev_acis ev) acis"

lemma lru_GetD:
  assumes "lru_laws api content" "lru_Get api l k = (v, l')"
  shows "v = content l k" "content l' = content l"
  using assms unfolding lru_laws_def by (metis fst_conv, metis snd_conv)

lemma lru_AddD:
  assumes "lru_laws api content" "content (lru_Add api l k v) k' = Some v'"
  shows "(k' = k \<and> v' = v) \<or> content l k' = Some v'"
proof -
  have "content (lru_Add api l k v) \<subseteq>\<^sub>m (content l)(k \<mapsto> v)" using assms(1) by (simp add: lru_laws_def)
  then have "((content l)(k \<mapsto> v)) k' = Some v'" using assms(2) by (metis domI map_le_def)
  then show ?thesis by (auto split: if_splits)
qed

lemma getACI_ok:
  assumes "env_ok dirs acis ev" "store_ok dirs acis ev st"
  shows "\<exists>st'. getACI ev key st = (aci_at ev key, st') \<and> store_ok dirs acis ev st' \<and> st_cache st' = st_cache st"
proof -
  have laws: "lru_laws (ev_acis ev) acis" using assms(1) by (simp add: env_ok_def)
  obtain v acl where g: "lru_Get (ev_acis ev) (st_acl st) key = (v, acl)" by fastforce
  note v = lru_GetD [OF laws g]
  have ok: "store_ok dirs acis ev (st\<lparr>st_acl := acl\<rparr>)" using assms(2) v(2) by (simp add: store_ok_def)
  show ?thesis
  proof (cases v)
    case (Some a)
    then have "aci_at ev key = Inr a" using v(1) assms(2) by (simp add: store_ok_def)
    then show ?thesis using g Some ok by (simp add: getACI_def)
  next
    case None
    show ?thesis
    proof (cases "ev_query ev key")
      case (Inl e)
      then show ?thesis using g None ok by (simp add: getACI_def aci_at_def)
    next
      case (Inr data)
      show ?thesis
      proof (cases "ev_aci ev data")
        case (Inl e)
        then show ?thesis using g None Inr ok by (simp add: getACI_def aci_at_def)
      next
        case a: (Inr a)
        then have at: "aci_at ev key = Inr a" using Inr by (simp add: aci_at_def)
        have "store_ok dirs acis ev (st\<lparr>st_acl := lru_Add (ev_acis ev) acl key a\<rparr>)"
          using ok at by (auto simp: store_ok_def dest: lru_AddD [OF laws])
        then show ?thesis using g None Inr a at by (simp add: getACI_def)
      qed
    qed
  qed
qed

lemma lookUpUser_ok:
  assumes "store_ok dirs acis ev st"
  shows "\<exists>st'. lookUpUser ev n st = (id_or_default (ev_user ev n), st') \<and> store_ok dirs acis ev st' \<and>
    st_cache st' = st_cache st"
proof (cases "st_users st n")
  case None
  have "store_ok dirs acis ev (st\<lparr>st_users := (st_users st)(n \<mapsto> id_or_default (ev_user ev n))\<rparr>)"
    using assms by (auto simp: store_ok_def)
  then show ?thesis using None by (simp add: lookUpUser_def Let_def)
next
  case (Some i)
  then show ?thesis using assms by (simp add: lookUpUser_def store_ok_def)
qed

lemma lookUpGroup_ok:
  assumes "store_ok dirs acis ev st"
  shows "\<exists>st'. lookUpGroup ev n st = (id_or_default (ev_group ev n), st') \<and> store_ok dirs acis ev st' \<and>
    st_cache st' = st_cache st"
proof (cases "st_groups st n")
  case None
  have "store_ok dirs acis ev (st\<lparr>st_groups := (st_groups st)(n \<mapsto> id_or_default (ev_group ev n))\<rparr>)"
    using assms by (auto simp: store_ok_def)
  then show ?thesis using None by (simp add: lookUpGroup_def Let_def)
next
  case (Some i)
  then show ?thesis using assms by (simp add: lookUpGroup_def store_ok_def)
qed

lemma getAccess_ok:
  assumes "env_ok dirs acis ev" "store_ok dirs acis ev st"
  shows "\<exists>st'. getAccess ev key st = (access_at ev key, st') \<and> store_ok dirs acis ev st' \<and> st_cache st' = st_cache st"
proof -
  obtain st1 where a: "getACI ev key st = (aci_at ev key, st1)" "store_ok dirs acis ev st1" "st_cache st1 = st_cache st"
    using getACI_ok [OF assms] by blast
  show ?thesis
  proof (cases "aci_at ev key")
    case (Inl e)
    then show ?thesis using a by (simp add: getAccess_def access_at_def)
  next
    case (Inr aci)
    obtain st2 where u: "(if aci_Uid aci = -1 then lookUpUser ev (na_Uname aci) st1 else (aci_Uid aci, st1)) = (uid_of ev aci, st2)"
      "store_ok dirs acis ev st2" "st_cache st2 = st_cache st"
      using lookUpUser_ok [OF a(2), of "na_Uname aci"] a(2,3) by (cases "aci_Uid aci = -1") (auto simp: uid_of_def)
    obtain st3 where g: "(if aci_Gid aci = -1 then lookUpGroup ev (na_Gname aci) st2 else (aci_Gid aci, st2)) = (gid_of ev aci, st3)"
      "store_ok dirs acis ev st3" "st_cache st3 = st_cache st"
      using lookUpGroup_ok [OF u(2), of "na_Gname aci"] u(2,3) by (cases "aci_Gid aci = -1") (auto simp: gid_of_def)
    show ?thesis using a(1) u g Inr by (simp add: getAccess_def access_at_def)
  qed
qed

lemma getDirWithHash_ok:
  assumes "env_ok dirs acis ev" "store_ok dirs acis ev st"
  shows "\<exists>st'. getDirWithHash ev hash st = (dir_at ev hash, st') \<and> store_ok dirs acis ev st' \<and> st_cache st' = st_cache st"
proof -
  have acc: "\<exists>st'. getAccess ev key st = (access_at ev key, st') \<and> store_ok dirs acis ev st' \<and> st_cache st' = st_cache st" for key
    by (rule getAccess_ok [OF assms])
  show ?thesis
  proof (cases "ev_query ev hash")
    case (Inl e)
    then show ?thesis using assms(2) by (simp add: getDirWithHash_def dir_at_def)
  next
    case data: (Inr data)
    show ?thesis
    proof (cases "ev_dir ev data")
      case (Inl e)
      then show ?thesis using data assms(2) by (simp add: getDirWithHash_def dir_at_def)
    next
      case dir: (Inr dir)
      show ?thesis
      proof (cases "nd_Aclkey dir")
        case (Inl e)
        then show ?thesis using data dir assms(2) by (simp add: getDirWithHash_def dir_at_def)
      next
        case (Inr key)
        obtain st1 where "getAccess ev key st = (access_at ev key, st1)" "store_ok dirs acis ev st1"
          "st_cache st1 = st_cache st" using acc by blast
        then show ?thesis using data dir Inr
          by (cases "access_at ev key") (auto simp: getDirWithHash_def dir_at_def)
      qed
    qed
  qed
qed

lemma child_of_ok:
  assumes "env_ok dirs acis ev" "store_ok dirs acis ev st"
  shows "\<exists>st'. child_of ev i st = (inode_meta ev i, st') \<and> store_ok dirs acis ev st' \<and> st_cache st' = st_cache st"
proof (cases "ni_Attributes i")
  case (At_dir k)
  obtain st' where "getDirWithHash ev k st = (dir_at ev k, st')" "store_ok dirs acis ev st'" "st_cache st' = st_cache st"
    using getDirWithHash_ok [OF assms] by blast
  then show ?thesis using At_dir by (cases "dir_at ev k") (simp_all add: child_of_def inode_meta_def)
next
  case (At_file f)
  obtain st' where "getAccess ev (ni_Aclkey i) st = (access_at ev (ni_Aclkey i), st')" "store_ok dirs acis ev st'"
    "st_cache st' = st_cache st" using getAccess_ok [OF assms] by blast
  then show ?thesis using At_file
    by (cases "access_at ev (ni_Aclkey i)") (simp add: child_of_def inode_meta_def)
next
  case (At_link t)
  obtain st' where "getAccess ev (ni_Aclkey i) st = (access_at ev (ni_Aclkey i), st')" "store_ok dirs acis ev st'"
    "st_cache st' = st_cache st" using getAccess_ok [OF assms] by blast
  then show ?thesis using At_link
    by (cases "access_at ev (ni_Aclkey i)") (simp add: child_of_def inode_meta_def)
qed (use assms in \<open>simp_all add: child_of_def inode_meta_def\<close>)

lemma children_from_ok:
  assumes "env_ok dirs acis ev" "store_ok dirs acis ev st"
  shows "\<exists>st'. children_from ev is st = (List.map_filter (inode_meta ev) is, st') \<and> store_ok dirs acis ev st' \<and>
    st_cache st' = st_cache st"
  using assms(2)
proof (induction "is" arbitrary: st)
  case Nil
  then show ?case by (simp add: List.map_filter_def)
next
  case (Cons i "is")
  obtain st1 where 1: "child_of ev i st = (inode_meta ev i, st1)" "store_ok dirs acis ev st1" "st_cache st1 = st_cache st"
    using child_of_ok [OF assms(1) Cons.prems] by blast
  obtain st2 where 2: "children_from ev is st1 = (List.map_filter (inode_meta ev) is, st2)"
    "store_ok dirs acis ev st2" "st_cache st2 = st_cache st1" using Cons.IH [OF 1(2)] by blast
  show ?case using 1 2 by (cases "inode_meta ev i") (simp_all add: List.map_filter_def)
qed

lemma meta_Children_ok:
  assumes "env_ok dirs acis ev" "store_ok dirs acis ev st"
  shows "\<exists>st'. meta_Children ev m st = map_option (\<lambda>ms. (ms, st')) (children_of ev m) \<and> store_ok dirs acis ev st' \<and>
    st_cache st' = st_cache st"
proof (cases m)
  case (Dir d a)
  have "\<exists>st'. getChildren ev d st = (List.map_filter (inode_meta ev) (dir_inodes d), st') \<and> store_ok dirs acis ev st' \<and>
    st_cache st' = st_cache st"
    using children_from_ok [OF assms] assms(2)
    by (auto simp: getChildren_def dir_inodes_def List.map_filter_def split: sum.split)
  then show ?thesis using Dir by auto
qed (use assms in auto)

text \<open>Looking a name up among the children of its parent.\<close>

lemma child_lookup_ok:
  assumes "env_ok dirs acis ev" "store_ok dirs acis ev st"
  shows "\<exists>st'. do {
      (children, st4) \<leftarrow> meta_Children ev parent st;
      m \<leftarrow> find_child name children;
      ret (case m of None \<Rightarrow> Inl MNotFound | Some m \<Rightarrow> Inr m, st4)
    } = map_option (\<lambda>r. (r, st')) (do {
      children \<leftarrow> children_of ev parent;
      m \<leftarrow> find_child name children;
      ret (case m of None \<Rightarrow> Inl MNotFound | Some m \<Rightarrow> Inr m)
    }) \<and> store_ok dirs acis ev st'"
proof -
  obtain st4 where c4: "meta_Children ev parent st = map_option (\<lambda>ms. (ms, st4)) (children_of ev parent)"
    "store_ok dirs acis ev st4" using meta_Children_ok [OF assms] by blast
  show ?thesis
  proof (cases "children_of ev parent")
    case None
    then show ?thesis using c4 by auto
  next
    case (Some ms)
    then show ?thesis using c4 by (cases "find_child name ms") auto
  qed
qed

lemma sql_get_ok:
  assumes "env_ok dirs acis ev" "store_ok dirs acis ev st"
  shows "\<exists>st'. sql_get ev p st = map_option (\<lambda>r. (r, st')) (get_at ev p) \<and> store_ok dirs acis ev st'"
  using assms(2)
proof (induction "length p" arbitrary: p st rule: less_induct)
  case less
  have laws: "lru_laws (ev_dirs ev) dirs" using assms(1) by (simp add: env_ok_def)
  obtain v c where g: "lru_Get (ev_dirs ev) (st_cache st) p = (v, c)" by fastforce
  note v = lru_GetD [OF laws g]
  have ok: "store_ok dirs acis ev (st\<lparr>st_cache := c\<rparr>)" using less.prems v(2) by (simp add: store_ok_def)
  note sms = sql_get.simps [of ev p st] get_at.simps [of ev p] g
  show ?case
  proof (cases v)
    case (Some m)
    then have "dir_path_at ev p = Inr m" using v(1) less.prems by (simp add: store_ok_def)
    then show ?thesis using Some ok by (simp add: sms)
  next
    case None
    obtain st2 where d: "getDir ev p (st\<lparr>st_cache := c\<rparr>) = (dir_path_at ev p, st2)" "store_ok dirs acis ev st2"
      using getDirWithHash_ok [OF assms(1) ok] unfolding getDir_def dir_path_at_def by blast
    show ?thesis
    proof (cases "dir_path_at ev p")
      case (Inr m)
      have "store_ok dirs acis ev (st2\<lparr>st_cache := lru_Add (ev_dirs ev) (st_cache st2) p m\<rparr>)"
        using d(2) Inr by (auto simp: store_ok_def dest: lru_AddD [OF laws])
      then show ?thesis using None d Inr by (simp add: sms)
    next
      case (Inl e)
      show ?thesis
      proof (cases "p = []")
        case True
        then show ?thesis
          using None d Inl g by (simp add: sql_get.simps [of ev "[]" st] get_at.simps [of ev "[]"])
      next
        case False
        obtain st3 where p3: "sql_get ev (parent_path p) st2 = map_option (\<lambda>r. (r, st3)) (get_at ev (parent_path p))"
          "store_ok dirs acis ev st3" using less.hyps [OF parent_path_shorter [OF False] d(2)] by blast
        show ?thesis
        proof (cases "get_at ev (parent_path p)")
          case None': None
          then show ?thesis using None d Inl False p3 by (auto simp: sms)
        next
          case (Some res)
          then show ?thesis
            using child_lookup_ok [OF assms(1) p3(2), of _ "path_Base p"] None d Inl False p3 by (cases res) (auto simp: sms)
        qed
      qed
    qed
  qed
qed


section \<open>Well-formed flists\<close>

text \<open>
  What the writer of a flist promises: the row at the hash of a directory's path is that directory; a
  directory's subdirectories are the rows their keys name, at the hash of their own paths and
  with their own names; nothing else is a directory row; names are plain and distinct.
\<close>

definition subdir_at :: "('c, 'a) env \<Rightarrow> string list \<Rightarrow> np_inode \<Rightarrow> bool" where
  "subdir_at ev cs i \<longleftrightarrow>
     (\<forall>k. ni_Attributes i = At_dir k \<longrightarrow>
        (\<exists>d a. dir_at ev k = Inr (Dir d a) \<and> nd_Name d = ni_Name i \<and>
           dir_path_at ev (path_of (cs @ [ni_Name i])) = Inr (Dir d a)))"

definition flist_ok :: "('c, 'a) env \<Rightarrow> bool" where
  "flist_ok ev \<longleftrightarrow>
     (\<forall>cs d a. list_all plain_name cs \<longrightarrow> dir_path_at ev (path_of cs) = Inr (Dir d a) \<longrightarrow>
        distinct (map ni_Name (dir_inodes d)) \<and>
        (\<forall>i\<in>set (dir_inodes d). plain_name (ni_Name i) \<and> subdir_at ev cs i)) \<and>
     (\<forall>cs n d' a'. list_all plain_name cs \<longrightarrow> plain_name n \<longrightarrow>
        dir_path_at ev (path_of (cs @ [n])) = Inr (Dir d' a') \<longrightarrow>
        (\<exists>d a. dir_path_at ev (path_of cs) = Inr (Dir d a) \<and>
           (\<exists>i\<in>set (dir_inodes d). ni_Name i = n \<and> (\<exists>k. ni_Attributes i = At_dir k))))"

lemma dir_at_Dir: "dir_at ev h = Inr m \<Longrightarrow> \<exists>d a. m = Dir d a"
  by (auto simp: dir_at_def split: sum.splits prod.splits if_splits)

lemma dir_path_at_Dir: "dir_path_at ev p = Inr m \<Longrightarrow> \<exists>d a. m = Dir d a"
  unfolding dir_path_at_def by (rule dir_at_Dir)

lemma flist_dirD:
  assumes "flist_ok ev" "list_all plain_name cs" "dir_path_at ev (path_of cs) = Inr (Dir d a)"
  shows "distinct (map ni_Name (dir_inodes d))"
    and "i \<in> set (dir_inodes d) \<Longrightarrow> plain_name (ni_Name i)"
    and "i \<in> set (dir_inodes d) \<Longrightarrow> subdir_at ev cs i"
  using assms unfolding flist_ok_def by blast+

lemma flist_parentD:
  assumes "flist_ok ev" "list_all plain_name cs" "plain_name n" "dir_path_at ev (path_of (cs @ [n])) = Inr m"
  shows "\<exists>d a i k. dir_path_at ev (path_of cs) = Inr (Dir d a) \<and> i \<in> set (dir_inodes d) \<and> ni_Name i = n \<and>
    ni_Attributes i = At_dir k"
proof -
  obtain d' a' where "m = Dir d' a'" using dir_path_at_Dir [OF assms(4)] by blast
  then show ?thesis using assms unfolding flist_ok_def by blast
qed

lemma path_of_not_dot: "list_all plain_name cs \<Longrightarrow> path_of cs \<noteq> ''.''"
proof
  assume cs: "list_all plain_name cs" and dot: "path_of cs = ''.''"
  then have "cs \<noteq> []" by auto
  then have "split_on (CHR ''/'') ''.'' = cs" using path_of_split cs dot by metis
  then have "cs = [''.'']" by simp
  then show False using cs by (simp add: plain_name_def)
qed

lemma path_of_not_slash: "list_all plain_name cs \<Longrightarrow> path_of cs \<noteq> ''/''"
  using hd_path_of [of cs] by (cases "cs = []") auto

lemma parent_path_of:
  "list_all plain_name cs \<Longrightarrow> plain_name n \<Longrightarrow> parent_path (path_of (cs @ [n])) = path_of cs"
  using path_of_not_dot [of cs] path_of_not_slash [of cs] by (simp add: parent_path_def path_Dir_snoc)

text \<open>The metadata of an inode that is no unreadable subdirectory carries the inode's name.\<close>

lemma inode_meta_name:
  assumes "subdir_at ev cs i" "inode_meta ev i = Some m"
  shows "meta_Name m = ret (ni_Name i)"
  using assms by (auto simp: inode_meta_def subdir_at_def split: np_attributes.splits)

lemma find_child_inodes:
  assumes "distinct (map ni_Name is)" "\<forall>i\<in>set is. subdir_at ev cs i"
  shows "find_child n (List.map_filter (inode_meta ev) is) =
    ret (case find (\<lambda>i. ni_Name i = n) is of None \<Rightarrow> None | Some i \<Rightarrow> inode_meta ev i)"
  using assms
proof (induction "is")
  case Nil
  then show ?case by (simp add: List.map_filter_def)
next
  case (Cons i "is")
  have none: "find (\<lambda>j. ni_Name j = ni_Name i) is = None"
  proof -
    have "ni_Name i \<notin> ni_Name ` set is" using Cons.prems(1) by simp
    then show ?thesis unfolding find_None_iff by (metis imageI)
  qed
  show ?case
  proof (cases "inode_meta ev i")
    case None
    then show ?thesis using Cons none by (auto simp: List.map_filter_def)
  next
    case (Some m)
    then have "meta_Name m = ret (ni_Name i)" using inode_meta_name [of ev cs i m] Cons.prems(2) by simp
    then show ?thesis using Cons Some by (simp add: List.map_filter_def)
  qed
qed

text \<open>What a directory has under a name that is no directory of the flist.\<close>

lemma get_at_below_dir:
  assumes "flist_ok ev" "list_all plain_name cs" "plain_name n" "dir_path_at ev (path_of cs) = Inr (Dir d a)"
    and "get_at ev (path_of cs) = ret (Inr (Dir d a))" "dir_path_at ev (path_of (cs @ [n])) = Inl e"
  shows "\<exists>r. get_at ev (path_of (cs @ [n])) = ret r \<and> (\<forall>m. r = Inr m \<longrightarrow> m \<noteq> NilDir \<and> (\<forall>d a. m \<noteq> Dir d a))"
proof -
  have ne: "path_of (cs @ [n]) \<noteq> []" using path_of_ne [of "cs @ [n]"] assms(2,3) by fastforce
  note D = flist_dirD [OF assms(1,2,4)]
  have f: "find_child n (List.map_filter (inode_meta ev) (dir_inodes d)) =
    ret (case find (\<lambda>i. ni_Name i = n) (dir_inodes d) of None \<Rightarrow> None | Some i \<Rightarrow> inode_meta ev i)"
    by (rule find_child_inodes) (use D in auto)
  have g: "get_at ev (path_of (cs @ [n])) =
    ret (case (case find (\<lambda>i. ni_Name i = n) (dir_inodes d) of None \<Rightarrow> None | Some i \<Rightarrow> inode_meta ev i) of
           None \<Rightarrow> Inl MNotFound | Some m \<Rightarrow> Inr m)"
    using assms(5,6) ne f
    by (simp add: get_at.simps [of ev "path_of (cs @ [n])"] parent_path_of [OF assms(2,3)] path_Base_snoc [OF assms(3)])
  have no_dir: "m \<noteq> NilDir \<and> (\<forall>d a. m \<noteq> Dir d a)"
    if i: "find (\<lambda>i. ni_Name i = n) (dir_inodes d) = Some i" and m: "inode_meta ev i = Some m" for i m
  proof -
    have "i \<in> set (dir_inodes d)" "ni_Name i = n" using i by (auto simp: find_Some_iff)
    then have "\<forall>k. ni_Attributes i \<noteq> At_dir k" using D(3) [of i] assms(6) by (auto simp: subdir_at_def)
    then show ?thesis using m by (auto simp: inode_meta_def split: np_attributes.splits)
  qed
  show ?thesis using g no_dir by (auto split: option.splits)
qed

lemma get_at_dir:
  assumes "flist_ok ev" "list_all plain_name cs"
  shows "(\<exists>r. get_at ev (path_of cs) = ret r) \<and> get_at ev (path_of cs) \<noteq> ret (Inr NilDir) \<and>
    (\<forall>d a. get_at ev (path_of cs) = ret (Inr (Dir d a)) \<longrightarrow> dir_path_at ev (path_of cs) = Inr (Dir d a))"
  using assms(2)
proof (induction cs rule: rev_induct)
  case Nil
  then show ?case by (cases "dir_path_at ev []") (auto simp: get_at.simps [of ev "[]"] dest: dir_path_at_Dir)
next
  case (snoc n cs)
  then have cs: "list_all plain_name cs" "plain_name n" by simp_all
  have ne: "path_of (cs @ [n]) \<noteq> []" using snoc.prems path_of_ne by blast
  note sms = get_at.simps [of ev "path_of (cs @ [n])"] parent_path_of [OF cs] path_Base_snoc [OF cs(2)]
  show ?case
  proof (cases "dir_path_at ev (path_of (cs @ [n]))")
    case (Inr m)
    then show ?thesis by (auto simp: sms dest: dir_path_at_Dir)
  next
    case (Inl e)
    obtain r where r: "get_at ev (path_of cs) = ret r" using snoc.IH cs(1) by blast
    show ?thesis
    proof (cases r)
      case (Inl e')
      then show ?thesis using \<open>dir_path_at ev (path_of (cs @ [n])) = Inl e\<close> ne r by (simp add: sms)
    next
      case (Inr pm)
      show ?thesis
      proof (cases pm)
        case (Dir d a)
        then have "dir_path_at ev (path_of cs) = Inr (Dir d a)" using snoc.IH cs(1) r Inr by blast
        from get_at_below_dir [OF assms(1) cs this] show ?thesis
          using r Inr Dir \<open>dir_path_at ev (path_of (cs @ [n])) = Inl e\<close> by fastforce
      next
        case NilDir
        then show ?thesis using snoc.IH cs(1) r Inr by blast
      qed (use \<open>dir_path_at ev (path_of (cs @ [n])) = Inl e\<close> ne r Inr in \<open>simp_all add: sms\<close>)
    qed
  qed
qed

text \<open>Looking up a name below a directory finds the directory's own entry of that name.\<close>

lemma get_at_child:
  assumes "flist_ok ev" "list_all plain_name cs" "plain_name n" "get_at ev (path_of cs) = ret (Inr (Dir d a))"
  shows "get_at ev (path_of (cs @ [n])) =
    ret (case (case find (\<lambda>i. ni_Name i = n) (dir_inodes d) of None \<Rightarrow> None | Some i \<Rightarrow> inode_meta ev i) of
           None \<Rightarrow> Inl MNotFound | Some m \<Rightarrow> Inr m)"
proof -
  have dp: "dir_path_at ev (path_of cs) = Inr (Dir d a)" using get_at_dir [OF assms(1,2)] assms(4) by blast
  note D = flist_dirD [OF assms(1,2) dp]
  have ne: "path_of (cs @ [n]) \<noteq> []" using path_of_ne [of "cs @ [n]"] assms(2,3) by simp
  note sms = get_at.simps [of ev "path_of (cs @ [n])"] parent_path_of [OF assms(2,3)] path_Base_snoc [OF assms(3)]
  show ?thesis
  proof (cases "dir_path_at ev (path_of (cs @ [n]))")
    case (Inl e)
    then show ?thesis
      using ne assms(4) find_child_inodes [OF D(1), of ev cs n] D(3) by (simp add: sms)
  next
    case (Inr m)
    obtain d2 a2 i k where i: "dir_path_at ev (path_of cs) = Inr (Dir d2 a2)" "i \<in> set (dir_inodes d2)"
      "ni_Name i = n" "ni_Attributes i = At_dir k"
      using flist_parentD [OF assms(1-3) Inr] by blast
    then have ds: "d2 = d" using dp by simp
    have "dir_at ev k = Inr m" using D(3) [of i] i Inr ds by (auto simp: subdir_at_def)
    then have "inode_meta ev i = Some m" using i(4) by (simp add: inode_meta_def)
    moreover have "find (\<lambda>i. ni_Name i = n) (dir_inodes d) = Some i"
    proof (rule find_Some_iff [THEN iffD2])
      obtain j where j: "j < length (dir_inodes d)" "dir_inodes d ! j = i" using i(2) ds by (auto simp: in_set_conv_nth)
      have "ni_Name (dir_inodes d ! j') \<noteq> n" if "j' < j" for j'
        using D(1) j i(3) that by (auto simp: distinct_conv_nth)
      then show "\<exists>j<length (dir_inodes d). ni_Name (dir_inodes d ! j) = n \<and> i = dir_inodes d ! j \<and>
          (\<forall>ja<j. ni_Name (dir_inodes d ! ja) \<noteq> n)"
        using j i(3) by blast
    qed
    ultimately show ?thesis using Inr by (simp add: sms)
  qed
qed

definition sql_view :: "('c, 'a) env \<Rightarrow> string \<Rightarrow> meta option go" where
  "sql_view ev p = do { r \<leftarrow> get_at ev p; ret (case r of Inl _ \<Rightarrow> None | Inr m \<Rightarrow> Some m) }"

lemma sql_view_Some: "sql_view ev p = ret (Some m) \<longleftrightarrow> get_at ev p = ret (Inr m)"
  by (cases "get_at ev p") (auto simp: sql_view_def split: sum.splits)


lemma sql_found_child:
  assumes "flist_ok ev" "list_all plain_name cs" "plain_name n" "get_at ev (path_of (cs @ [n])) = ret (Inr c)"
  shows "\<exists>d a i. get_at ev (path_of cs) = ret (Inr (Dir d a)) \<and> i \<in> set (dir_inodes d) \<and> ni_Name i = n \<and>
    inode_meta ev i = Some c"
proof -
  have ne: "path_of (cs @ [n]) \<noteq> []" using path_of_ne [of "cs @ [n]"] assms(2,3) by simp
  note sms = get_at.simps [of ev "path_of (cs @ [n])"] parent_path_of [OF assms(2,3)] path_Base_snoc [OF assms(3)]
  obtain r where r: "get_at ev (path_of cs) = ret r" using get_at_dir [OF assms(1,2)] by blast
  have "\<exists>d a. r = Inr (Dir d a)"
  proof (cases "dir_path_at ev (path_of (cs @ [n]))")
    case (Inr m)
    then obtain d a where "dir_path_at ev (path_of cs) = Inr (Dir d a)"
      using flist_parentD [OF assms(1-3)] by blast
    then have "get_at ev (path_of cs) = ret (Inr (Dir d a))" by (simp add: get_at.simps [of ev "path_of cs"])
    then show ?thesis using r by auto
  next
    case (Inl e)
    show ?thesis
    proof (cases r)
      case Inl
      then show ?thesis using assms(4) ne r \<open>dir_path_at ev (path_of (cs @ [n])) = Inl e\<close> by (simp add: sms)
    next
      case (Inr pm)
      then show ?thesis
        using assms(4) ne r get_at_dir [OF assms(1,2)] \<open>dir_path_at ev (path_of (cs @ [n])) = Inl e\<close>
        by (cases pm) (simp_all add: sms)
    qed
  qed
  then obtain d a where d: "get_at ev (path_of cs) = ret (Inr (Dir d a))" using r by blast
  then obtain i where i: "find (\<lambda>i. ni_Name i = n) (dir_inodes d) = Some i" "inode_meta ev i = Some c"
    using assms(4) get_at_child [OF assms(1-3) d] by (auto split: option.splits)
  then have "i \<in> set (dir_inodes d)" "ni_Name i = n" by (auto simp: find_Some_iff)
  with d i(2) show ?thesis by blast
qed

lemma map_filter_mem: "x \<in> set (List.map_filter f xs) \<longleftrightarrow> (\<exists>y\<in>set xs. f y = Some x)"
  by (force simp: List.map_filter_def)

lemma find_distinct:
  "distinct (map ni_Name is) \<Longrightarrow> i \<in> set is \<Longrightarrow> find (\<lambda>j. ni_Name j = ni_Name i) is = Some i"
proof (induction "is")
  case (Cons a "is")
  show ?case
  proof (cases "i = a")
    case False
    then have "i \<in> set is" using Cons.prems(2) by simp
    moreover from this have "ni_Name a \<noteq> ni_Name i" using Cons.prems(1) by (metis distinct.simps(2) image_eqI list.simps(9) set_map)
    ultimately show ?thesis using Cons by simp
  qed simp
qed simp

lemma sql_children:
  assumes "flist_ok ev" "list_all plain_name cs" "get_at ev (path_of cs) = ret (Inr m)"
  shows "(\<exists>ms. children_of ev m = ret ms \<and> (\<forall>c\<in>set ms. \<exists>n. meta_Name c = ret n \<and> plain_name n \<and>
      get_at ev (path_of (cs @ [n])) = ret (Inr c)))"
proof (cases m)
  case (Dir d a)
  have dp: "dir_path_at ev (path_of cs) = Inr (Dir d a)" using get_at_dir [OF assms(1,2)] assms(3) Dir by blast
  note D = flist_dirD [OF assms(1,2) dp]
  have "\<exists>n. meta_Name c = ret n \<and> plain_name n \<and> get_at ev (path_of (cs @ [n])) = ret (Inr c)"
    if "i \<in> set (dir_inodes d)" "inode_meta ev i = Some c" for i c
  proof -
    have "meta_Name c = ret (ni_Name i)" by (rule inode_meta_name [OF D(3) [OF that(1)] that(2)])
    moreover have "get_at ev (path_of (cs @ [ni_Name i])) = ret (Inr c)"
      using get_at_child [OF assms(1,2) D(2) [OF that(1)] assms(3) [unfolded Dir]]
        find_distinct [OF D(1) that(1)] that(2) by simp
    ultimately show ?thesis using D(2) [OF that(1)] by blast
  qed
  then show ?thesis using Dir by (auto simp: map_filter_mem)
next
  case NilDir
  then show ?thesis using get_at_dir [OF assms(1,2)] assms(3) by blast
qed simp_all

interpretation sq: meta_store "sql_view ev" meta_Name meta_IsDir "children_of ev" meta_Info "flist_ok ev"
  for ev :: "('c, 'a) env"
proof (unfold_locales, goal_cases)
  case (1 cs m)
  then show ?case by (cases m) auto
next
  case (2 cs)
  then show ?case using get_at_dir by (fastforce simp: sql_view_def)
next
  case (3 cs m)
  then show ?case using sql_children by (fastforce simp: sql_view_Some)
next
  case (4 cs m ms c n)
  then obtain n' where "meta_Name c = ret n'" "get_at ev (path_of (cs @ [n'])) = ret (Inr c)"
    using sql_children [of ev cs m] by (fastforce simp: sql_view_Some)
  then show ?case using 4 by (auto simp: sql_view_Some)
next
  case (5 cs n c')
  then obtain d a i where i: "get_at ev (path_of cs) = ret (Inr (Dir d a))" "i \<in> set (dir_inodes d)"
    "ni_Name i = n" "inode_meta ev i = Some c'"
    using sql_found_child by (fastforce simp: sql_view_Some)
  have "dir_path_at ev (path_of cs) = Inr (Dir d a)" using get_at_dir [of ev cs] 5 i(1) by blast
  then have "meta_Name c' = ret n" using inode_meta_name flist_dirD(3) 5 i by fastforce
  moreover have "c' \<in> set (List.map_filter (inode_meta ev) (dir_inodes d))" using i by (auto simp: map_filter_mem)
  ultimately show ?case using i(1) by (auto simp: sql_view_Some)
qed


section \<open>What a walk visits\<close>

definition found :: "('c, 'a) env \<Rightarrow> string list \<Rightarrow> bool" where
  "found ev cs \<longleftrightarrow> (\<exists>m. get_at ev (path_of cs) = ret (Inr m))"

definition subtree :: "('c, 'a) env \<Rightarrow> string list \<Rightarrow> string set" where
  "subtree ev cs = {path_of (cs @ ds) | ds. list_all plain_name ds \<and> found ev (cs @ ds)}"

definition log_path :: "string list walk_fn" where
  "log_path p m l = (None, l @ [p])"

lemma subtree_below: "x \<in> subtree ev (cs @ [n]) \<Longrightarrow> plain_name n \<Longrightarrow> x \<in> subtree ev cs"
  by (auto simp: subtree_def intro: exI [of _ "n # _"])

lemma subtree_root: "found ev cs \<Longrightarrow> path_of cs \<in> subtree ev cs"
  unfolding subtree_def by (intro CollectI exI [of _ "[]"]) simp

lemma found_parent:
  assumes "flist_ok ev" "list_all plain_name (cs @ ds)" "found ev (cs @ ds)"
  shows "found ev cs"
  using assms(2,3)
proof (induction ds rule: rev_induct)
  case (snoc d ds)
  obtain c where "get_at ev (path_of ((cs @ ds) @ [d])) = ret (Inr c)"
    using snoc.prems(2) by (auto simp: found_def)
  then have "found ev (cs @ ds)"
    using sql_found_child [OF assms(1), of "cs @ ds" d c] snoc.prems(1) by (auto simp: found_def)
  then show ?case using snoc.IH snoc.prems(1) by simp
qed simp

lemma subtree_split:
  assumes "flist_ok ev" "list_all plain_name cs" "get_at ev (path_of cs) = ret (Inr m)" "children_of ev m = ret ms"
  shows "subtree ev cs = insert (path_of cs) (\<Union>n\<in>{n. ret n \<in> meta_Name ` set ms}. subtree ev (cs @ [n]))"
proof (rule set_eqI)
  fix x
  show "x \<in> subtree ev cs \<longleftrightarrow> x \<in> insert (path_of cs) (\<Union>n\<in>{n. ret n \<in> meta_Name ` set ms}. subtree ev (cs @ [n]))"
  proof
    assume "x \<in> subtree ev cs"
    then obtain ds where ds: "x = path_of (cs @ ds)" "list_all plain_name ds" "found ev (cs @ ds)"
      by (auto simp: subtree_def)
    show "x \<in> insert (path_of cs) (\<Union>n\<in>{n. ret n \<in> meta_Name ` set ms}. subtree ev (cs @ [n]))"
    proof (cases ds)
      case (Cons n ds')
      have "found ev (cs @ [n])"
        using found_parent [OF assms(1), of "cs @ [n]" ds'] ds Cons assms(2) by simp
      then obtain c where c: "get_at ev (path_of (cs @ [n])) = ret (Inr c)" by (auto simp: found_def)
      obtain d a i where i: "get_at ev (path_of cs) = ret (Inr (Dir d a))" "i \<in> set (dir_inodes d)"
        "ni_Name i = n" "inode_meta ev i = Some c"
        using sql_found_child [OF assms(1,2) _ c] ds(2) Cons by auto
      have "dir_path_at ev (path_of cs) = Inr (Dir d a)" using get_at_dir [OF assms(1,2)] i(1) by blast
      then have "meta_Name c = ret n" using inode_meta_name flist_dirD(3) [OF assms(1,2)] i by fastforce
      moreover have "c \<in> set ms" using i assms(3,4) by (auto simp: map_filter_mem)
      ultimately have "ret n \<in> meta_Name ` set ms" by (metis imageI)
      moreover have "x \<in> subtree ev (cs @ [n])" using ds Cons by (auto simp: subtree_def)
      ultimately show ?thesis by blast
    qed (use ds in simp)
  next
    assume "x \<in> insert (path_of cs) (\<Union>n\<in>{n. ret n \<in> meta_Name ` set ms}. subtree ev (cs @ [n]))"
    then consider "x = path_of cs" | n c where "c \<in> set ms" "meta_Name c = ret n" "x \<in> subtree ev (cs @ [n])"
      by (auto; metis)
    then show "x \<in> subtree ev cs"
    proof cases
      case 1
      then show ?thesis using assms(3) subtree_root [of ev cs] by (auto simp: found_def)
    next
      case (2 n c)
      then have "plain_name n" using sql_children [OF assms(1-3)] assms(4) by fastforce
      then show ?thesis using 2(3) subtree_below by blast
    qed
  qed
qed

lemma subtree_disjoint:
  assumes "list_all plain_name cs" "plain_name n" "plain_name n'" "n \<noteq> n'"
  shows "subtree ev (cs @ [n]) \<inter> subtree ev (cs @ [n']) = {}" "path_of cs \<notin> subtree ev (cs @ [n])"
proof -
  have "path_of (cs @ n # ds) \<noteq> path_of (cs @ n' # ds')" if "list_all plain_name ds" "list_all plain_name ds'" for ds ds'
    using path_of_inject [of "cs @ n # ds" "cs @ n' # ds'"] assms that by auto
  then show "subtree ev (cs @ [n]) \<inter> subtree ev (cs @ [n']) = {}" by (auto simp: subtree_def)
  have "path_of cs \<noteq> path_of (cs @ n # ds)" if "list_all plain_name ds" for ds
    using path_of_inject [of cs "cs @ n # ds"] assms that by auto
  then show "path_of cs \<notin> subtree ev (cs @ [n])" by (auto simp: subtree_def)
qed

text \<open>A list of entries that are in place: children of the directory \<open>cs\<close>, found under their names.\<close>

definition in_place :: "('c, 'a) env \<Rightarrow> string list \<Rightarrow> meta list \<Rightarrow> bool" where
  "in_place ev cs ms \<longleftrightarrow> distinct (map meta_Name ms) \<and>
     (\<forall>c\<in>set ms. \<exists>n. meta_Name c = ret n \<and> plain_name n \<and> get_at ev (path_of (cs @ [n])) = ret (Inr c))"

definition below_depth :: "('c, 'a) env \<Rightarrow> string list \<Rightarrow> nat \<Rightarrow> bool" where
  "below_depth ev cs k \<longleftrightarrow> (\<forall>ds. list_all plain_name ds \<longrightarrow> found ev (cs @ ds) \<longrightarrow> length ds < k)"

lemma below_depth_child: "below_depth ev cs (Suc k) \<Longrightarrow> plain_name n \<Longrightarrow> below_depth ev (cs @ [n]) k"
  unfolding below_depth_def
proof (intro allI impI)
  fix ds
  assume *: "\<forall>ds. list_all plain_name ds \<longrightarrow> found ev (cs @ ds) \<longrightarrow> length ds < Suc k"
    and n: "plain_name n" and ds: "list_all plain_name ds" "found ev ((cs @ [n]) @ ds)"
  have "length (n # ds) < Suc k" using * [rule_format, of "n # ds"] n ds by simp
  then show "length ds < k" by simp
qed

lemma children_in_place:
  assumes "flist_ok ev" "list_all plain_name cs" "get_at ev (path_of cs) = ret (Inr m)" "children_of ev m = ret ms"
  shows "in_place ev cs ms"
proof (cases m)
  case (Dir d a)
  have dp: "dir_path_at ev (path_of cs) = Inr (Dir d a)" using get_at_dir [OF assms(1,2)] assms(3) Dir by blast
  note D = flist_dirD [OF assms(1,2) dp]
  have "distinct (map meta_Name (List.map_filter (inode_meta ev) is))"
    if "distinct (map ni_Name is)" "\<forall>i\<in>set is. subdir_at ev cs i" for "is"
    using that
  proof (induction "is")
    case (Cons i "is")
    show ?case
    proof (cases "inode_meta ev i")
      case None
      then show ?thesis using Cons by (simp add: List.map_filter_def)
    next
      case (Some m)
      then have m: "meta_Name m = ret (ni_Name i)" using inode_meta_name [of ev cs i m] Cons.prems(2) by simp
      have "meta_Name c \<noteq> ret (ni_Name i)" if c: "c \<in> set (List.map_filter (inode_meta ev) is)" for c
      proof -
        obtain j where j: "j \<in> set is" "inode_meta ev j = Some c" using c by (auto simp: map_filter_mem)
        then have "meta_Name c = ret (ni_Name j)" using inode_meta_name [of ev cs j c] Cons.prems(2) by simp
        then show ?thesis using Cons.prems(1) j(1) by (auto simp: image_iff)
      qed
      then have "meta_Name m \<notin> meta_Name ` set (List.map_filter (inode_meta ev) is)"
        unfolding m by (metis imageE)
      then show ?thesis using Cons Some by (simp add: List.map_filter_simps)
    qed
  qed (simp add: List.map_filter_def)
  then have "distinct (map meta_Name ms)" using D assms(4) Dir by auto
  then show ?thesis using sql_children [OF assms(1-3)] assms(4) by (auto simp: in_place_def)
qed (use assms in \<open>auto simp: in_place_def\<close>)

definition visits ::
  "('c \<Rightarrow> string \<rightharpoonup> meta) \<Rightarrow> ('a \<Rightarrow> string \<rightharpoonup> np_aci) \<Rightarrow> ('c, 'a) env \<Rightarrow> string list \<Rightarrow> string set
    \<Rightarrow> (merr option \<times> string list \<times> ('c, 'a) store) go option \<Rightarrow> bool" where
  "visits dirs acis ev log paths out \<longleftrightarrow>
     (\<exists>new st'. out = Some (ret (None, log @ new, st')) \<and> store_ok dirs acis ev st' \<and>
        set new = paths \<and> distinct new)"

text \<open>One child of a directory that is walked.\<close>

lemma walk_child_visits:
  assumes "flist_ok ev" "list_all plain_name (cs @ [n])" "meta_Name c = ret n" "get_at ev (path_of (cs @ [n])) = ret (Inr c)"
    and "store_ok dirs acis ev st"
    and "meta_IsDir c \<Longrightarrow>
      visits dirs acis ev log (subtree ev (cs @ [n])) (walkDir k ev log_path (path_of (cs @ [n])) c (log, st))"
  shows "\<exists>new st1. set new = subtree ev (cs @ [n]) \<and> distinct new \<and> store_ok dirs acis ev st1 \<and>
    walk_children k ev log_path (path_of cs) (c # ms) (log, st) =
      walk_children k ev log_path (path_of cs) ms (log @ new, st1)"
proof -
  have p: "path_Join [path_of cs, n] = path_of (cs @ [n])" using path_Join_snoc assms(2) by simp
  show ?thesis
  proof (cases "meta_IsDir c")
    case True
    then obtain new st1 where "walkDir k ev log_path (path_of (cs @ [n])) c (log, st) = Some (ret (None, log @ new, st1))"
      "store_ok dirs acis ev st1" "set new = subtree ev (cs @ [n])" "distinct new"
      using assms(6) by (auto simp: visits_def)
    then show ?thesis using True assms(3) p by (intro exI [of _ new] exI [of _ st1]) simp
  next
    case False
    then have "children_of ev c = ret []" by (cases c) simp_all
    then have "subtree ev (cs @ [n]) = {path_of (cs @ [n])}"
      using subtree_split [OF assms(1) _ assms(4)] assms(2) by simp
    then show ?thesis
      using False assms(3,5) p by (intro exI [of _ "[path_of (cs @ [n])]"] exI [of _ st]) (simp add: log_path_def)
  qed
qed

lemma walk_children_visits:
  assumes "flist_ok ev" "list_all plain_name cs" "in_place ev cs ms" "store_ok dirs acis ev st"
    and dirs: "\<And>c n st log. c \<in> set ms \<Longrightarrow> meta_Name c = ret n \<Longrightarrow> plain_name n \<Longrightarrow> meta_IsDir c \<Longrightarrow>
      get_at ev (path_of (cs @ [n])) = ret (Inr c) \<Longrightarrow> store_ok dirs acis ev st \<Longrightarrow>
      visits dirs acis ev log (subtree ev (cs @ [n])) (walkDir k ev log_path (path_of (cs @ [n])) c (log, st))"
  shows "visits dirs acis ev log (\<Union>n\<in>{n. ret n \<in> meta_Name ` set ms}. subtree ev (cs @ [n]))
    (walk_children k ev log_path (path_of cs) ms (log, st))"
  using assms(3,4) dirs
proof (induction ms arbitrary: log st)
  case Nil
  then show ?case by (simp add: visits_def)
next
  case (Cons c ms)
  obtain n where n: "meta_Name c = ret n" "plain_name n" "get_at ev (path_of (cs @ [n])) = ret (Inr c)"
    using Cons.prems(1) by (auto simp: in_place_def)
  have rest_place: "in_place ev cs ms" using Cons.prems(1) by (auto simp: in_place_def)
  have "visits dirs acis ev log (subtree ev (cs @ [n])) (walkDir k ev log_path (path_of (cs @ [n])) c (log, st))" if "meta_IsDir c"
    using Cons.prems(3) [of c n st log] n Cons.prems(2) that by simp
  then obtain new st1 where new: "set new = subtree ev (cs @ [n])" "distinct new" "store_ok dirs acis ev st1"
    "walk_children k ev log_path (path_of cs) (c # ms) (log, st) =
      walk_children k ev log_path (path_of cs) ms (log @ new, st1)"
    using walk_child_visits [OF assms(1) _ n(1,3) Cons.prems(2)] assms(2) n(2) by fastforce
  have "visits dirs acis ev (log @ new) (\<Union>n\<in>{n. ret n \<in> meta_Name ` set ms}. subtree ev (cs @ [n]))
      (walk_children k ev log_path (path_of cs) ms (log @ new, st1))"
    using Cons.IH [OF rest_place new(3)] Cons.prems(3) by simp
  then obtain more st2 where more: "walk_children k ev log_path (path_of cs) ms (log @ new, st1) =
      Some (ret (None, (log @ new) @ more, st2))" "store_ok dirs acis ev st2" "distinct more"
    "set more = (\<Union>n\<in>{n. ret n \<in> meta_Name ` set ms}. subtree ev (cs @ [n]))"
    by (auto simp: visits_def)
  have "subtree ev (cs @ [n]) \<inter> subtree ev (cs @ [n']) = {}" if "ret n' \<in> meta_Name ` set ms" for n'
  proof (rule subtree_disjoint(1) [OF assms(2) n(2)])
    show "plain_name n'" using that rest_place by (fastforce simp: in_place_def)
    show "n \<noteq> n'" using that Cons.prems(1) n(1) by (auto simp: in_place_def)
  qed
  then have "set new \<inter> set more = {}" using new(1) more(4) by blast
  moreover have "{n'. ret n' \<in> meta_Name ` set (c # ms)} = insert n {n'. ret n' \<in> meta_Name ` set ms}"
    using n(1) by auto
  ultimately show ?case
    using new more unfolding visits_def by (intro exI [of _ "new @ more"] exI [of _ st2]) simp
qed

lemma walkDir_visits:
  assumes "env_ok dirs acis ev" "flist_ok ev"
  shows "list_all plain_name cs \<Longrightarrow> get_at ev (path_of cs) = ret (Inr m) \<Longrightarrow> below_depth ev cs k \<Longrightarrow>
    store_ok dirs acis ev st \<Longrightarrow>
    visits dirs acis ev log (subtree ev cs) (walkDir k ev log_path (path_of cs) m (log, st))"
proof (induction k arbitrary: cs m st log)
  case 0
  then have "found ev cs" by (auto simp: found_def)
  then show ?case using "0.prems"(3) [unfolded below_depth_def, rule_format, of "[]"] by simp
next
  case (Suc k)
  obtain ms where ms: "children_of ev m = ret ms" using sql_children [OF assms(2) Suc.prems(1,2)] by blast
  obtain st1 where st1: "meta_Children ev m st = ret (ms, st1)" "store_ok dirs acis ev st1"
    using meta_Children_ok [OF assms(1) Suc.prems(4), of m] ms by auto
  have place: "in_place ev cs ms" by (rule children_in_place [OF assms(2) Suc.prems(1,2) ms])
  have "visits dirs acis ev (log @ [path_of cs]) (\<Union>n\<in>{n. ret n \<in> meta_Name ` set ms}. subtree ev (cs @ [n]))
      (walk_children k ev log_path (path_of cs) ms (log @ [path_of cs], st1))"
  proof (rule walk_children_visits [OF assms(2) Suc.prems(1) place st1(2)])
    fix c n st log
    assume "plain_name n" "get_at ev (path_of (cs @ [n])) = ret (Inr c)" "store_ok dirs acis ev st"
    then show "visits dirs acis ev log (subtree ev (cs @ [n])) (walkDir k ev log_path (path_of (cs @ [n])) c (log, st))"
      using Suc.IH [of "cs @ [n]" c] Suc.prems(1) below_depth_child [OF Suc.prems(3)] by simp
  qed
  then obtain more st2 where more: "walk_children k ev log_path (path_of cs) ms (log @ [path_of cs], st1) =
      Some (ret (None, (log @ [path_of cs]) @ more, st2))" "store_ok dirs acis ev st2" "distinct more"
    "set more = (\<Union>n\<in>{n. ret n \<in> meta_Name ` set ms}. subtree ev (cs @ [n]))"
    by (auto simp: visits_def)
  have "path_of cs \<notin> subtree ev (cs @ [n])" if "ret n \<in> meta_Name ` set ms" for n
  proof -
    have "plain_name n" using that place by (fastforce simp: in_place_def)
    then have "plain_name (n @ ''x'')" by (auto simp: plain_name_def)
    with \<open>plain_name n\<close> show ?thesis using subtree_disjoint(2) [OF Suc.prems(1), of n "n @ ''x''"] by simp
  qed
  then have "path_of cs \<notin> set more" using more(4) by blast
  moreover have "subtree ev cs = insert (path_of cs) (set more)"
    using subtree_split [OF assms(2) Suc.prems(1,2) ms] more(4) by simp
  moreover have "walkDir (Suc k) ev log_path (path_of cs) m (log, st) =
      walk_children k ev log_path (path_of cs) ms (log @ [path_of cs], st1)"
    using st1(1) by (simp add: log_path_def)
  ultimately show ?case
    using more unfolding visits_def by (intro exI [of _ "path_of cs # more"] exI [of _ st2]) simp
qed


section \<open>Properties\<close>

lemma sql_Get_ok:
  assumes "env_ok dirs acis ev" "store_ok dirs acis ev st"
  shows "\<exists>st'. sql_Get ev p st = map_option (\<lambda>m. (m, st')) (sql_view ev p) \<and> store_ok dirs acis ev st'"
proof -
  obtain st' where "sql_get ev p st = map_option (\<lambda>r. (r, st')) (get_at ev p)" "store_ok dirs acis ev st'"
    using sql_get_ok [OF assms] by blast
  then show ?thesis by (cases "get_at ev p") (auto simp: sql_Get_def sql_view_def)
qed

lemma sql_Gets_ok:
  assumes "env_ok dirs acis ev" "store_ok dirs acis ev st"
  shows "\<exists>st'. sql_Gets ev ps st = map_option (\<lambda>ms. (ms, st')) (those (map (sql_view ev) ps)) \<and> store_ok dirs acis ev st'"
  using assms(2)
proof (induction ps arbitrary: st)
  case (Cons p ps)
  obtain st1 where 1: "sql_Get ev p st = map_option (\<lambda>m. (m, st1)) (sql_view ev p)" "store_ok dirs acis ev st1"
    using sql_Get_ok [OF assms(1) Cons.prems] by blast
  obtain st2 where 2: "sql_Gets ev ps st1 = map_option (\<lambda>ms. (ms, st2)) (those (map (sql_view ev) ps))"
    "store_ok dirs acis ev st2" using Cons.IH [OF 1(2)] by blast
  show ?case
  proof (cases "sql_view ev p")
    case None
    then show ?thesis using 1 Cons.prems by auto
  next
    case (Some m)
    then show ?thesis using 1 2 by (cases "those (map (sql_view ev) ps)") auto
  qed
qed simp

text \<open>A flist for the witnesses: the root holds a file and a directory, which holds a link. The caches
  keep the two newest entries.\<close>

definition tiny_lru :: "((string \<times> 'v) list, 'v) lru_api" where
  "tiny_lru = \<lparr>lru_Get = (\<lambda>l k. (map_of l k, l)), lru_Add = (\<lambda>l k v. take 2 ((k, v) # l))\<rparr>"

definition demo_inode :: "string \<Rightarrow> np_attributes \<Rightarrow> np_inode" where
  "demo_inode n at =
     \<lparr>ni_Name = n, ni_Size = 1, ni_Attributes = at, ni_Aclkey = ''acl'', ni_ModificationTime = 7, ni_CreationTime = 7\<rparr>"

definition demo_file :: np_file where
  "demo_file = \<lparr>nf_BlockSize = 1, nf_HasBlocks = True, nf_Blocks = [\<lparr>nb_hash = [1], nb_key = [2]\<rparr>]\<rparr>"

definition demo_dir :: "string \<Rightarrow> np_inode list \<Rightarrow> np_dir" where
  "demo_dir n is =
     \<lparr>nd_Name = n, nd_HasContents = True, nd_Contents = Inr is, nd_Aclkey = Inr ''acl'',
      nd_ModificationTime = 7, nd_CreationTime = 7\<rparr>"

definition demo_root :: np_dir where
  "demo_root = demo_dir [] [demo_inode ''f'' (At_file demo_file), demo_inode ''d'' (At_dir ''01'')]"

definition demo_sub :: np_dir where
  "demo_sub = demo_dir ''d'' [demo_inode ''l'' (At_link ''../f'')]"

definition demo_aci :: np_aci where
  "demo_aci = \<lparr>na_Uname = ''bob'', na_Gname = ''staff'', na_Mode = 0xFFFF, na_uid_bits = 0, na_gid_bits = 0xFFFFFFFFFFFFFFFA\<rparr>"

definition demo_env :: "((string \<times> meta) list, (string \<times> np_aci) list) env" where
  "demo_env =
     \<lparr>ev_query = (\<lambda>k. if k = ''00'' then Inr [0] else if k = ''01'' then Inr [1]
        else if k = ''acl'' then Inr [2] else Inl MNoRows),
      ev_blake = (\<lambda>p. if p = [] then [0] else if p = ''d'' then [1] else [2]),
      ev_dir = (\<lambda>b. if b = [0] then Inr demo_root else if b = [1] then Inr demo_sub else Inl (MErr ''bad'')),
      ev_aci = (\<lambda>b. if b = [2] then Inr demo_aci else Inl (MErr ''bad'')),
      ev_user = (\<lambda>n. if n = ''bob'' then Some ''42'' else None), ev_group = (\<lambda>n. None),
      ev_dirs = tiny_lru, ev_acis = tiny_lru\<rparr>"

lemma tiny_lru_laws: "lru_laws (tiny_lru :: ((string \<times> 'v) list, 'v) lru_api) map_of"
proof -
  have "map_of (take n xs) \<subseteq>\<^sub>m map_of xs" for n and xs :: "(string \<times> 'v) list"
    by (metis append_take_drop_id map_of_append map_le_map_add)
  then have "map_of (take 2 ((k, v) # l)) \<subseteq>\<^sub>m map_of ((k, v) # l)" for k :: string and v :: 'v and l .
  then have "map_of (take 2 ((k, v) # l)) \<subseteq>\<^sub>m (map_of l)(k \<mapsto> v)" for k :: string and v :: 'v and l
    unfolding map_of.simps fst_conv snd_conv .
  then show ?thesis unfolding lru_laws_def tiny_lru_def by simp
qed

lemma demo_env_ok: "env_ok map_of map_of demo_env"
  by (simp add: env_ok_def demo_env_def tiny_lru_laws)

lemma demo_keys: "show_hex [0] = ''00''" "show_hex [1] = ''01''" "show_hex [2] = ''02''"
  by code_simp+

definition demo_access :: access where
  "demo_access = \<lparr>ac_UID = 42, ac_GID = 5, ac_Mode = 511\<rparr>"

lemma demo_access_at: "access_at demo_env ''acl'' = (demo_access, None)"
proof -
  have "parse_int32 ''42'' = Some 42"
    by (simp add: parse_int32_def read_digits_def is_digit_def)
  then show ?thesis
    by (simp add: access_at_def aci_at_def demo_env_def uid_of_def gid_of_def id_or_default_def demo_aci_def
        aci_Uid_def aci_Gid_def demo_access_def)
qed

lemma demo_dirs: "dir_at demo_env ''00'' = Inr (Dir demo_root demo_access)"
  "dir_at demo_env ''01'' = Inr (Dir demo_sub demo_access)" "dir_at demo_env ''02'' = Inl MNoRows"
proof -
  have q: "ev_query demo_env ''00'' = Inr [0]" "ev_query demo_env ''01'' = Inr [1]" "ev_query demo_env ''02'' = Inl MNoRows"
    "ev_dir demo_env [0] = Inr demo_root" "ev_dir demo_env [1] = Inr demo_sub"
    by (simp_all add: demo_env_def)
  have "nd_Aclkey demo_root = Inr ''acl''" "nd_Aclkey demo_sub = Inr ''acl''"
    by (simp_all add: demo_root_def demo_sub_def demo_dir_def)
  then show "dir_at demo_env ''00'' = Inr (Dir demo_root demo_access)"
    "dir_at demo_env ''01'' = Inr (Dir demo_sub demo_access)" "dir_at demo_env ''02'' = Inl MNoRows"
    by (simp_all add: dir_at_def q demo_access_at)
qed

lemma demo_dir_path: "dir_path_at demo_env p =
    (if p = [] \<or> p = ''.'' then Inr (Dir demo_root demo_access)
     else if p = ''d'' then Inr (Dir demo_sub demo_access) else Inl MNoRows)"
proof -
  have "sql_hash demo_env q = (if q = [] then ''00'' else if q = ''d'' then ''01'' else ''02'')" for q
    by (simp add: sql_hash_def demo_env_def demo_keys del: show_hex_Cons)
  then show ?thesis by (simp add: dir_path_at_def demo_dirs)
qed

lemma plain_names: "plain_name ''d''" "plain_name ''f''" "plain_name ''l''"
  by (simp_all add: plain_name_def)

lemma path_of_is_d: "list_all plain_name cs \<Longrightarrow> path_of cs = ''d'' \<Longrightarrow> cs = [''d'']"
  using path_of_inject [of cs "[''d'']"] by (simp add: plain_names path_of_def)

lemma path_of_is_Nil: "list_all plain_name cs \<Longrightarrow> path_of cs = [] \<Longrightarrow> cs = []"
  using path_of_ne by blast

lemma demo_cases:
  assumes "list_all plain_name cs" "dir_path_at demo_env (path_of cs) = Inr m"
  shows "cs = [] \<and> m = Dir demo_root demo_access \<or> cs = [''d''] \<and> m = Dir demo_sub demo_access"
  using assms path_of_is_d [OF assms(1)] path_of_is_Nil [OF assms(1)] path_of_not_dot [OF assms(1)]
  by (auto simp: demo_dir_path split: if_splits)

lemma demo_inodes: "dir_inodes demo_root = [demo_inode ''f'' (At_file demo_file), demo_inode ''d'' (At_dir ''01'')]"
  "dir_inodes demo_sub = [demo_inode ''l'' (At_link ''../f'')]" "nd_Name demo_sub = ''d''"
  by (simp_all add: dir_inodes_def demo_root_def demo_sub_def demo_dir_def)

lemma demo_inode_sels [simp]: "ni_Name (demo_inode n at) = n" "ni_Attributes (demo_inode n at) = at"
  by (simp_all add: demo_inode_def)

lemma demo_flist_ok: "flist_ok demo_env"
  unfolding flist_ok_def
proof (intro conjI allI impI)
  fix cs d a
  assume cs: "list_all plain_name cs" and d: "dir_path_at demo_env (path_of cs) = Inr (Dir d a)"
  show "distinct (map ni_Name (dir_inodes d))"
    using demo_cases [OF cs d] by (auto simp: demo_inodes)
  show "\<forall>i\<in>set (dir_inodes d). plain_name (ni_Name i) \<and> subdir_at demo_env cs i"
    using demo_cases [OF cs d]
    by (auto simp: demo_inodes plain_names subdir_at_def demo_dirs path_of_def demo_dir_path)
next
  fix cs n d' a'
  assume cs: "list_all plain_name cs" "plain_name n" and d: "dir_path_at demo_env (path_of (cs @ [n])) = Inr (Dir d' a')"
  then have "cs @ [n] = [''d'']" using demo_cases [OF _ d] by auto
  then have "cs = []" "n = ''d''" by simp_all
  then show "\<exists>d a. dir_path_at demo_env (path_of cs) = Inr (Dir d a) \<and>
      (\<exists>i\<in>set (dir_inodes d). ni_Name i = n \<and> (\<exists>k. ni_Attributes i = At_dir k))"
    by (simp add: demo_dir_path demo_inodes)
qed

lemma demo_get_root: "get_at demo_env [] = ret (Inr (Dir demo_root demo_access))"
  by (simp add: get_at.simps demo_dir_path)

definition demo_store :: "((string \<times> meta) list, (string \<times> np_aci) list) store" where
  "demo_store = \<lparr>st_cache = [], st_acl = [], st_users = Map.empty, st_groups = Map.empty\<rparr>"

lemma demo_store_ok: "store_ok map_of map_of demo_env demo_store"
  by (simp add: store_ok_def demo_store_def)

lemma demo_NewStore: "NewStore (\<lambda>f. Inr demo_env) [] [] ''x'' = Inr (demo_env, demo_store)"
  by (simp add: NewStore_def demo_store_def)

text \<open>C21. The caches are invisible: whatever the LRU caches evict, and whatever was looked up before,
  a sequence of lookups on a newly opened store returns what the same lookups return without any
  cache, one by one; it panics just when one of them would.\<close>

theorem sql_caches_invisible:
  assumes "NewStore open_db dirs0 acis0 p = Inr (ev, st)"
    and "lru_laws (ev_dirs ev) dirs" "lru_laws (ev_acis ev) acis" "dirs dirs0 = Map.empty" "acis acis0 = Map.empty"
  shows "\<exists>st'. sql_Gets ev ps st = map_option (\<lambda>ms. (ms, st')) (those (map (sql_view ev) ps))"
proof -
  have "st = \<lparr>st_cache = dirs0, st_acl = acis0, st_users = Map.empty, st_groups = Map.empty\<rparr>"
    using assms(1) by (auto simp: NewStore_def split: sum.splits)
  then have "store_ok dirs acis ev st" using assms(4,5) by (simp add: store_ok_def)
  moreover have "env_ok dirs acis ev" using assms(2,3) by (simp add: env_ok_def)
  ultimately show ?thesis using sql_Gets_ok by blast
qed

theorem sql_caches_invisible_witness:
  "\<exists>st'. sql_Gets demo_env [[], ''d'', []] demo_store =
    ret ([Some (Dir demo_root demo_access), Some (Dir demo_sub demo_access), Some (Dir demo_root demo_access)], st')"
proof -
  have laws: "lru_laws (ev_dirs demo_env) map_of" "lru_laws (ev_acis demo_env) map_of"
    using demo_env_ok by (simp_all add: env_ok_def)
  have v: "sql_view demo_env [] = ret (Some (Dir demo_root demo_access))"
    "sql_view demo_env ''d'' = ret (Some (Dir demo_sub demo_access))"
    by (simp_all add: sql_view_def get_at.simps demo_dir_path)
  have e: "map_of [] = Map.empty" by simp
  show ?thesis using sql_caches_invisible [OF demo_NewStore laws e e, of "[[], ''d'', []]"] by (simp add: v)
qed

text \<open>Listing and lookup agree on the flist itself, without any cache.\<close>

lemma view_matches_listing:
  assumes "flist_ok ev" "list_all plain_name cs"
  shows "\<exists>r. sql_view ev (path_of cs) = ret r \<and>
    (case r of
       None \<Rightarrow> \<forall>n. plain_name n \<longrightarrow> sql_view ev (path_of (cs @ [n])) = ret None
     | Some m \<Rightarrow> \<exists>ms. children_of ev m = ret ms \<and>
         {n. \<exists>c\<in>set ms. meta_Name c = ret n} =
           {n. plain_name n \<and> (\<exists>c. sql_view ev (path_of (cs @ [n])) = ret (Some c))} \<and>
         (\<forall>c\<in>set ms. \<exists>n. meta_Name c = ret n \<and> sql_view ev (path_of (cs @ [n])) = ret (Some c)))"
proof -
  obtain r where r: "sql_view ev (path_of cs) = ret r" using sq.get_total assms by blast
  show ?thesis
  proof (cases r)
    case None
    then show ?thesis using r sq.nothing_below [OF assms] by auto
  next
    case (Some m)
    then have m: "sql_view ev (path_of cs) = ret (Some m)" using r by simp
    obtain ms where "children_of ev m = ret ms"
      "{n. \<exists>c\<in>set ms. meta_Name c = ret n} =
        {n. plain_name n \<and> (\<exists>c. sql_view ev (path_of (cs @ [n])) = ret (Some c))}"
      using sq.listing [OF assms m] by blast
    moreover have "\<forall>c\<in>set ms. \<exists>n. meta_Name c = ret n \<and> sql_view ev (path_of (cs @ [n])) = ret (Some c)"
      using sql_children [OF assms m [unfolded sql_view_Some]] \<open>children_of ev m = ret ms\<close>
      by (fastforce simp: sql_view_Some)
    ultimately show ?thesis using r Some by auto
  qed
qed

text \<open>What a lookup returns in a state of the caches is what the flist holds.\<close>

lemma sql_Get_iff_view:
  assumes "env_ok dirs acis ev" "store_ok dirs acis ev st"
  shows "(\<exists>st'. sql_Get ev p st = ret (r, st')) \<longleftrightarrow> sql_view ev p = ret r"
    and "sql_Get ev p st = panic \<longleftrightarrow> sql_view ev p = panic"
  using sql_Get_ok [OF assms, of p] by (cases "sql_view ev p"; auto)+

text \<open>C8. Listing and lookup agree on a well-formed flist, whatever the caches hold: after a path was
  looked up and its children were listed, the names listed are exactly the plain names that the next
  lookup finds below the path, each entry is found as the very object listed, and nothing is found
  below a file or a missing path; no lookup panics, and the caches stay right.\<close>

theorem sql_lookup_matches_listing:
  assumes "env_ok dirs acis ev" "store_ok dirs acis ev st" "flist_ok ev" "list_all plain_name cs"
  shows "\<exists>r st1. sql_Get ev (path_of cs) st = ret (r, st1) \<and> store_ok dirs acis ev st1 \<and>
    (case r of
       None \<Rightarrow> \<forall>n. plain_name n \<longrightarrow> (\<exists>st2. sql_Get ev (path_of (cs @ [n])) st1 = ret (None, st2))
     | Some m \<Rightarrow> \<exists>ms st2. meta_Children ev m st1 = ret (ms, st2) \<and> store_ok dirs acis ev st2 \<and>
         {n. \<exists>c\<in>set ms. meta_Name c = ret n} =
           {n. plain_name n \<and> (\<exists>c st3. sql_Get ev (path_of (cs @ [n])) st2 = ret (Some c, st3))} \<and>
         (\<forall>c\<in>set ms. \<exists>n st3. meta_Name c = ret n \<and> sql_Get ev (path_of (cs @ [n])) st2 = ret (Some c, st3)))"
proof -
  note found = sql_Get_iff_view(1) [OF assms(1)]
  obtain r where r: "sql_view ev (path_of cs) = ret r" and rest: "case r of
       None \<Rightarrow> \<forall>n. plain_name n \<longrightarrow> sql_view ev (path_of (cs @ [n])) = ret None
     | Some m \<Rightarrow> \<exists>ms. children_of ev m = ret ms \<and>
         {n. \<exists>c\<in>set ms. meta_Name c = ret n} =
           {n. plain_name n \<and> (\<exists>c. sql_view ev (path_of (cs @ [n])) = ret (Some c))} \<and>
         (\<forall>c\<in>set ms. \<exists>n. meta_Name c = ret n \<and> sql_view ev (path_of (cs @ [n])) = ret (Some c))"
    using view_matches_listing [OF assms(3,4)] by blast
  obtain st1 where st1: "sql_Get ev (path_of cs) st = ret (r, st1)" "store_ok dirs acis ev st1"
    using sql_Get_ok [OF assms(1,2), of "path_of cs"] r by auto
  show ?thesis
  proof (cases r)
    case None
    then show ?thesis using st1 rest found [OF st1(2)] by auto
  next
    case (Some m)
    then obtain ms where ms: "children_of ev m = ret ms"
      "{n. \<exists>c\<in>set ms. meta_Name c = ret n} =
        {n. plain_name n \<and> (\<exists>c. sql_view ev (path_of (cs @ [n])) = ret (Some c))}"
      "\<forall>c\<in>set ms. \<exists>n. meta_Name c = ret n \<and> sql_view ev (path_of (cs @ [n])) = ret (Some c)"
      using rest by auto
    obtain st2 where st2: "meta_Children ev m st1 = ret (ms, st2)" "store_ok dirs acis ev st2"
      using meta_Children_ok [OF assms(1) st1(2), of m] ms(1) by auto
    show ?thesis using st1 st2 ms(2,3) Some unfolding found [OF st2(2), symmetric] by auto
  qed
qed

theorem sql_lookup_matches_listing_witness:
  "\<exists>m ms st1 st2 c st3. sql_Get demo_env [] demo_store = ret (Some m, st1) \<and>
    meta_Children demo_env m st1 = ret (ms, st2) \<and> sql_Get demo_env ''f'' st2 = ret (Some c, st3)"
proof -
  obtain st0 where "sql_Get demo_env [] demo_store = ret (Some (Dir demo_root demo_access), st0)"
    using sql_Get_ok [OF demo_env_ok demo_store_ok, of "[]"] by (auto simp: sql_view_def demo_get_root)
  then obtain ms st1 st2 where st: "sql_Get demo_env [] demo_store = ret (Some (Dir demo_root demo_access), st1)"
    "store_ok map_of map_of demo_env st1" "meta_Children demo_env (Dir demo_root demo_access) st1 = ret (ms, st2)"
    "{n. \<exists>c\<in>set ms. meta_Name c = ret n} =
      {n. plain_name n \<and> (\<exists>c st3. sql_Get demo_env (path_of ([] @ [n])) st2 = ret (Some c, st3))}"
    using sql_lookup_matches_listing [OF demo_env_ok demo_store_ok demo_flist_ok, of "[]"] by auto
  have ms: "children_of demo_env (Dir demo_root demo_access) = ret ms"
    using meta_Children_ok [OF demo_env_ok st(2), of "Dir demo_root demo_access"] st(3) by auto
  have "\<exists>c\<in>set ms. meta_Name c = ret ''f''"
    using ms by (auto simp: demo_inodes List.map_filter_def inode_meta_def split: sum.splits)
  then have "''f'' \<in> {n. \<exists>c\<in>set ms. meta_Name c = ret n}" by blast
  then have "\<exists>c st3. sql_Get demo_env (path_of ([] @ [''f''])) st2 = ret (Some c, st3)" unfolding st(4) by blast
  then show ?thesis using st(1,3) by (auto simp: path_of_def)
qed

text \<open>C32. A walk from a directory of a well-formed flist, with a callback that never objects, visits
  every entry below the directory exactly once, the directory included, and nothing else; it ends
  without an error for every amount of fuel above the depth of the tree, caches or not.\<close>

theorem sql_walk_complete:
  assumes "env_ok dirs acis ev" "store_ok dirs acis ev st" "flist_ok ev" "list_all plain_name cs"
    and "get_at ev (path_of cs) = ret (Inr (Dir d a))"
    and "\<forall>ds. list_all plain_name ds \<longrightarrow> found ev (cs @ ds) \<longrightarrow> length ds < k"
  shows "\<exists>log st'. sql_Walk k ev (path_of cs) log_path ([], st) = Some (ret (None, log, st')) \<and>
    distinct log \<and> set log = {path_of (cs @ ds) | ds. list_all plain_name ds \<and> found ev (cs @ ds)}"
proof -
  obtain st1 where st1: "sql_get ev (path_of cs) st = ret (Inr (Dir d a), st1)" "store_ok dirs acis ev st1"
    using sql_get_ok [OF assms(1,2), of "path_of cs"] assms(5) by auto
  have "below_depth ev cs k" using assms(6) by (simp add: below_depth_def)
  from walkDir_visits [OF assms(1,3,4,5) this st1(2), of "[]"] show ?thesis
    using st1(1) by (auto simp: visits_def sql_Walk_def subtree_def)
qed

lemma demo_found:
  assumes "list_all plain_name ds" "found demo_env ds"
  shows "ds \<in> {[], [''f''], [''d''], [''d'', ''l'']}"
  using assms
proof (induction ds rule: rev_induct)
  case (snoc n ds)
  obtain c where c: "get_at demo_env (path_of (ds @ [n])) = ret (Inr c)" using snoc.prems(2) by (auto simp: found_def)
  have p: "list_all plain_name ds" "plain_name n" using snoc.prems(1) by simp_all
  obtain d a i where i: "get_at demo_env (path_of ds) = ret (Inr (Dir d a))" "i \<in> set (dir_inodes d)" "ni_Name i = n"
    using sql_found_child [OF demo_flist_ok p c] by blast
  then have "dir_path_at demo_env (path_of ds) = Inr (Dir d a)" using get_at_dir [OF demo_flist_ok p(1)] by blast
  then show ?case using demo_cases [OF p(1)] i by (auto simp: demo_inodes)
qed simp

theorem sql_walk_complete_witness:
  "\<exists>log st'. sql_Walk 3 demo_env [] log_path ([], demo_store) = Some (ret (None, log, st')) \<and> ''f'' \<in> set log"
proof -
  have f: "\<forall>ds. list_all plain_name ds \<longrightarrow> found demo_env ([] @ ds) \<longrightarrow> length ds < 3"
    using demo_found by fastforce
  have "found demo_env [''f'']"
    using get_at_child [OF demo_flist_ok, of "[]" "''f''"] demo_get_root
    by (simp add: plain_names found_def demo_inodes inode_meta_def path_of_def)
  then have in_set: "''f'' \<in> {path_of ([] @ ds) | ds. list_all plain_name ds \<and> found demo_env ([] @ ds)}"
    by (intro CollectI exI [of _ "[''f'']"]) (simp add: path_of_def plain_names)
  have g: "get_at demo_env (path_of []) = ret (Inr (Dir demo_root demo_access))" using demo_get_root by simp
  show ?thesis
    using sql_walk_complete [OF demo_env_ok demo_store_ok demo_flist_ok _ g f] in_set by auto
qed



text \<open>A damaged flist crashes lookups: when a directory lists a subdirectory whose row cannot be
  read, looking up any name of that directory that is no directory itself and is not listed before
  the damaged entry panics, because the unreadable entry is kept as a nil pointer.\<close>

theorem broken_subdir_panics:
  assumes "env_ok dirs acis ev" "store_ok dirs acis ev st"
    and "dir_path_at ev (path_of cs) = Inr (Dir d a)" "list_all plain_name cs" "plain_name n"
    and "dir_inodes d = before @ i # after" "ni_Attributes i = At_dir k" "dir_at ev k = Inl err"
    and "\<forall>j\<in>set before. ni_Name j \<noteq> n \<and> (\<forall>k. ni_Attributes j \<noteq> At_dir k)"
    and "dir_path_at ev (path_of (cs @ [n])) = Inl err'"
  shows "sql_Get ev (path_of (cs @ [n])) st = panic"
proof -
  note p = assms(3-)
  have ne: "path_of (cs @ [n]) \<noteq> []" using path_of_ne [of "cs @ [n]"] p(2,3) by simp
  have nil: "inode_meta ev i = Some NilDir" using p(5,6) by (simp add: inode_meta_def)
  have "find_child n (List.map_filter (inode_meta ev) (js @ i # after)) = panic"
    if "\<forall>j\<in>set js. ni_Name j \<noteq> n \<and> (\<forall>k. ni_Attributes j \<noteq> At_dir k)" for js
    using that
  proof (induction js)
    case Nil
    then show ?case by (simp add: List.map_filter_def nil)
  next
    case (Cons j js)
    then have "\<forall>m. inode_meta ev j = Some m \<longrightarrow> meta_Name m = ret (ni_Name j)"
      by (auto simp: inode_meta_def split: np_attributes.splits)
    then show ?case using Cons by (cases "inode_meta ev j") (auto simp: List.map_filter_def)
  qed
  then have panics: "find_child n (List.map_filter (inode_meta ev) (dir_inodes d)) = panic"
    using p(4,7) by simp
  have "get_at ev (path_of cs) = ret (Inr (Dir d a))" using p(1) by (simp add: get_at.simps [of ev "path_of cs"])
  then have "get_at ev (path_of (cs @ [n])) = panic"
    using p(8) ne panics
    by (simp add: get_at.simps [of ev "path_of (cs @ [n])"] parent_path_of [OF p(2,3)] path_Base_snoc [OF p(3)])
  then show ?thesis using sql_Get_iff_view(2) [OF assms(1,2)] by (simp add: sql_view_def)
qed

text \<open>Special files are left out of every directory.\<close>

lemma special_never_listed:
  "children_of ev m = ret ms \<Longrightarrow> Special i t d a \<notin> set ms"
proof (cases m)
  case (Dir d' a')
  assume ms: "children_of ev m = ret ms"
  have "inode_meta ev j \<noteq> Some (Special i t d a)" for j
  proof (cases "ni_Attributes j")
    case (At_dir k)
    then show ?thesis by (cases "dir_at ev k") (auto simp: inode_meta_def dest: dir_at_Dir)
  qed (simp_all add: inode_meta_def)
  then show ?thesis using ms Dir by (auto simp: map_filter_mem)
qed auto

definition broken_env :: "((string \<times> meta) list, (string \<times> np_aci) list) env" where
  "broken_env = demo_env\<lparr>ev_query := (\<lambda>k. if k = ''00'' then Inr [0] else Inl MNoRows)\<rparr>"

theorem broken_subdir_panics_witness: "sql_Get broken_env (path_of ([] @ [''zz''])) demo_store = panic"
proof -
  have ok: "env_ok map_of map_of broken_env" "store_ok map_of map_of broken_env demo_store"
    by (simp_all add: env_ok_def store_ok_def broken_env_def demo_env_def demo_store_def tiny_lru_laws)
  have q: "ev_query broken_env ''00'' = Inr [0]" "ev_query broken_env ''acl'' = Inl MNoRows"
    "ev_query broken_env ''01'' = Inl MNoRows" "ev_query broken_env ''02'' = Inl MNoRows"
    "ev_dir broken_env [0] = Inr demo_root"
    by (simp_all add: broken_env_def demo_env_def)
  have "nd_Aclkey demo_root = Inr ''acl''" by (simp add: demo_root_def demo_dir_def)
  then have d: "dir_at broken_env ''00'' = Inr (Dir demo_root DefaultAccess)" "dir_at broken_env ''01'' = Inl MNoRows"
    "dir_at broken_env ''02'' = Inl MNoRows"
    by (simp_all add: dir_at_def access_at_def aci_at_def q)
  have "sql_hash broken_env [] = ''00''" "sql_hash broken_env ''zz'' = ''02''"
    by (simp_all add: sql_hash_def broken_env_def demo_env_def demo_keys del: show_hex_Cons)
  then have p: "dir_path_at broken_env (path_of []) = Inr (Dir demo_root DefaultAccess)"
    "dir_path_at broken_env (path_of ([] @ [''zz''])) = Inl MNoRows"
    by (simp_all add: dir_path_at_def d path_of_def)
  have i: "dir_inodes demo_root = [demo_inode ''f'' (At_file demo_file)] @ demo_inode ''d'' (At_dir ''01'') # []"
    "ni_Attributes (demo_inode ''d'' (At_dir ''01'')) = At_dir ''01''"
    by (simp_all add: demo_inodes)
  have n: "list_all plain_name []" "plain_name ''zz''" by (simp_all add: plain_name_def)
  have b: "\<forall>j\<in>set [demo_inode ''f'' (At_file demo_file)]. ni_Name j \<noteq> ''zz'' \<and> (\<forall>k. ni_Attributes j \<noteq> At_dir k)"
    by simp
  show ?thesis by (rule broken_subdir_panics [OF ok p(1) n i d(2) b p(2)])
qed

end
