(* ===== verification/Layers.thy ===== *)
theory Layers
  imports SqlStore
begin

text \<open>
  Layered metadata stores: meta/layer.go. A store is its \<open>Get\<close>; what a plain store returns is a
  \<open>Plain\<close> node, a directory merged from several layers is a \<open>MergedDir\<close> over the directory on top.
  The methods of the plain objects are the fields of \<open>meta_ops\<close>. The Go map that merges children
  is an association list with one entry per name; its iteration order, which Go leaves open, is the
  order of first insertion here, and every statement is about the set of children.
\<close>

section \<open>Merged directories\<close>

record 'm meta_ops =
  mo_Name :: "'m \<Rightarrow> string go"
  mo_IsDir :: "'m \<Rightarrow> bool"
  mo_Children :: "'m \<Rightarrow> 'm list go"
  mo_Info :: "'m \<Rightarrow> info go"
  mo_Blocks :: "'m \<Rightarrow> block_info list"
  mo_ID :: "'m \<Rightarrow> string"

datatype 'm node = Plain 'm | MergedDir "'m node" "'m node list"

text \<open>The embedded interface of a \<open>mergedDir\<close>: all methods but \<open>Children\<close> are those of the top.\<close>

fun node_leaf :: "'m node \<Rightarrow> 'm" where
  "node_leaf (Plain m) = m"
| "node_leaf (MergedDir t lower) = node_leaf t"

definition node_Name :: "'m meta_ops \<Rightarrow> 'm node \<Rightarrow> string go" where
  "node_Name ops x = mo_Name ops (node_leaf x)"

definition node_IsDir :: "'m meta_ops \<Rightarrow> 'm node \<Rightarrow> bool" where
  "node_IsDir ops x = mo_IsDir ops (node_leaf x)"

definition node_Info :: "'m meta_ops \<Rightarrow> 'm node \<Rightarrow> info go" where
  "node_Info ops x = mo_Info ops (node_leaf x)"

fun set_put :: "string \<Rightarrow> 'a \<Rightarrow> (string \<times> 'a) list \<Rightarrow> (string \<times> 'a) list" where
  "set_put n c [] = [(n, c)]"
| "set_put n c ((k, d) # s) = (if k = n then (k, c) # s else (k, d) # set_put n c s)"

fun put_top :: "'m meta_ops \<Rightarrow> 'm node list \<Rightarrow> (string \<times> 'm node) list \<Rightarrow> (string \<times> 'm node) list go" where
  "put_top ops [] s = ret s"
| "put_top ops (child # children) s =
     do { n \<leftarrow> node_Name ops child; put_top ops children (set_put n child s) }"

fun put_lower :: "'m meta_ops \<Rightarrow> 'm node list \<Rightarrow> (string \<times> 'm node) list \<Rightarrow> (string \<times> 'm node) list go" where
  "put_lower ops [] s = ret s"
| "put_lower ops (child # children) s =
     do {
       n \<leftarrow> node_Name ops child;
       put_lower ops children (case map_of s n of None \<Rightarrow> set_put n child s | Some _ \<Rightarrow> s)
     }"

fun node_Children :: "'m meta_ops \<Rightarrow> 'm node \<Rightarrow> 'm node list go"
and lower_children :: "'m meta_ops \<Rightarrow> 'm node list \<Rightarrow> (string \<times> 'm node) list \<Rightarrow> (string \<times> 'm node) list go" where
  "node_Children ops (Plain m) = map_option (map Plain) (mo_Children ops m)"
| "node_Children ops (MergedDir t lower) =
     do {
       children \<leftarrow> node_Children ops t;
       s \<leftarrow> put_top ops children [];
       s' \<leftarrow> lower_children ops lower s;
       ret (map snd s')
     }"
| "lower_children ops [] s = ret s"
| "lower_children ops (l # lower) s =
     do {
       children \<leftarrow> node_Children ops l;
       s' \<leftarrow> put_lower ops children s;
       lower_children ops lower s'
     }"

section \<open>Layered stores\<close>

type_synonym 'm layer = "string \<Rightarrow> 'm node option go"

fun get_lower :: "'m layer list \<Rightarrow> string \<Rightarrow> 'm node list go" where
  "get_lower [] p = ret []"
| "get_lower (store # beneath) p =
     do {
       m \<leftarrow> store p;
       rest \<leftarrow> get_lower beneath p;
       ret (case m of None \<Rightarrow> rest | Some l \<Rightarrow> l # rest)
     }"

definition getMerge :: "string \<Rightarrow> 'm node \<Rightarrow> 'm layer list \<Rightarrow> 'm node go" where
  "getMerge p t beneath = do { lower \<leftarrow> get_lower beneath p; ret (MergedDir t lower) }"

fun stores_Get :: "'m meta_ops \<Rightarrow> 'm layer list \<Rightarrow> 'm layer" where
  "stores_Get ops [] p = ret None"
| "stores_Get ops (store # beneath) p =
     do {
       m \<leftarrow> store p;
       case m of
         None \<Rightarrow> stores_Get ops beneath p
       | Some x \<Rightarrow>
           (if \<not> node_IsDir ops x then ret (Some x)
            else if beneath = [] then ret (Some x)
            else map_option Some (getMerge p x beneath))
     }"

text \<open>\<open>Layered(store...)\<close>: the last store on top, nil stores left out; a single argument is returned
  as it is.\<close>

definition Layered :: "'m meta_ops \<Rightarrow> 'm layer option list \<Rightarrow> 'm layer option" where
  "Layered ops store =
     (if length store = 1 then store ! 0
      else Some (stores_Get ops (List.map_filter id (rev store))))"

text \<open>\<open>stores.Close\<close> closes every layer and drops their errors.\<close>

definition stores_Close :: "('s \<Rightarrow> merr option \<times> 's) list \<Rightarrow> 's \<Rightarrow> merr option \<times> 's" where
  "stores_Close closes w = (None, fold (\<lambda>close w. snd (close w)) closes w)"

section \<open>The merged set of children\<close>

lemma set_put_keys: "fst ` set (set_put n c s) = insert n (fst ` set s)"
proof (induction s)
  case (Cons a s)
  obtain k d where a: "a = (k, d)" by fastforce
  show ?case
  proof (cases "k = n")
    case False
    then show ?thesis using Cons a by (simp add: insert_commute)
  qed (simp add: a)
qed simp

lemma set_put_mem: "(k, x) \<in> set (set_put n c s) \<Longrightarrow> k = n \<and> x = c \<or> (k, x) \<in> set s"
  by (induction s) (auto split: if_splits)

lemma names_insert:
  "node_Name ops c = ret n \<Longrightarrow>
    {k. \<exists>x\<in>set (c # cs). node_Name ops x = ret k} = insert n {k. \<exists>x\<in>set cs. node_Name ops x = ret k}"
  by auto

lemma put_top_ok:
  assumes "put_top ops cs s = ret s'"
  shows "(\<forall>n c. (n, c) \<in> set s' \<longrightarrow> (n, c) \<in> set s \<or> (c \<in> set cs \<and> node_Name ops c = ret n)) \<and>
    fst ` set s' = fst ` set s \<union> {n. \<exists>c\<in>set cs. node_Name ops c = ret n}"
  using assms
proof (induction cs arbitrary: s)
  case (Cons c cs)
  then obtain n where n: "node_Name ops c = ret n" "put_top ops cs (set_put n c s) = ret s'"
    by (auto simp: go_bind_eq_ret)
  note IH = Cons.IH [OF n(2)]
  have "(k, x) \<in> set s \<or> (x \<in> set (c # cs) \<and> node_Name ops x = ret k)" if "(k, x) \<in> set s'" for k x
    using IH that n(1) set_put_mem [of k x n c s] by auto
  moreover have "fst ` set s' = fst ` set s \<union> {k. \<exists>x\<in>set (c # cs). node_Name ops x = ret k}"
    unfolding names_insert [OF n(1)] using IH set_put_keys [of n c s] by simp
  ultimately show ?case by blast
qed simp

lemma put_lower_ok:
  assumes "put_lower ops cs s = ret s'"
  shows "(\<forall>n c. (n, c) \<in> set s' \<longrightarrow> (n, c) \<in> set s \<or> (n \<notin> fst ` set s \<and> c \<in> set cs \<and> node_Name ops c = ret n)) \<and>
    fst ` set s' = fst ` set s \<union> {n. \<exists>c\<in>set cs. node_Name ops c = ret n}"
  using assms
proof (induction cs arbitrary: s)
  case (Cons c cs)
  then obtain n where n: "node_Name ops c = ret n"
    "put_lower ops cs (case map_of s n of None \<Rightarrow> set_put n c s | Some _ \<Rightarrow> s) = ret s'"
    by (auto simp: go_bind_eq_ret)
  show ?case
  proof (cases "map_of s n")
    case None
    then have new: "n \<notin> fst ` set s" by (simp add: map_of_eq_None_iff)
    have "put_lower ops cs (set_put n c s) = ret s'" using n(2) None by simp
    note IH = Cons.IH [OF this]
    have "(k, x) \<in> set s \<or> (k \<notin> fst ` set s \<and> x \<in> set (c # cs) \<and> node_Name ops x = ret k)"
      if "(k, x) \<in> set s'" for k x
      using IH that n(1) set_put_mem [of k x n c s] new unfolding set_put_keys by auto
    moreover have "fst ` set s' = fst ` set s \<union> {k. \<exists>x\<in>set (c # cs). node_Name ops x = ret k}"
      unfolding names_insert [OF n(1)] using IH set_put_keys [of n c s] by simp
    ultimately show ?thesis by blast
  next
    case (Some d)
    then have old: "n \<in> fst ` set s" by (metis domI dom_map_of_conv_image_fst)
    have "put_lower ops cs s = ret s'" using n(2) Some by simp
    note IH = Cons.IH [OF this]
    have "(k, x) \<in> set s \<or> (k \<notin> fst ` set s \<and> x \<in> set (c # cs) \<and> node_Name ops x = ret k)"
      if "(k, x) \<in> set s'" for k x
      using IH that by auto
    moreover have "fst ` set s' = fst ` set s \<union> {k. \<exists>x\<in>set (c # cs). node_Name ops x = ret k}"
      unfolding names_insert [OF n(1)] using IH old by auto
    ultimately show ?thesis by blast
  qed
qed simp

text \<open>\<open>listing ops s p n c\<close>: layer \<open>s\<close> has a directory at \<open>p\<close> and \<open>c\<close> is its entry \<open>n\<close>.\<close>

definition listing :: "'m meta_ops \<Rightarrow> 'm layer \<Rightarrow> string \<Rightarrow> string \<Rightarrow> 'm node \<Rightarrow> bool" where
  "listing ops s p n c \<longleftrightarrow>
     (\<exists>m ms. s p = ret (Some m) \<and> node_Children ops m = ret ms \<and> c \<in> set ms \<and> node_Name ops c = ret n)"

text \<open>\<open>first_listing ops ss p n c\<close>: \<open>c\<close> is the entry of the topmost layer of \<open>ss\<close> that lists \<open>n\<close> at \<open>p\<close>.\<close>

definition first_listing :: "'m meta_ops \<Rightarrow> 'm layer list \<Rightarrow> string \<Rightarrow> string \<Rightarrow> 'm node \<Rightarrow> bool" where
  "first_listing ops ss p n c \<longleftrightarrow>
     (\<exists>pre s post. ss = pre @ s # post \<and> listing ops s p n c \<and> (\<forall>t\<in>set pre. \<forall>d. \<not> listing ops t p n d))"

lemma first_listing_Cons:
  "first_listing ops (s # ss) p n c \<longleftrightarrow>
    listing ops s p n c \<or> ((\<forall>d. \<not> listing ops s p n d) \<and> first_listing ops ss p n c)"
proof
  assume "first_listing ops (s # ss) p n c"
  then obtain pre t post where *: "s # ss = pre @ t # post" "listing ops t p n c"
    "\<forall>t\<in>set pre. \<forall>d. \<not> listing ops t p n d" by (auto simp: first_listing_def)
  then show "listing ops s p n c \<or> ((\<forall>d. \<not> listing ops s p n d) \<and> first_listing ops ss p n c)"
    by (cases pre) (auto simp: first_listing_def)
next
  assume "listing ops s p n c \<or> ((\<forall>d. \<not> listing ops s p n d) \<and> first_listing ops ss p n c)"
  then show "first_listing ops (s # ss) p n c"
  proof
    assume "listing ops s p n c"
    then show ?thesis unfolding first_listing_def by (intro exI [of _ "[]"]) simp
  next
    assume a: "(\<forall>d. \<not> listing ops s p n d) \<and> first_listing ops ss p n c"
    then obtain pre t post where "ss = pre @ t # post" "listing ops t p n c"
      "\<forall>t\<in>set pre. \<forall>d. \<not> listing ops t p n d" by (auto simp: first_listing_def)
    then show ?thesis unfolding first_listing_def using a
      by (intro exI [of _ "s # pre"] exI [of _ t] exI [of _ post]) simp
  qed
qed

lemma lower_children_ok:
  assumes "get_lower ss p = ret lower" "lower_children ops lower s = ret s'"
  shows "(\<forall>n c. (n, c) \<in> set s' \<longrightarrow> (n, c) \<in> set s \<or> (n \<notin> fst ` set s \<and> first_listing ops ss p n c)) \<and>
    fst ` set s' = fst ` set s \<union> {n. \<exists>t\<in>set ss. \<exists>c. listing ops t p n c}"
  using assms
proof (induction ss arbitrary: lower s)
  case Nil
  then show ?case by auto
next
  case (Cons t ss)
  then obtain m rest where m: "t p = ret m" "get_lower ss p = ret rest"
    "lower = (case m of None \<Rightarrow> rest | Some l \<Rightarrow> l # rest)"
    by (auto simp: go_bind_eq_ret)
  show ?case
  proof (cases m)
    case None
    then have t: "listing ops t p n c = False" for n c using m(1) None by (simp add: listing_def)
    then have te: "Ex (listing ops t p n) = False" for n by simp
    have "first_listing ops (t # ss) p n c = first_listing ops ss p n c" for n c
      by (simp add: first_listing_Cons t)
    then show ?thesis
      using Cons.IH [OF m(2), of s] m(3) None Cons.prems(2) by (simp add: te)
  next
    case (Some l)
    then obtain cs s1 where s1: "node_Children ops l = ret cs" "put_lower ops cs s = ret s1"
      "lower_children ops rest s1 = ret s'"
      using Cons.prems(2) m(3) by (auto simp: go_bind_eq_ret)
    have lt: "listing ops t p n c \<longleftrightarrow> c \<in> set cs \<and> node_Name ops c = ret n" for n c
      using m(1) Some s1(1) by (simp add: listing_def)
    note P = put_lower_ok [OF s1(2)]
    note IH = Cons.IH [OF m(2) s1(3)]
    have "(n, c) \<in> set s \<or> (n \<notin> fst ` set s \<and> first_listing ops (t # ss) p n c)" if x: "(n, c) \<in> set s'" for n c
    proof (cases "(n, c) \<in> set s1")
      case True
      then have "(n, c) \<in> set s \<or> (n \<notin> fst ` set s \<and> c \<in> set cs \<and> node_Name ops c = ret n)"
        using P by blast
      then show ?thesis by (auto simp: first_listing_Cons lt)
    next
      case False
      then have "n \<notin> fst ` set s1" "first_listing ops ss p n c" using IH x by blast+
      then show ?thesis using P by (auto simp: first_listing_Cons lt)
    qed
    moreover have "fst ` set s' = fst ` set s \<union> {n. \<exists>t\<in>set (t # ss). \<exists>c. listing ops t p n c}"
    proof -
      have "{n. \<exists>u\<in>set (t # ss). \<exists>c. listing ops u p n c} =
          {n. \<exists>c\<in>set cs. node_Name ops c = ret n} \<union> {n. \<exists>u\<in>set ss. \<exists>c. listing ops u p n c}"
        by (auto simp: lt)
      then show ?thesis using P IH by (simp add: Un_assoc)
    qed
    ultimately show ?thesis by blast
  qed
qed

text \<open>The children of a merged directory: one per name, from the topmost layer that has the name.\<close>

lemma merged_children:
  assumes "s p = ret (Some t)" "get_lower beneath p = ret lower" "node_Children ops (MergedDir t lower) = ret ms"
  shows "(\<forall>c\<in>set ms. \<exists>n. node_Name ops c = ret n \<and> first_listing ops (s # beneath) p n c) \<and>
    {n. \<exists>c\<in>set ms. node_Name ops c = ret n} = {n. \<exists>u\<in>set (s # beneath). \<exists>c. listing ops u p n c}"
proof -
  obtain cs s1 s2 where *: "node_Children ops t = ret cs" "put_top ops cs [] = ret s1"
    "lower_children ops lower s1 = ret s2" "ms = map snd s2"
    using assms(3) by (auto simp: go_bind_eq_ret)
  have ls: "listing ops s p n c \<longleftrightarrow> c \<in> set cs \<and> node_Name ops c = ret n" for n c
    using assms(1) *(1) by (simp add: listing_def)
  note P = put_top_ok [OF *(2)]
  note L = lower_children_ok [OF assms(2) *(3)]
  have each: "node_Name ops c = ret n \<and> first_listing ops (s # beneath) p n c" if x: "(n, c) \<in> set s2" for n c
  proof (cases "(n, c) \<in> set s1")
    case True
    then have "c \<in> set cs \<and> node_Name ops c = ret n" using P by fastforce
    then show ?thesis by (simp add: first_listing_Cons ls)
  next
    case False
    then have f: "n \<notin> fst ` set s1" "first_listing ops beneath p n c" using L x by blast+
    then have "node_Name ops c = ret n" by (auto simp: first_listing_def listing_def)
    moreover have "\<forall>d. \<not> listing ops s p n d" using P f(1) by (auto simp: ls)
    ultimately show ?thesis using f(2) by (simp add: first_listing_Cons)
  qed
  have "{n. \<exists>c\<in>set ms. node_Name ops c = ret n} = fst ` set s2"
    using each *(4) by (force simp: image_iff)
  also have "\<dots> = {n. \<exists>u\<in>set (s # beneath). \<exists>c. listing ops u p n c}"
    using P L by (auto simp: ls)
  finally show ?thesis using each *(4) by fastforce
qed


section \<open>Layers are a store\<close>

text \<open>What the layers need of each store, and the shadowing they need to be absent: where the
  topmost layer that has a path has a file, no layer below may have a directory.\<close>

definition layer_ok :: "'m meta_ops \<Rightarrow> 'm layer \<Rightarrow> bool" where
  "layer_ok ops s \<longleftrightarrow> meta_store s (node_Name ops) (node_IsDir ops) (node_Children ops) (node_Info ops) True"

definition no_shadow :: "'m meta_ops \<Rightarrow> 'm layer list \<Rightarrow> bool" where
  "no_shadow ops ss \<longleftrightarrow>
     (\<forall>cs pre s post m t m'. list_all plain_name cs \<longrightarrow> ss = pre @ s # post \<longrightarrow>
        (\<forall>u\<in>set pre. u (path_of cs) = ret None) \<longrightarrow> s (path_of cs) = ret (Some m) \<longrightarrow> \<not> node_IsDir ops m \<longrightarrow>
        t \<in> set post \<longrightarrow> t (path_of cs) = ret (Some m') \<longrightarrow> \<not> node_IsDir ops m')"

lemma layer_okD:
  assumes "layer_ok ops s" "list_all plain_name cs"
  shows layer_total: "\<exists>r. s (path_of cs) = ret r"
    and layer_children: "s (path_of cs) = ret (Some m) \<Longrightarrow>
      \<exists>ms. node_Children ops m = ret ms \<and> (\<forall>c\<in>set ms. \<exists>n. node_Name ops c = ret n \<and> plain_name n)"
    and layer_child: "listing ops s (path_of cs) n c \<Longrightarrow>
      plain_name n \<and> (\<exists>c'. s (path_of (cs @ [n])) = ret (Some c') \<and> node_Info ops c' = node_Info ops c \<and>
        node_IsDir ops c' = node_IsDir ops c)"
    and layer_found: "plain_name n \<Longrightarrow> s (path_of (cs @ [n])) = ret (Some c') \<Longrightarrow> \<exists>c. listing ops s (path_of cs) n c"
proof -
  have law: "meta_store s (node_Name ops) (node_IsDir ops) (node_Children ops) (node_Info ops) True"
    using assms(1) by (simp add: layer_ok_def)
  show "\<exists>r. s (path_of cs) = ret r" using meta_store.get_total [OF law TrueI assms(2)] .
  show ch: "\<exists>ms. node_Children ops m = ret ms \<and> (\<forall>c\<in>set ms. \<exists>n. node_Name ops c = ret n \<and> plain_name n)"
    if "s (path_of cs) = ret (Some m)" for m
    using meta_store.children_total [OF law TrueI assms(2) that] .
  show "plain_name n \<and> (\<exists>c'. s (path_of (cs @ [n])) = ret (Some c') \<and> node_Info ops c' = node_Info ops c \<and>
      node_IsDir ops c' = node_IsDir ops c)" if l: "listing ops s (path_of cs) n c"
  proof -
    obtain m ms where m: "s (path_of cs) = ret (Some m)" "node_Children ops m = ret ms" "c \<in> set ms" "node_Name ops c = ret n"
      using l by (auto simp: listing_def)
    have "plain_name n" using ch [OF m(1)] m by fastforce
    moreover have "\<exists>c'. s (path_of (cs @ [n])) = ret (Some c') \<and> node_Info ops c' = node_Info ops c \<and>
        node_IsDir ops c' = node_IsDir ops c"
      using meta_store.child_found [OF law TrueI assms(2) m] .
    ultimately show ?thesis by blast
  qed
  show "\<exists>c. listing ops s (path_of cs) n c"
    if n: "plain_name n" "s (path_of (cs @ [n])) = ret (Some c')"
  proof -
    obtain m ms c where "s (path_of cs) = ret (Some m)" "node_Children ops m = ret ms" "c \<in> set ms" "node_Name ops c = ret n"
      using meta_store.found_child [OF law TrueI assms(2) n] by blast
    then show ?thesis by (auto simp: listing_def)
  qed
qed

lemma layer_file:
  "layer_ok ops s \<Longrightarrow> list_all plain_name cs \<Longrightarrow> s (path_of cs) = ret (Some m) \<Longrightarrow> \<not> node_IsDir ops m \<Longrightarrow>
    node_Children ops m = ret []"
  unfolding layer_ok_def by (rule meta_store.file_children [OF _ TrueI])

lemma layer_below_None:
  assumes "layer_ok ops s" "list_all plain_name cs" "plain_name n" "\<forall>c. \<not> listing ops s (path_of cs) n c"
  shows "s (path_of (cs @ [n])) = ret None"
proof -
  have "list_all plain_name (cs @ [n])" using assms(2,3) by simp
  then obtain r where "s (path_of (cs @ [n])) = ret r" using layer_total [OF assms(1)] by blast
  then show ?thesis using layer_found [OF assms(1-3)] assms(4) by (cases r) auto
qed

lemma get_lower_total:
  assumes "\<forall>s\<in>set ss. \<exists>r. s p = ret r"
  shows "\<exists>lower. get_lower ss p = ret lower \<and> (\<forall>l\<in>set lower. \<exists>s\<in>set ss. s p = ret (Some l))"
  using assms
proof (induction ss)
  case (Cons s ss)
  then obtain r lower where "s p = ret r" "get_lower ss p = ret lower" "\<forall>l\<in>set lower. \<exists>s\<in>set ss. s p = ret (Some l)"
    by auto
  then show ?case by (cases r) auto
qed simp

lemma stores_skip: "\<forall>s\<in>set pre. s p = ret None \<Longrightarrow> stores_Get ops (pre @ ss) p = stores_Get ops ss p"
  by (induction pre) auto

text \<open>Where a layered lookup comes from: the topmost layer that has the path.\<close>

definition topmost :: "'m layer list \<Rightarrow> string \<Rightarrow> 'm layer \<Rightarrow> 'm layer list \<Rightarrow> 'm node \<Rightarrow> bool" where
  "topmost ss p s post m \<longleftrightarrow>
     (\<exists>pre. ss = pre @ s # post \<and> (\<forall>t\<in>set pre. t p = ret None) \<and> s p = ret (Some m))"

lemma topmost_cases:
  assumes "\<forall>s\<in>set ss. \<exists>r. s p = ret r"
  shows "(\<forall>s\<in>set ss. s p = ret None) \<or> (\<exists>s post m. topmost ss p s post m)"
  using assms
proof (induction ss)
  case (Cons s ss)
  then obtain r where r: "s p = ret r" by auto
  show ?case
  proof (cases r)
    case (Some m)
    then have "topmost (s # ss) p s ss m" unfolding topmost_def using r by (intro exI [of _ "[]"]) simp
    then show ?thesis by blast
  next
    case None
    have "(\<forall>s\<in>set ss. s p = ret None) \<or> (\<exists>s post m. topmost ss p s post m)" using Cons by simp
    then show ?thesis
    proof
      assume "\<exists>s post m. topmost ss p s post m"
      then obtain t post m pre where "ss = pre @ t # post" "\<forall>t\<in>set pre. t p = ret None" "t p = ret (Some m)"
        by (auto simp: topmost_def)
      then have "topmost (s # ss) p t post m" unfolding topmost_def using r None by (intro exI [of _ "s # pre"]) simp
      then show ?thesis by blast
    qed (use r None in simp)
  qed
qed simp

lemma stores_Get_topmost:
  assumes "\<forall>s\<in>set ss. \<exists>r. s p = ret r" "topmost ss p s post m"
  shows "\<exists>x. stores_Get ops ss p = ret (Some x) \<and> node_leaf x = node_leaf m \<and>
    (if \<not> node_IsDir ops m \<or> post = [] then x = m else \<exists>lower. get_lower post p = ret lower \<and> x = MergedDir m lower)"
proof -
  obtain pre where pre: "ss = pre @ s # post" "\<forall>t\<in>set pre. t p = ret None" "s p = ret (Some m)"
    using assms(2) by (auto simp: topmost_def)
  obtain lower where "get_lower post p = ret lower" using get_lower_total [of post p] assms(1) pre(1) by auto
  then show ?thesis using pre by (auto simp: stores_skip getMerge_def)
qed

lemma lower_children_total:
  assumes "\<forall>l\<in>set lower. \<exists>ms. node_Children ops l = ret ms \<and> (\<forall>c\<in>set ms. node_Name ops c \<noteq> panic)"
  shows "\<exists>s'. lower_children ops lower s = ret s'"
proof -
  have put: "\<exists>s'. put_lower ops cs s = ret s'" if "\<forall>c\<in>set cs. node_Name ops c \<noteq> panic" for cs s
    using that by (induction cs arbitrary: s) auto
  show ?thesis
    using assms
  proof (induction lower arbitrary: s)
    case (Cons l lower)
    then obtain ms where ms: "node_Children ops l = ret ms" "\<forall>c\<in>set ms. node_Name ops c \<noteq> panic" by auto
    obtain s1 where "put_lower ops ms s = ret s1" using put [OF ms(2)] by blast
    then show ?case using Cons ms(1) by simp
  qed simp
qed

lemma put_top_total: "\<forall>c\<in>set cs. node_Name ops c \<noteq> panic \<Longrightarrow> \<exists>s'. put_top ops cs s = ret s'"
  by (induction cs arbitrary: s) auto

text \<open>The children a layered lookup shows: one per name that some layer from the topmost on lists.\<close>

lemma layered_children:
  assumes "list_all (layer_ok ops) ss" "list_all plain_name cs"
    and "topmost ss (path_of cs) s post m" "stores_Get ops ss (path_of cs) = ret (Some x)" "node_IsDir ops m"
  shows "\<exists>ms. node_Children ops x = ret ms \<and>
    (\<forall>c\<in>set ms. \<exists>n. node_Name ops c = ret n \<and> first_listing ops (s # post) (path_of cs) n c) \<and>
    {n. \<exists>c\<in>set ms. node_Name ops c = ret n} = {n. \<exists>u\<in>set (s # post). \<exists>c. listing ops u (path_of cs) n c}"
proof -
  let ?p = "path_of cs"
  obtain pre where pre: "ss = pre @ s # post" "s ?p = ret (Some m)"
    using assms(3) by (auto simp: topmost_def)
  have ok: "layer_ok ops s" "\<forall>t\<in>set post. layer_ok ops t" using assms(1) pre(1) by (simp_all add: list_all_iff)
  have total: "\<forall>s\<in>set ss. \<exists>r. s ?p = ret r" using assms(1,2) layer_total by (fastforce simp: list_all_iff)
  obtain ms where ms: "node_Children ops m = ret ms" "\<forall>c\<in>set ms. \<exists>n. node_Name ops c = ret n \<and> plain_name n"
    using layer_children [OF ok(1) assms(2) pre(2)] by blast
  show ?thesis
  proof (cases "post = []")
    case True
    then have "x = m" using stores_Get_topmost [OF total assms(3), of ops] assms(4) by auto
    moreover have "listing ops s ?p n c \<longleftrightarrow> c \<in> set ms \<and> node_Name ops c = ret n" for n c
      using pre(2) ms(1) by (simp add: listing_def)
    ultimately show ?thesis using ms True by (auto simp: first_listing_Cons)
  next
    case False
    then obtain lower where lower: "get_lower post ?p = ret lower" "x = MergedDir m lower"
      using stores_Get_topmost [OF total assms(3), of ops] assms(4,5) by auto
    have "\<exists>ms. node_Children ops l = ret ms \<and> (\<forall>c\<in>set ms. node_Name ops c \<noteq> panic)" if l: "l \<in> set lower" for l
    proof -
      have "\<forall>s\<in>set post. \<exists>r. s ?p = ret r" using total pre(1) by simp
      then obtain t where t: "t \<in> set post" "t ?p = ret (Some l)"
        using get_lower_total [of post ?p] lower(1) l by auto
      then obtain ls where "node_Children ops l = ret ls" "\<forall>c\<in>set ls. \<exists>n. node_Name ops c = ret n \<and> plain_name n"
        using layer_children [OF ok(2) [rule_format, OF t(1)] assms(2) t(2)] by blast
      then show ?thesis by fastforce
    qed
    then have lt: "\<exists>s'. lower_children ops lower s = ret s'" for s
      by (intro lower_children_total ballI)
    have "\<forall>c\<in>set ms. node_Name ops c \<noteq> panic" using ms(2) by fastforce
    then obtain s1 where s1: "put_top ops ms [] = ret s1" using put_top_total by blast
    obtain s2 where "lower_children ops lower s1 = ret s2" using lt by blast
    then have "\<exists>ms. node_Children ops x = ret ms" using ms(1) s1 lower(2) by simp
    then obtain ks where "node_Children ops x = ret ks" by blast
    then show ?thesis
      using merged_children [where s = s and p = ?p and t = m and beneath = post, OF pre(2) lower(1)] lower(2) by simp
  qed
qed

lemma listing_needs: "listing ops s p n c \<Longrightarrow> s p \<noteq> ret None"
  by (auto simp: listing_def)

text \<open>What a name listed first in some layer is found as, below the directory.\<close>

lemma stores_Get_first:
  assumes "list_all (layer_ok ops) ss" "list_all plain_name cs" "first_listing ops ss (path_of cs) n c"
  shows "plain_name n \<and> (\<exists>c'. stores_Get ops ss (path_of (cs @ [n])) = ret (Some c') \<and>
    node_Info ops c' = node_Info ops c \<and> node_IsDir ops c' = node_IsDir ops c)"
proof -
  obtain pre s post where *: "ss = pre @ s # post" "listing ops s (path_of cs) n c"
    "\<forall>t\<in>set pre. \<forall>d. \<not> listing ops t (path_of cs) n d" using assms(3) by (auto simp: first_listing_def)
  have ok: "layer_ok ops s" "\<forall>t\<in>set pre. layer_ok ops t" using assms(1) *(1) by (simp_all add: list_all_iff)
  obtain c' where c': "plain_name n" "s (path_of (cs @ [n])) = ret (Some c')" "node_Info ops c' = node_Info ops c"
    "node_IsDir ops c' = node_IsDir ops c" using layer_child [OF ok(1) assms(2) *(2)] by blast
  have plain: "list_all plain_name (cs @ [n])" using assms(2) c'(1) by simp
  have total: "\<forall>s\<in>set ss. \<exists>r. s (path_of (cs @ [n])) = ret r"
    using assms(1) layer_total [OF _ plain] by (fastforce simp: list_all_iff)
  have "\<forall>t\<in>set pre. t (path_of (cs @ [n])) = ret None"
    using layer_below_None [OF _ assms(2) c'(1)] ok(2) *(3) by blast
  then have "topmost ss (path_of (cs @ [n])) s post c'" using *(1) c'(2) by (auto simp: topmost_def)
  then obtain x where "stores_Get ops ss (path_of (cs @ [n])) = ret (Some x)" "node_leaf x = node_leaf c'"
    using stores_Get_topmost [OF total] by blast
  then show ?thesis using c' by (simp add: node_Info_def node_IsDir_def)
qed


text \<open>The layers of a sound stack: for each a well-behaved store, no file over a directory.\<close>

definition stack_ok :: "'m meta_ops \<Rightarrow> 'm layer list \<Rightarrow> bool" where
  "stack_ok ops ss \<longleftrightarrow> list_all (layer_ok ops) ss \<and> no_shadow ops ss"

lemma stack_total:
  "stack_ok ops ss \<Longrightarrow> list_all plain_name cs \<Longrightarrow> \<forall>s\<in>set ss. \<exists>r. s (path_of cs) = ret r"
  by (metis layer_total list_all_iff stack_ok_def)

lemma stack_get:
  assumes "stack_ok ops ss" "list_all plain_name cs"
  shows "stores_Get ops ss (path_of cs) = ret None \<and> (\<forall>s\<in>set ss. s (path_of cs) = ret None) \<or>
    (\<exists>s post m x. topmost ss (path_of cs) s post m \<and> stores_Get ops ss (path_of cs) = ret (Some x) \<and>
       node_leaf x = node_leaf m \<and> (node_IsDir ops m \<or> x = m))"
proof -
  note total = stack_total [OF assms]
  show ?thesis
    using topmost_cases [OF total]
  proof
    assume none: "\<forall>s\<in>set ss. s (path_of cs) = ret None"
    then show ?thesis using stores_skip [of ss "path_of cs" ops "[]"] by simp
  next
    assume "\<exists>s post m. topmost ss (path_of cs) s post m"
    then obtain s post m where t: "topmost ss (path_of cs) s post m" by blast
    from stores_Get_topmost [OF total t, of ops] obtain x where
      "stores_Get ops ss (path_of cs) = ret (Some x)" "node_leaf x = node_leaf m" "node_IsDir ops m \<or> x = m"
      by (auto split: if_splits)
    with t show ?thesis by blast
  qed
qed

lemma topmost_first:
  assumes "topmost ss p s post m" "first_listing ops (s # post) p n c"
  shows "first_listing ops ss p n c"
proof -
  obtain pre where pre: "ss = pre @ s # post" "\<forall>t\<in>set pre. t p = ret None" using assms(1) by (auto simp: topmost_def)
  then have no: "\<forall>t\<in>set pre. \<forall>d. \<not> listing ops t p n d" by (auto simp: listing_def)
  have "first_listing ops (pre @ s # post) p n c" using no assms(2)
  proof (induction pre)
    case (Cons t pre)
    then show ?case by (simp add: first_listing_Cons [of ops t])
  qed simp
  then show ?thesis using pre(1) by simp
qed

lemma stack_children:
  assumes "stack_ok ops ss" "list_all plain_name cs" "stores_Get ops ss (path_of cs) = ret (Some x)"
  shows "\<exists>ms. node_Children ops x = ret ms \<and> (\<not> node_IsDir ops x \<longrightarrow> ms = []) \<and>
    (\<forall>c\<in>set ms. \<exists>n. node_Name ops c = ret n \<and> first_listing ops ss (path_of cs) n c) \<and>
    {n. \<exists>c\<in>set ms. node_Name ops c = ret n} = {n. \<exists>u\<in>set ss. \<exists>c. listing ops u (path_of cs) n c}"
proof -
  let ?p = "path_of cs"
  have oks: "list_all (layer_ok ops) ss" "no_shadow ops ss" using assms(1) by (simp_all add: stack_ok_def)
  obtain s post m where t: "topmost ss ?p s post m" "node_leaf x = node_leaf m" "node_IsDir ops m \<or> x = m"
    using stack_get [OF assms(1,2)] assms(3) by auto
  obtain pre where pre: "ss = pre @ s # post" "\<forall>t\<in>set pre. t ?p = ret None" "s ?p = ret (Some m)"
    using t(1) by (auto simp: topmost_def)
  then have no: "\<forall>u\<in>set pre. \<forall>n d. \<not> listing ops u ?p n d" by (auto simp: listing_def)
  then have names: "{n. \<exists>u\<in>set ss. \<exists>c. listing ops u ?p n c} = {n. \<exists>u\<in>set (s # post). \<exists>c. listing ops u ?p n c}"
    using pre(1) by auto
  have ok: "layer_ok ops s" "\<forall>t\<in>set post. layer_ok ops t" using oks(1) pre(1) by (simp_all add: list_all_iff)
  show ?thesis
  proof (cases "node_IsDir ops m")
    case True
    then have "node_IsDir ops x" using t(2) by (simp add: node_IsDir_def)
    then show ?thesis
      using layered_children [OF oks(1) assms(2) t(1) assms(3) True] topmost_first [OF t(1)] names by fastforce
  next
    case False
    then have x: "x = m" using t(3) by simp
    have ms: "node_Children ops m = ret []" by (rule layer_file [OF ok(1) assms(2) pre(3) False])
    have "\<not> listing ops u ?p n c" if u: "u \<in> set (s # post)" for u n c
    proof
      assume l: "listing ops u ?p n c"
      then obtain m' ms' where m': "u ?p = ret (Some m')" "node_Children ops m' = ret ms'" "c \<in> set ms'"
        by (auto simp: listing_def)
      have "\<not> node_IsDir ops m'"
      proof (cases "u = s")
        case True
        then show ?thesis using m'(1) pre(3) False by simp
      next
        case False
        then have "u \<in> set post" using u by simp
        then show ?thesis
          using oks(2) assms(2) pre \<open>\<not> node_IsDir ops m\<close> m'(1) unfolding no_shadow_def by blast
      qed
      moreover have "layer_ok ops u" using u ok by auto
      ultimately have "node_Children ops m' = ret []" using layer_file assms(2) m'(1) by blast
      then show False using m'(2,3) by simp
    qed
    then show ?thesis using ms x names by auto
  qed
qed

interpretation ly: meta_store "stores_Get ops ss" "node_Name ops" "node_IsDir ops" "node_Children ops"
  "node_Info ops" "stack_ok ops ss"
  for ops :: "'m meta_ops" and ss :: "'m layer list"
proof (unfold_locales, goal_cases)
  case (1 cs m)
  then show ?case using stack_children by fastforce
next
  case (2 cs)
  then show ?case using stack_get [OF 2] by blast
next
  case (3 cs m)
  then obtain ms where ms: "node_Children ops m = ret ms"
    "\<forall>c\<in>set ms. \<exists>n. node_Name ops c = ret n \<and> first_listing ops ss (path_of cs) n c"
    using stack_children by blast
  then have "\<forall>c\<in>set ms. \<exists>n. node_Name ops c = ret n \<and> plain_name n"
    using stores_Get_first [of ops ss cs] 3 unfolding stack_ok_def by blast
  with ms(1) show ?case by blast
next
  case (4 cs m ms c n)
  then have "first_listing ops ss (path_of cs) n c" using stack_children [OF 4(1-3)] by fastforce
  then show ?case using stores_Get_first [of ops ss cs n c] 4(1,2) unfolding stack_ok_def by blast
next
  case (5 cs n c')
  then have plain: "list_all plain_name (cs @ [n])" by simp
  obtain s post m where t: "topmost ss (path_of (cs @ [n])) s post m"
    using stack_get [OF 5(1) plain] 5(4) by auto
  then have s: "s \<in> set ss" "s (path_of (cs @ [n])) = ret (Some m)" by (auto simp: topmost_def)
  have lok: "layer_ok ops s" using 5(1) s(1) by (simp add: stack_ok_def list_all_iff)
  obtain c where c: "listing ops s (path_of cs) n c"
    using layer_found [where s = s and cs = cs and n = n, OF lok 5(2,3) s(2)] by blast
  then have "s (path_of cs) \<noteq> ret None" by (rule listing_needs)
  then obtain x where x: "stores_Get ops ss (path_of cs) = ret (Some x)"
    using stack_get [OF 5(1,2)] s(1) by blast
  obtain ms where ms: "node_Children ops x = ret ms"
    "{n. \<exists>c\<in>set ms. node_Name ops c = ret n} = {n. \<exists>u\<in>set ss. \<exists>c. listing ops u (path_of cs) n c}"
    using stack_children [OF 5(1,2) x] by blast
  have "n \<in> {n. \<exists>u\<in>set ss. \<exists>c. listing ops u (path_of cs) n c}" using c s(1) by blast
  then have "n \<in> {n. \<exists>c\<in>set ms. node_Name ops c = ret n}" unfolding ms(2) .
  then show ?case using x ms(1) by blast
qed


section \<open>Layers of flists\<close>

text \<open>An object of a flist knows the store it came from.\<close>

type_synonym ('c, 'a) entry = "('c, 'a) env \<times> meta"

definition sql_ops :: "(bytes \<Rightarrow> bytes) \<Rightarrow> ('c, 'a) entry meta_ops" where
  "sql_ops md5 =
     \<lparr>mo_Name = (\<lambda>(ev, m). meta_Name m), mo_IsDir = (\<lambda>(ev, m). meta_IsDir m),
      mo_Children = (\<lambda>(ev, m). map_option (map (Pair ev)) (children_of ev m)),
      mo_Info = (\<lambda>(ev, m). meta_Info m), mo_Blocks = (\<lambda>(ev, m). meta_Blocks m),
      mo_ID = (\<lambda>(ev, m). meta_ID md5 m)\<rparr>"

definition sql_layer :: "('c, 'a) env \<Rightarrow> ('c, 'a) entry layer" where
  "sql_layer ev p = map_option (map_option (\<lambda>m. Plain (ev, m))) (sql_view ev p)"

lemma sql_layer_Some: "sql_layer ev p = ret (Some x) \<longleftrightarrow> (\<exists>m. sql_view ev p = ret (Some m) \<and> x = Plain (ev, m))"
  by (auto simp: sql_layer_def)

lemma sql_layer_None: "sql_layer ev p = ret None \<longleftrightarrow> sql_view ev p = ret None"
  by (auto simp: sql_layer_def)

lemma sql_ops_simps [simp]:
  "node_Name (sql_ops md5) (Plain (ev, m)) = meta_Name m"
  "node_IsDir (sql_ops md5) (Plain (ev, m)) = meta_IsDir m"
  "node_Info (sql_ops md5) (Plain (ev, m)) = meta_Info m"
  "node_Children (sql_ops md5) (Plain (ev, m)) = map_option (map (\<lambda>c. Plain (ev, c))) (children_of ev m)"
  by (simp_all add: sql_ops_def node_Name_def node_IsDir_def node_Info_def option.map_comp comp_def)

declare node_Children.simps(1) [simp del]

lemma sql_layer_ok:
  assumes "flist_ok ev"
  shows "layer_ok (sql_ops md5) (sql_layer ev)"
  unfolding layer_ok_def
proof (unfold_locales, goal_cases)
  case (1 cs x)
  then obtain m where m: "sql_view ev (path_of cs) = ret (Some m)" "x = Plain (ev, m)" by (auto simp: sql_layer_Some)
  then show ?case using sq.file_children [OF assms 1(2) m(1)] 1(4) by simp
next
  case (2 cs)
  then show ?case using sq.get_total [OF assms 2(2)] by (auto simp: sql_layer_def)
next
  case (3 cs x)
  then obtain m where m: "sql_view ev (path_of cs) = ret (Some m)" "x = Plain (ev, m)" by (auto simp: sql_layer_Some)
  then show ?case using sq.children_total [OF assms 3(2) m(1)] by fastforce
next
  case (4 cs x ms c n)
  then obtain m where m: "sql_view ev (path_of cs) = ret (Some m)" "x = Plain (ev, m)" by (auto simp: sql_layer_Some)
  obtain ks k where k: "children_of ev m = ret ks" "k \<in> set ks" "c = Plain (ev, k)"
    using 4(4,5) m(2) by auto
  obtain k' where "sql_view ev (path_of (cs @ [n])) = ret (Some k')" "meta_Info k' = meta_Info k" "meta_IsDir k' = meta_IsDir k"
    using sq.child_found [OF assms 4(2) m(1) k(1,2)] 4(6) k(3) by auto
  then show ?case using k(3) by (auto simp: sql_layer_def)
next
  case (5 cs n x)
  then obtain m where "sql_view ev (path_of (cs @ [n])) = ret (Some m)" by (auto simp: sql_layer_Some)
  then obtain d ms c where "sql_view ev (path_of cs) = ret (Some d)" "children_of ev d = ret ms" "c \<in> set ms" "meta_Name c = ret n"
    using sq.found_child [OF assms 5(2,3)] by blast
  then show ?case by (intro exI [of _ "Plain (ev, d)"] exI [of _ "map (\<lambda>c. Plain (ev, c)) ms"] exI [of _ "Plain (ev, c)"])
      (auto simp: sql_layer_def)
qed

definition flists_ok :: "(bytes \<Rightarrow> bytes) \<Rightarrow> ('c, 'a) env list \<Rightarrow> bool" where
  "flists_ok md5 evs \<longleftrightarrow> list_all flist_ok evs \<and> no_shadow (sql_ops md5) (map sql_layer evs)"

lemma flists_stack: "flists_ok md5 evs \<Longrightarrow> stack_ok (sql_ops md5) (map sql_layer evs)"
  by (auto simp: flists_ok_def stack_ok_def list_all_iff intro: sql_layer_ok)

section \<open>Properties\<close>

lemma no_shadow_single: "no_shadow ops [s]"
  by (auto simp: no_shadow_def Cons_eq_append_conv)

lemma no_shadow_same:
  assumes "no_shadow ops ss" "\<And>cs u t m. list_all plain_name cs \<Longrightarrow> u \<in> set ss \<Longrightarrow> s (path_of cs) = ret (Some m) \<Longrightarrow> \<not> node_IsDir ops m \<Longrightarrow>
    u (path_of cs) = ret (Some t) \<Longrightarrow> \<not> node_IsDir ops t"
  shows "no_shadow ops (s # ss)"
  unfolding no_shadow_def
proof (intro allI impI)
  fix cs pre s' post m t m'
  assume *: "list_all plain_name cs" "s # ss = pre @ s' # post" "\<forall>u\<in>set pre. u (path_of cs) = ret None"
    "s' (path_of cs) = ret (Some m)" "\<not> node_IsDir ops m" "t \<in> set post" "t (path_of cs) = ret (Some m')"
  show "\<not> node_IsDir ops m'"
  proof (cases pre)
    case Nil
    then show ?thesis using assms(2) * by auto
  next
    case (Cons a pre')
    then have "ss = pre' @ s' # post" "\<forall>u\<in>set pre'. u (path_of cs) = ret None" using * by auto
    then show ?thesis using assms(1) * unfolding no_shadow_def by blast
  qed
qed

lemma demo_two: "flists_ok md5 [demo_env, demo_env]"
proof -
  have "no_shadow (sql_ops md5) [sql_layer demo_env, sql_layer demo_env]"
    by (rule no_shadow_same [OF no_shadow_single]) auto
  then show ?thesis by (simp add: flists_ok_def demo_flist_ok)
qed

lemma same_pair: "[a, a] = l @ e # u \<Longrightarrow> e = a"
  by (auto simp: Cons_eq_append_conv)

text \<open>What a stack of flists serves at a path, the last flist on top.\<close>

lemma flists_get:
  assumes "flists_ok md5 (rev evs)" "list_all plain_name cs"
  shows "\<exists>r. stores_Get (sql_ops md5) (map sql_layer (rev evs)) (path_of cs) = ret r \<and>
    (case r of
       None \<Rightarrow> \<forall>ev\<in>set evs. sql_view ev (path_of cs) = ret None
     | Some x \<Rightarrow>
         (\<exists>lower ev upper m. evs = lower @ ev # upper \<and> (\<forall>u\<in>set upper. sql_view u (path_of cs) = ret None) \<and>
            sql_view ev (path_of cs) = ret (Some m) \<and> node_leaf x = (ev, m)) \<and>
         (\<exists>ms. node_Children (sql_ops md5) x = ret ms \<and>
            (\<forall>c\<in>set ms. \<exists>n. node_Name (sql_ops md5) c = ret n \<and>
               first_listing (sql_ops md5) (map sql_layer (rev evs)) (path_of cs) n c) \<and>
            {n. \<exists>c\<in>set ms. node_Name (sql_ops md5) c = ret n} =
              {n. plain_name n \<and> (\<exists>ev\<in>set evs. \<exists>c. sql_view ev (path_of (cs @ [n])) = ret (Some c))}))"
proof -
  let ?ops = "sql_ops md5" and ?ss = "map sql_layer (rev evs)" and ?p = "path_of cs"
  have ok: "stack_ok ?ops ?ss" by (rule flists_stack [OF assms(1)])
  have flok: "\<forall>ev\<in>set evs. flist_ok ev" using assms(1) by (simp add: flists_ok_def list_all_iff)
  show ?thesis
    using stack_get [OF ok assms(2)]
  proof
    assume "stores_Get ?ops ?ss ?p = ret None \<and> (\<forall>s\<in>set ?ss. s ?p = ret None)"
    then show ?thesis by (auto simp: sql_layer_None)
  next
    assume "\<exists>s post m x. topmost ?ss ?p s post m \<and> stores_Get ?ops ?ss ?p = ret (Some x) \<and>
       node_leaf x = node_leaf m \<and> (node_IsDir ?ops m \<or> x = m)"
    then obtain s post m x pre where *: "?ss = pre @ s # post" "\<forall>t\<in>set pre. t ?p = ret None" "s ?p = ret (Some m)"
      "stores_Get ?ops ?ss ?p = ret (Some x)" "node_leaf x = node_leaf m" by (auto simp: topmost_def)
    obtain es e fs where es: "rev evs = es @ e # fs" "pre = map sql_layer es" "s = sql_layer e"
      using *(1) by (auto simp: map_eq_append_conv map_eq_Cons_conv)
    then obtain k where k: "sql_view e ?p = ret (Some k)" "m = Plain (e, k)" using *(3) by (auto simp: sql_layer_Some)
    have evs: "evs = rev fs @ e # rev es" using es(1) by (metis append.assoc append_Cons append_Nil rev.simps(2) rev_append rev_rev_ident)
    have top_part: "\<exists>lower ev upper m. evs = lower @ ev # upper \<and> (\<forall>u\<in>set upper. sql_view u ?p = ret None) \<and>
        sql_view ev ?p = ret (Some m) \<and> node_leaf x = (ev, m)"
      using evs *(2,5) es(2) k by (intro exI [of _ "rev fs"] exI [of _ e] exI [of _ "rev es"] exI [of _ k])
        (auto simp: sql_layer_None)
    obtain ms where ms: "node_Children ?ops x = ret ms"
      "\<forall>c\<in>set ms. \<exists>n. node_Name ?ops c = ret n \<and> first_listing ?ops ?ss ?p n c"
      "{n. \<exists>c\<in>set ms. node_Name ?ops c = ret n} = {n. \<exists>u\<in>set ?ss. \<exists>c. listing ?ops u ?p n c}"
      using stack_children [OF ok assms(2) *(4)] by blast
    have "(\<exists>c. listing ?ops (sql_layer ev) ?p n c) \<longleftrightarrow> plain_name n \<and> (\<exists>c. sql_view ev (path_of (cs @ [n])) = ret (Some c))"
      if ev: "ev \<in> set evs" for ev n
    proof -
      have lok: "layer_ok ?ops (sql_layer ev)" using sql_layer_ok flok ev by blast
      show ?thesis
        using layer_child [OF lok assms(2)] layer_found [OF lok assms(2)] by (fastforce simp: sql_layer_Some)
    qed
    then have "{n. \<exists>u\<in>set ?ss. \<exists>c. listing ?ops u ?p n c} =
        {n. plain_name n \<and> (\<exists>ev\<in>set evs. \<exists>c. sql_view ev (path_of (cs @ [n])) = ret (Some c))}" by auto
    then show ?thesis using *(4) top_part ms by auto
  qed
qed



text \<open>C13. Listing and lookup agree on layers too, also on layers of layers: over a sound stack, the
  names listed in a directory are the plain names found below it, and nothing is found below a file
  or a missing path.\<close>

theorem layered_listing:
  assumes "stack_ok ops ss" "list_all plain_name cs"
  shows "\<exists>r. stores_Get ops ss (path_of cs) = ret r \<and>
    (case r of
       None \<Rightarrow> \<forall>n. plain_name n \<longrightarrow> stores_Get ops ss (path_of (cs @ [n])) = ret None
     | Some x \<Rightarrow> (\<exists>ms. node_Children ops x = ret ms \<and>
         {n. \<exists>c\<in>set ms. node_Name ops c = ret n} =
           {n. plain_name n \<and> (\<exists>c. stores_Get ops ss (path_of (cs @ [n])) = ret (Some c))}) \<and>
         (\<not> node_IsDir ops x \<longrightarrow> (\<forall>n. plain_name n \<longrightarrow> stores_Get ops ss (path_of (cs @ [n])) = ret None)))"
proof -
  obtain r where r: "stores_Get ops ss (path_of cs) = ret r" using ly.get_total assms by blast
  show ?thesis
  proof (cases r)
    case None
    then show ?thesis using r ly.nothing_below [OF assms] by auto
  next
    case (Some x)
    then have x: "stores_Get ops ss (path_of cs) = ret (Some x)" using r by simp
    show ?thesis using ly.listing [OF assms x] ly.nothing_below [OF assms] x Some by auto
  qed
qed

theorem layered_listing_witness:
  "\<exists>c. stores_Get (sql_ops id) (map sql_layer [demo_env, demo_env]) (path_of ([] @ [''f''])) = ret (Some c)"
proof -
  let ?get = "stores_Get (sql_ops id) (map sql_layer [demo_env, demo_env])"
  have ok: "stack_ok (sql_ops id) (map sql_layer [demo_env, demo_env])" by (rule flists_stack [OF demo_two])
  have v: "sql_view demo_env [] = ret (Some (Dir demo_root demo_access))" by (simp add: sql_view_def demo_get_root)
  obtain x where x: "?get [] = ret (Some x)" "\<exists>ls. x = MergedDir (Plain (demo_env, Dir demo_root demo_access)) ls"
    by (simp add: sql_layer_def v getMerge_def)
  have n0: "list_all plain_name []" by simp
  have x0: "?get (path_of []) = ret (Some x)" using x(1) by (simp only: path_of_Nil)
  obtain ms where ms: "node_Children (sql_ops id) x = ret ms"
    "{n. \<exists>c\<in>set ms. node_Name (sql_ops id) c = ret n} =
      {n. \<exists>u\<in>set (map sql_layer [demo_env, demo_env]). \<exists>c. listing (sql_ops id) u (path_of []) n c}"
    using stack_children [OF ok n0 x0] by blast
  have "\<exists>ms. node_Children (sql_ops id) x = ret ms \<and>
      {n. \<exists>c\<in>set ms. node_Name (sql_ops id) c = ret n} =
        {n. plain_name n \<and> (\<exists>c. ?get (path_of ([] @ [n])) = ret (Some c))}"
    using layered_listing [OF ok n0] unfolding x0 by simp
  then have "{n. plain_name n \<and> (\<exists>c. ?get (path_of ([] @ [n])) = ret (Some c))} =
      {n. \<exists>u\<in>set (map sql_layer [demo_env, demo_env]). \<exists>c. listing (sql_ops id) u [] n c}"
    using ms by simp
  moreover have "\<exists>c. listing (sql_ops id) (sql_layer demo_env) [] ''f'' c"
    by (auto simp: listing_def sql_layer_def v demo_inodes List.map_filter_def inode_meta_def split: sum.splits)
  ultimately show ?thesis by auto
qed

text \<open>A store on top of a stack makes the stack of all of them.\<close>

lemma stack_is_layer: "stack_ok ops bs \<Longrightarrow> layer_ok ops (stores_Get ops bs)"
  using ly.meta_store_axioms [of ops bs] by (simp add: layer_ok_def)

text \<open>A stack under one more store is a stack of two.\<close>

lemma stack_of_two:
  assumes "stack_ok ops (e # bs)" "stack_ok ops bs"
  shows "stack_ok ops [e, stores_Get ops bs]"
proof -
  have "no_shadow ops [e, stores_Get ops bs]"
  proof (rule no_shadow_same [OF no_shadow_single])
    fix cs' u t m
    assume *: "list_all plain_name cs'" "u \<in> set [stores_Get ops bs]" "e (path_of cs') = ret (Some m)" "\<not> node_IsDir ops m"
      "u (path_of cs') = ret (Some t)"
    then obtain s post m' where t: "topmost bs (path_of cs') s post m'" "node_leaf t = node_leaf m'"
      using stack_get [OF assms(2) *(1)] by auto
    then have s: "s \<in> set bs" "s (path_of cs') = ret (Some m')" by (auto simp: topmost_def)
    have "\<not> node_IsDir ops m'"
      using assms(1) *(1,3,4) s unfolding stack_ok_def no_shadow_def by (metis append_Nil empty_iff list.set(1))
    then show "\<not> node_IsDir ops t" using t(2) by (simp add: node_IsDir_def)
  qed
  then show ?thesis using assms(1) stack_is_layer [OF assms(2)] by (simp add: stack_ok_def)
qed

text \<open>A stack lists a name when one of its stores does.\<close>

lemma stack_listing:
  assumes "stack_ok ops bs" "list_all plain_name cs"
  shows "(\<exists>c. listing ops (stores_Get ops bs) (path_of cs) n c) \<longleftrightarrow> (\<exists>u\<in>set bs. \<exists>c. listing ops u (path_of cs) n c)"
proof -
  obtain b where b: "stores_Get ops bs (path_of cs) = ret b" using ly.get_total assms by blast
  show ?thesis
  proof (cases b)
    case None
    then have "\<forall>s\<in>set bs. s (path_of cs) = ret None" using stack_get [OF assms] b by auto
    then show ?thesis using b None by (auto simp: listing_def)
  next
    case (Some x)
    then have x: "stores_Get ops bs (path_of cs) = ret (Some x)" using b by simp
    obtain ms where ms: "node_Children ops x = ret ms"
      "{n. \<exists>c\<in>set ms. node_Name ops c = ret n} = {n. \<exists>u\<in>set bs. \<exists>c. listing ops u (path_of cs) n c}"
      using stack_children [OF assms x] by blast
    then have "n \<in> {n. \<exists>c\<in>set ms. node_Name ops c = ret n} \<longleftrightarrow> (\<exists>u\<in>set bs. \<exists>c. listing ops u (path_of cs) n c)" by simp
    moreover have "listing ops (stores_Get ops bs) (path_of cs) n c \<longleftrightarrow> c \<in> set ms \<and> node_Name ops c = ret n" for c
      using x ms(1) by (simp add: listing_def)
    ultimately show ?thesis by blast
  qed
qed

lemma flat_layers:
  assumes "stack_ok ops (e # bs)" "stack_ok ops bs" "list_all plain_name cs"
  shows "\<exists>r. stores_Get ops (e # bs) (path_of cs) = ret r \<and>
    (\<exists>r'. stores_Get ops [e, stores_Get ops bs] (path_of cs) = ret r' \<and>
       map_option node_leaf r' = map_option node_leaf r \<and>
       (\<forall>x x'. r = Some x \<longrightarrow> r' = Some x' \<longrightarrow>
          (\<exists>ms ms'. node_Children ops x = ret ms \<and> node_Children ops x' = ret ms' \<and>
             {n. \<exists>c\<in>set ms'. node_Name ops c = ret n} = {n. \<exists>c\<in>set ms. node_Name ops c = ret n})))"
proof -
  let ?B = "stores_Get ops bs" and ?p = "path_of cs"
  have e_ok: "layer_ok ops e" using assms(1) by (simp add: stack_ok_def)
  note two = stack_of_two [OF assms(1,2)]
  have names: "{n. \<exists>u\<in>set (e # bs). \<exists>c. listing ops u ?p n c} = {n. \<exists>u\<in>set [e, ?B]. \<exists>c. listing ops u ?p n c}"
    using stack_listing [OF assms(2,3)] by auto
  obtain b where b: "?B ?p = ret b" using ly.get_total assms(2,3) by blast
  obtain r r' where r: "stores_Get ops (e # bs) ?p = ret r" "stores_Get ops [e, ?B] ?p = ret r'"
    using ly.get_total [OF assms(1,3)] ly.get_total [OF two assms(3)] by blast
  have leaf: "map_option node_leaf r' = map_option node_leaf r"
  proof -
    obtain m where m: "e ?p = ret m" using layer_total [OF e_ok assms(3)] by blast
    obtain lower where "get_lower bs ?p = ret lower"
      using get_lower_total [OF stack_total [OF assms(2,3)]] by blast
    then show ?thesis using r m b by (cases m) (auto simp: getMerge_def split: option.splits if_splits)
  qed
  have "\<exists>ms ms'. node_Children ops x = ret ms \<and> node_Children ops x' = ret ms' \<and>
      {n. \<exists>c\<in>set ms'. node_Name ops c = ret n} = {n. \<exists>c\<in>set ms. node_Name ops c = ret n}"
    if "r = Some x" "r' = Some x'" for x x'
    using stack_children [OF assms(1,3), of x] stack_children [OF two assms(3), of x'] r that names by auto
  then show ?thesis using r leaf by blast
qed



text \<open>Where a file shadows a directory the two views part: the file is found, and so is what a lower
  layer has below the directory.\<close>

lemma shadowed_child_visible:
  assumes "e p = ret (Some m)" "\<not> node_IsDir ops m" "e q = ret None" "u q = ret (Some c)"
  shows "stores_Get ops [e, u] p = ret (Some m) \<and> stores_Get ops [e, u] q = ret (Some c)"
  using assms by simp

end
