(* ===== verification/Downloads.thy ===== *)
theory Downloads
  imports Metas "HOL-Library.Multiset"
begin

text \<open>
  The downloader: rofs/downloader.go. The storage, XXTEA, Snappy and BLAKE2b are parameters. A
  download is a step relation over the feeder goroutine, the workers, and the main loop that
  writes the blocks: an unbuffered channel hands over in one joint step, a closed feed lets idle
  workers quit, the first error cancels the context, and \<open>select\<close> may take any ready case.
\<close>

section \<open>One block\<close>

datatype derr =
    DStorage string         \<comment> \<open>the error of \<open>storage.Get\<close>, or of reading its body\<close>
  | DSnappy string          \<comment> \<open>decompression failed\<close>
  | DWrongHash              \<comment> \<open>"hash is wrong"\<close>
  | DNoBlocks               \<comment> \<open>"no blocks provided"\<close>
  | DNoBlockSize            \<comment> \<open>"block size is not set"\<close>
  | DOutput string          \<comment> \<open>seeking or writing the output failed\<close>

record crypto =
  cr_xxtea :: "bytes \<Rightarrow> bytes \<Rightarrow> bytes"     \<comment> \<open>\<open>xxtea.Decrypt(data, key)\<close>\<close>
  cr_snappy :: "bytes \<Rightarrow> string + bytes"      \<comment> \<open>\<open>snappy.Decode\<close>\<close>
  cr_blake :: "bytes \<Rightarrow> bytes"               \<comment> \<open>the 16 byte BLAKE2b digest\<close>

text \<open>\<open>answer\<close> is what the storage returned for the key of the block.\<close>

definition downloadBlock :: "crypto \<Rightarrow> block_info \<Rightarrow> derr + bytes \<Rightarrow> derr + bytes" where
  "downloadBlock cr block answer =
     (case answer of
        Inl err \<Rightarrow> Inl err
      | Inr body \<Rightarrow>
          (case cr_snappy cr (cr_xxtea cr body (bi_Decipher block)) of
             Inl m \<Rightarrow> Inl (DSnappy m)
           | Inr data \<Rightarrow>
               (if cr_blake cr data \<noteq> bi_Decipher block then Inl DWrongHash else Inr data)))"

lemma downloadBlock_hash: "downloadBlock cr b ans = Inr data \<Longrightarrow> cr_blake cr data = bi_Decipher b"
  by (auto simp: downloadBlock_def split: sum.splits if_splits)

section \<open>The output file\<close>

text \<open>Writing \<open>data\<close> at an offset: a gap behind the end reads as zeros, writing nothing changes nothing.\<close>

definition write_at :: "nat \<Rightarrow> bytes \<Rightarrow> bytes \<Rightarrow> bytes" where
  "write_at off data f =
     (if data = [] then f
      else take off (f @ replicate (off - length f) 0) @ data @ drop (off + length data) f)"

lemma length_write_at: "data \<noteq> [] \<Longrightarrow> length (write_at off data f) = max (length f) (off + length data)"
  by (auto simp: write_at_def max_def)

lemma write_at_in: "k < length data \<Longrightarrow> write_at off data f ! (off + k) = data ! k"
  by (cases "off \<le> length f") (auto simp: write_at_def nth_append)

lemma write_at_out:
  "k < length f \<Longrightarrow> k < off \<or> off + length data \<le> k \<Longrightarrow> write_at off data f ! k = f ! k"
  by (auto simp: write_at_def nth_append min_def)

lemma write_at_longer: "length f \<le> length (write_at off data f)"
  by (cases "data = []") (simp add: write_at_def, simp add: length_write_at)

lemma write_at_covers: "k < length data \<Longrightarrow> off + k < length (write_at off data f)"
  by (cases "data = []") (auto simp: length_write_at)

section \<open>The processes\<close>

record downloader =
  dl_workers :: int
  dl_blocks :: "block_info list"
  dl_blockSize :: nat

definition DefaultDownloadWorkers :: int where "DefaultDownloadWorkers = 4"

text \<open>The options of \<open>NewDownloader\<close>; \<open>apply\<close> of the only option sets the number of workers.\<close>

datatype dl_option = WorkersOpt u64

fun opt_apply :: "dl_option \<Rightarrow> downloader \<Rightarrow> downloader" where
  "opt_apply (WorkersOpt nr) d = d\<lparr>dl_workers := sint nr\<rparr>"

definition NewDownloader :: "info \<Rightarrow> block_info list \<Rightarrow> dl_option list \<Rightarrow> downloader" where
  "NewDownloader i blocks opts =
     fold opt_apply opts \<lparr>dl_workers = 0, dl_blocks = blocks, dl_blockSize = unat (in_FileBlockSize i)\<rparr>"

definition num_workers :: "downloader \<Rightarrow> int" where
  "num_workers d =
     (let workers = min (dl_workers d) (int (length (dl_blocks d)))
      in if workers = 0 then min DefaultDownloadWorkers (int (length (dl_blocks d))) else workers)"

datatype worker = Idle | Fetching nat | Sending nat bytes | Quit | Failed nat

record dstate =
  ds_next :: nat                          \<comment> \<open>the next index the feeder offers\<close>
  ds_feeding :: bool                      \<comment> \<open>the feeder runs; when it ends it closes the feed\<close>
  ds_workers :: "worker list"
  ds_err :: "derr option"                 \<comment> \<open>the group's first error; the context is done then\<close>
  ds_file :: bytes
  ds_ret :: "derr option option"          \<comment> \<open>what \<open>Download\<close> has returned\<close>

definition first_error :: "derr option \<Rightarrow> derr \<Rightarrow> derr option" where
  "first_error e e' = (case e of None \<Rightarrow> Some e' | Some x \<Rightarrow> Some x)"

definition worker_over :: "worker \<Rightarrow> bool" where
  "worker_over w \<longleftrightarrow> (case w of Quit \<Rightarrow> True | Failed k \<Rightarrow> True | _ \<Rightarrow> False)"

text \<open>\<open>may key ans\<close>: the storage can answer \<open>ans\<close> for \<open>key\<close>. A step that writes a block carries it.\<close>

inductive dl_step ::
  "crypto \<Rightarrow> (bytes \<Rightarrow> derr + bytes \<Rightarrow> bool) \<Rightarrow> downloader \<Rightarrow> dstate \<Rightarrow> (nat \<times> bytes) option \<Rightarrow> dstate \<Rightarrow> bool"
  for cr may d where
  feed: "ds_feeding s \<Longrightarrow> ds_next s < length (dl_blocks d) \<Longrightarrow> i < length (ds_workers s) \<Longrightarrow>
    ds_workers s ! i = Idle \<Longrightarrow>
    dl_step cr may d s None
      (s\<lparr>ds_next := Suc (ds_next s), ds_workers := (ds_workers s)[i := Fetching (ds_next s)]\<rparr>)"
| feed_end: "ds_feeding s \<Longrightarrow> ds_next s = length (dl_blocks d) \<or> ds_err s \<noteq> None \<Longrightarrow>
    dl_step cr may d s None (s\<lparr>ds_feeding := False\<rparr>)"
| quit: "\<not> ds_feeding s \<Longrightarrow> i < length (ds_workers s) \<Longrightarrow> ds_workers s ! i = Idle \<Longrightarrow>
    dl_step cr may d s None (s\<lparr>ds_workers := (ds_workers s)[i := Quit]\<rparr>)"
| fetched: "i < length (ds_workers s) \<Longrightarrow> ds_workers s ! i = Fetching k \<Longrightarrow>
    may (bi_Key (dl_blocks d ! k)) ans \<Longrightarrow> downloadBlock cr (dl_blocks d ! k) ans = Inr raw \<Longrightarrow>
    dl_step cr may d s None (s\<lparr>ds_workers := (ds_workers s)[i := Sending k raw]\<rparr>)"
| failed: "i < length (ds_workers s) \<Longrightarrow> ds_workers s ! i = Fetching k \<Longrightarrow>
    may (bi_Key (dl_blocks d ! k)) ans \<Longrightarrow> downloadBlock cr (dl_blocks d ! k) ans = Inl e \<Longrightarrow>
    dl_step cr may d s None
      (s\<lparr>ds_workers := (ds_workers s)[i := Failed k], ds_err := first_error (ds_err s) e\<rparr>)"
| cancelled: "i < length (ds_workers s) \<Longrightarrow> ds_workers s ! i = Sending k raw \<Longrightarrow> ds_err s \<noteq> None \<Longrightarrow>
    dl_step cr may d s None (s\<lparr>ds_workers := (ds_workers s)[i := Failed k]\<rparr>)"
| written: "ds_ret s = None \<Longrightarrow> i < length (ds_workers s) \<Longrightarrow> ds_workers s ! i = Sending k raw \<Longrightarrow>
    dl_step cr may d s (Some (k, raw))
      (s\<lparr>ds_workers := (ds_workers s)[i := Idle], ds_file := write_at (k * dl_blockSize d) raw (ds_file s)\<rparr>)"
| unwritten: "ds_ret s = None \<Longrightarrow> i < length (ds_workers s) \<Longrightarrow> ds_workers s ! i = Sending k raw \<Longrightarrow>
    j \<le> length raw \<Longrightarrow>
    dl_step cr may d s None
      (s\<lparr>ds_workers := (ds_workers s)[i := Idle], ds_file := write_at (k * dl_blockSize d) (take j raw) (ds_file s),
         ds_ret := Some (Some (DOutput m))\<rparr>)"
| finished: "ds_ret s = None \<Longrightarrow> \<not> ds_feeding s \<Longrightarrow> list_all worker_over (ds_workers s) \<Longrightarrow>
    dl_step cr may d s None (s\<lparr>ds_ret := Some (ds_err s)\<rparr>)"

inductive_cases dl_stepE: "dl_step cr may d s w s'"

definition started :: "downloader \<Rightarrow> bytes \<Rightarrow> dstate" where
  "started d f =
     \<lparr>ds_next = 0, ds_feeding = True, ds_workers = replicate (nat (num_workers d)) Idle,
      ds_err = None, ds_file = f, ds_ret = None\<rparr>"

text \<open>\<open>Download\<close> up to the start of the goroutines.\<close>

definition Download :: "downloader \<Rightarrow> bytes \<Rightarrow> derr + dstate" where
  "Download d f =
     (if length (dl_blocks d) = 0 then Inl DNoBlocks
      else if dl_blockSize d = 0 then Inl DNoBlockSize
      else Inr (started d f))"

inductive dl_run ::
  "crypto \<Rightarrow> (bytes \<Rightarrow> derr + bytes \<Rightarrow> bool) \<Rightarrow> downloader \<Rightarrow> dstate \<Rightarrow> (nat \<times> bytes) list \<Rightarrow> dstate \<Rightarrow> bool"
  for cr may d where
  none: "dl_run cr may d s [] s"
| snoc: "dl_run cr may d s ws s' \<Longrightarrow> dl_step cr may d s' w s'' \<Longrightarrow>
    dl_run cr may d s (ws @ (case w of None \<Rightarrow> [] | Some x \<Rightarrow> [x])) s''"

section \<open>The invariant\<close>

definition held :: "worker \<Rightarrow> nat multiset" where
  "held w = (case w of Fetching k \<Rightarrow> {#k#} | Sending k raw \<Rightarrow> {#k#} | Failed k \<Rightarrow> {#k#} | _ \<Rightarrow> {#})"

lemma held_simps [simp]: "held Idle = {#}" "held Quit = {#}" "held (Fetching k) = {#k#}"
  "held (Sending k raw) = {#k#}" "held (Failed k) = {#k#}"
  by (simp_all add: held_def)

text \<open>Blocks are neither lost nor doubled: an index is written, held by a worker, or still to be fed.
  A block on its way to the file is what an answer of the storage decodes to.\<close>

definition genuine :: "crypto \<Rightarrow> (bytes \<Rightarrow> derr + bytes \<Rightarrow> bool) \<Rightarrow> downloader \<Rightarrow> nat \<Rightarrow> bytes \<Rightarrow> bool" where
  "genuine cr may d k raw \<longleftrightarrow> 
     (\<exists>ans. may (bi_Key (dl_blocks d ! k)) ans \<and> downloadBlock cr (dl_blocks d ! k) ans = Inr raw)"

definition apply_writes :: "nat \<Rightarrow> (nat \<times> bytes) list \<Rightarrow> bytes \<Rightarrow> bytes" where
  "apply_writes bs ws f = fold (\<lambda>(k, raw) f. write_at (k * bs) raw f) ws f"

definition dl_inv ::
  "crypto \<Rightarrow> (bytes \<Rightarrow> derr + bytes \<Rightarrow> bool) \<Rightarrow> downloader \<Rightarrow> bytes \<Rightarrow> (nat \<times> bytes) list \<Rightarrow> dstate \<Rightarrow> bool" where
  "dl_inv cr may d f0 ws s \<longleftrightarrow>
     ds_next s \<le> length (dl_blocks d) \<and>
     (ds_ret s = None \<longrightarrow>
        mset (map fst ws) + sum_list (map held (ds_workers s)) + mset [ds_next s..<length (dl_blocks d)]
          = mset [0..<length (dl_blocks d)]) \<and>
     list_all (\<lambda>w. case w of Sending k raw \<Rightarrow> genuine cr may d k raw | _ \<Rightarrow> True) (ds_workers s) \<and>
     list_all (\<lambda>(k, raw). genuine cr may d k raw) ws \<and>
     (ds_feeding s \<longrightarrow> Quit \<notin> set (ds_workers s)) \<and>
     (ds_err s = None \<longrightarrow> (\<forall>k. Failed k \<notin> set (ds_workers s)) \<and> (\<not> ds_feeding s \<longrightarrow> ds_next s = length (dl_blocks d))) \<and>
     (ds_ret s = None \<longrightarrow> ds_file s = apply_writes (dl_blockSize d) ws f0) \<and>
     (ds_ret s = Some None \<longrightarrow> ds_file s = apply_writes (dl_blockSize d) ws f0 \<and>
        mset (map fst ws) = mset [0..<length (dl_blocks d)])"

lemma sum_list_update_multiset:
  fixes g :: "'a \<Rightarrow> 'b multiset"
  assumes "i < length xs"
  shows "sum_list (map g (xs[i := x])) + g (xs ! i) = sum_list (map g xs) + g x"
  using assms
proof (induction xs arbitrary: i)
  case (Cons a xs)
  then show ?case by (cases i) (simp_all add: ac_simps)
qed simp

lemma held_update:
  assumes "i < length ws" "held (ws ! i) = held x"
  shows "sum_list (map held (ws[i := x])) = sum_list (map held ws)"
  using sum_list_update_multiset [OF assms(1), of held x] assms(2) by simp

lemma set_updateD: "x \<in> set (xs[i := y]) \<Longrightarrow> x = y \<or> x \<in> set xs"
  by (meson insertE set_update_subset_insert subsetD)

lemma over_held:
  assumes "list_all worker_over ws" "\<forall>k. Failed k \<notin> set ws"
  shows "sum_list (map held ws) = {#}"
  using assms by (induction ws) (auto simp: worker_over_def split: worker.splits)


lemma all_update: "list_all P xs \<Longrightarrow> P y \<Longrightarrow> list_all P (xs[i := y])"
  by (auto simp: list_all_iff dest: set_updateD)

lemma apply_writes_snoc: "apply_writes bs (ws @ [(k, raw)]) f = write_at (k * bs) raw (apply_writes bs ws f)"
  by (simp add: apply_writes_def)

definition sending_ok :: "crypto \<Rightarrow> (bytes \<Rightarrow> derr + bytes \<Rightarrow> bool) \<Rightarrow> downloader \<Rightarrow> worker \<Rightarrow> bool" where
  "sending_ok cr may d w \<longleftrightarrow> (case w of Sending k raw \<Rightarrow> genuine cr may d k raw | _ \<Rightarrow> True)"

lemma sending_ok_simps [simp]: "sending_ok cr may d Idle" "sending_ok cr may d Quit" "sending_ok cr may d (Fetching k)"
  "sending_ok cr may d (Failed k)" "sending_ok cr may d (Sending k raw) \<longleftrightarrow> genuine cr may d k raw"
  by (simp_all add: sending_ok_def)

lemma dl_invD:
  assumes "dl_inv cr may d f0 ws s"
  shows "ds_next s \<le> length (dl_blocks d)"
    and "ds_ret s = None \<Longrightarrow>
       mset (map fst ws) + sum_list (map held (ds_workers s)) + mset [ds_next s..<length (dl_blocks d)]
         = mset [0..<length (dl_blocks d)]"
    and "list_all (sending_ok cr may d) (ds_workers s)"
    and "list_all (\<lambda>(k, raw). genuine cr may d k raw) ws"
    and "ds_feeding s \<Longrightarrow> Quit \<notin> set (ds_workers s)"
    and "ds_err s = None \<Longrightarrow> Failed k \<notin> set (ds_workers s)"
    and "ds_err s = None \<Longrightarrow> \<not> ds_feeding s \<Longrightarrow> ds_next s = length (dl_blocks d)"
    and "ds_ret s = None \<Longrightarrow> ds_file s = apply_writes (dl_blockSize d) ws f0"
    and "ds_ret s = Some None \<Longrightarrow> ds_file s = apply_writes (dl_blockSize d) ws f0 \<and>
        mset (map fst ws) = mset [0..<length (dl_blocks d)]"
  using assms unfolding dl_inv_def sending_ok_def by auto

lemma dl_invI:
  assumes "ds_next s \<le> length (dl_blocks d)"
    and "ds_ret s = None \<Longrightarrow>
       mset (map fst ws) + sum_list (map held (ds_workers s)) + mset [ds_next s..<length (dl_blocks d)]
         = mset [0..<length (dl_blocks d)]"
    and "list_all (sending_ok cr may d) (ds_workers s)"
    and "list_all (\<lambda>(k, raw). genuine cr may d k raw) ws"
    and "ds_feeding s \<Longrightarrow> Quit \<notin> set (ds_workers s)"
    and "\<And>k. ds_err s = None \<Longrightarrow> Failed k \<notin> set (ds_workers s)"
    and "ds_err s = None \<Longrightarrow> \<not> ds_feeding s \<Longrightarrow> ds_next s = length (dl_blocks d)"
    and "ds_ret s = None \<Longrightarrow> ds_file s = apply_writes (dl_blockSize d) ws f0"
    and "ds_ret s = Some None \<Longrightarrow> ds_file s = apply_writes (dl_blockSize d) ws f0 \<and>
        mset (map fst ws) = mset [0..<length (dl_blocks d)]"
  shows "dl_inv cr may d f0 ws s"
  using assms unfolding dl_inv_def sending_ok_def by auto

text \<open>A step that only moves one worker between states that hold the same index.\<close>

lemma inv_worker:
  assumes "dl_inv cr may d f0 ws s" "i < length (ds_workers s)" "held (ds_workers s ! i) = held x"
    and "sending_ok cr may d x" "ds_feeding s \<Longrightarrow> x \<noteq> Quit" "\<And>k. x = Failed k \<Longrightarrow> err \<noteq> None"
    and "ds_err s \<noteq> None \<Longrightarrow> err \<noteq> None"
  shows "dl_inv cr may d f0 ws (s\<lparr>ds_workers := (ds_workers s)[i := x], ds_err := err\<rparr>)"
proof -
  note I = dl_invD [OF assms(1)]
  have none: "err = None \<Longrightarrow> ds_err s = None" using assms(7) by blast
  show ?thesis
  proof (rule dl_invI, goal_cases)
    case 2
    then show ?case using I(2) held_update [OF assms(2,3)] by simp
  next
    case 3
    then show ?case using I(3) assms(4) by (simp add: all_update)
  next
    case 5
    then show ?case using I(5) assms(5) by (auto dest: set_updateD)
  next
    case (6 k)
    then show ?case using I(6) assms(6) none by (auto dest: set_updateD)
  qed (use I none in auto)
qed

lemma nat_upt_Suc: "k < n \<Longrightarrow> mset [k..<n] = add_mset k (mset [Suc k..<n])"
  by (simp add: upt_conv_Cons)

text \<open>A worker that hands its block over, and the return.\<close>

lemma inv_written:
  assumes "dl_inv cr may d f0 ws s" "ds_ret s = None" "i < length (ds_workers s)" "ds_workers s ! i = Sending k raw"
  shows "dl_inv cr may d f0 (ws @ [(k, raw)])
    (s\<lparr>ds_workers := (ds_workers s)[i := Idle], ds_file := write_at (k * dl_blockSize d) raw (ds_file s)\<rparr>)"
proof -
  note I = dl_invD [OF assms(1)]
  have h: "add_mset k (sum_list (map held ((ds_workers s)[i := Idle]))) = sum_list (map held (ds_workers s))"
    using sum_list_update_multiset [OF assms(3), of held Idle] assms(4) by simp
  have g: "genuine cr may d k raw"
    using I(3) assms(3,4) nth_mem [OF assms(3)] by (auto simp: list_all_iff)
  have u: "\<And>x. x \<in> set ((ds_workers s)[i := Idle]) \<Longrightarrow> x = Idle \<or> x \<in> set (ds_workers s)"
    by (rule set_updateD)
  show ?thesis
  proof (rule dl_invI, goal_cases)
    case 2
    then show ?case using I(2) assms(2) h [symmetric] by simp
  next
    case 3
    then show ?case using I(3) by (simp add: all_update)
  next
    case 4
    then show ?case using I(4) g by simp
  next
    case 5
    then show ?case using I(5) u by auto
  next
    case (6 k)
    then show ?case using I(6) u by auto
  next
    case 8
    then show ?case using I(8) assms(2) by (simp add: apply_writes_snoc)
  qed (use I assms(2) in auto)
qed

lemma inv_unwritten:
  assumes "dl_inv cr may d f0 ws s" "i < length (ds_workers s)" "ds_workers s ! i = Sending k raw"
  shows "dl_inv cr may d f0 ws
    (s\<lparr>ds_workers := (ds_workers s)[i := Idle], ds_file := f, ds_ret := Some (Some e)\<rparr>)"
proof -
  note I = dl_invD [OF assms(1)]
  have u: "\<And>x. x \<in> set ((ds_workers s)[i := Idle]) \<Longrightarrow> x = Idle \<or> x \<in> set (ds_workers s)"
    by (rule set_updateD)
  show ?thesis
  proof (rule dl_invI, goal_cases)
    case 3
    then show ?case using I(3) by (simp add: all_update)
  next
    case 5
    then show ?case using I(5) u by auto
  next
    case (6 k)
    then show ?case using I(6) u by auto
  qed (use I in auto)
qed

lemma inv_finished:
  assumes "dl_inv cr may d f0 ws s" "ds_ret s = None" "\<not> ds_feeding s" "list_all worker_over (ds_workers s)"
  shows "dl_inv cr may d f0 ws (s\<lparr>ds_ret := Some (ds_err s)\<rparr>)"
proof -
  note I = dl_invD [OF assms(1)]
  show ?thesis
  proof (rule dl_invI, goal_cases)
    case 9
    then have e: "ds_err s = None" by simp
    then have "sum_list (map held (ds_workers s)) = {#}" using over_held [OF assms(4)] I(6) by blast
    moreover have "ds_next s = length (dl_blocks d)" using I(7) e assms(3) by simp
    ultimately show ?case using I(2,8) assms(2) by simp
  qed (use I assms in auto)
qed

lemma inv_feed:
  assumes "dl_inv cr may d f0 ws s" "ds_feeding s" "ds_next s < length (dl_blocks d)"
    and "i < length (ds_workers s)" "ds_workers s ! i = Idle"
  shows "dl_inv cr may d f0 ws (s\<lparr>ds_next := Suc (ds_next s), ds_workers := (ds_workers s)[i := Fetching (ds_next s)]\<rparr>)"
proof -
  note I = dl_invD [OF assms(1)]
  have "sum_list (map held ((ds_workers s)[i := Fetching (ds_next s)])) =
      add_mset (ds_next s) (sum_list (map held (ds_workers s)))"
    using sum_list_update_multiset [OF assms(4), of held "Fetching (ds_next s)"] assms(5) by simp
  moreover have "\<And>x. x \<in> set ((ds_workers s)[i := Fetching (ds_next s)]) \<Longrightarrow> x = Fetching (ds_next s) \<or> x \<in> set (ds_workers s)"
    by (rule set_updateD)
  ultimately show ?thesis
    using I nat_upt_Suc [OF assms(3)] assms(2,3) by (intro dl_invI) (auto simp: all_update)
qed

lemma dl_step_inv:
  assumes "dl_step cr may d s w s'" "dl_inv cr may d f0 ws s"
  shows "dl_inv cr may d f0 (ws @ (case w of None \<Rightarrow> [] | Some x \<Rightarrow> [x])) s'"
  using assms(1)
proof (cases rule: dl_step.cases)
  case (feed i)
  then show ?thesis using inv_feed [OF assms(2)] by simp
next
  case feed_end
  then show ?thesis using dl_invD [OF assms(2)] by (intro dl_invI) auto
next
  case (quit i)
  have "dl_inv cr may d f0 ws (s\<lparr>ds_workers := (ds_workers s)[i := Quit], ds_err := ds_err s\<rparr>)"
    using quit by (intro inv_worker [OF assms(2)]) auto
  then show ?thesis using quit by simp
next
  case (fetched i k ans raw)
  have "dl_inv cr may d f0 ws (s\<lparr>ds_workers := (ds_workers s)[i := Sending k raw], ds_err := ds_err s\<rparr>)"
    using fetched by (intro inv_worker [OF assms(2)]) (auto simp: genuine_def)
  then show ?thesis using fetched by simp
next
  case (failed i k ans e)
  have "dl_inv cr may d f0 ws (s\<lparr>ds_workers := (ds_workers s)[i := Failed k], ds_err := first_error (ds_err s) e\<rparr>)"
    using failed by (intro inv_worker [OF assms(2)]) (auto simp: first_error_def split: option.splits)
  then show ?thesis using failed by simp
next
  case (cancelled i k raw)
  have "dl_inv cr may d f0 ws (s\<lparr>ds_workers := (ds_workers s)[i := Failed k], ds_err := ds_err s\<rparr>)"
    using cancelled by (intro inv_worker [OF assms(2)]) auto
  then show ?thesis using cancelled by simp
next
  case (written i k raw)
  then show ?thesis using inv_written [OF assms(2)] by simp
next
  case (unwritten i k raw j m)
  then show ?thesis using inv_unwritten [OF assms(2)] by simp
next
  case finished
  then show ?thesis using inv_finished [OF assms(2)] by simp
qed


lemma started_inv: "dl_inv cr may d f [] (started d f)"
proof -
  have "sum_list (map held (replicate n Idle)) = {#}" for n by (induction n) simp_all
  then show ?thesis by (intro dl_invI) (auto simp: started_def apply_writes_def list_all_iff)
qed

lemma dl_run_inv: "dl_run cr may d s ws s' \<Longrightarrow> dl_inv cr may d f [] s \<Longrightarrow> dl_inv cr may d f ws s'"
proof (induction rule: dl_run.induct)
  case (snoc s ws s' w s'')
  then show ?case using dl_step_inv by blast
qed simp

section \<open>What the blocks add up to\<close>

text \<open>Blocks written at multiples of the block size do not touch each other.\<close>

lemma writes_content:
  assumes "\<forall>(k, raw)\<in>set ws. length raw \<le> bs" "distinct (map fst ws)" "(k, raw) \<in> set ws" "j < length raw"
  shows "k * bs + j < length (apply_writes bs ws f) \<and> apply_writes bs ws f ! (k * bs + j) = raw ! j"
  using assms
proof (induction ws rule: rev_induct)
  case (snoc w ws)
  obtain l new where w: "w = (l, new)" by fastforce
  let ?F = "apply_writes bs ws f"
  have F: "apply_writes bs (ws @ [w]) f = write_at (l * bs) new ?F" by (simp add: w apply_writes_snoc)
  show ?case
  proof (cases "(k, raw) = w")
    case True
    then have "l = k" "new = raw" using w by simp_all
    then show ?thesis using F write_at_in [OF snoc.prems(4)] write_at_covers [OF snoc.prems(4)] by simp
  next
    case False
    then have m: "(k, raw) \<in> set ws" using snoc.prems(3) by simp
    then have "k \<noteq> l" using snoc.prems(2) w by force
    have len: "length new \<le> bs" "j < bs" using snoc.prems(1,4) w m by auto
    have "k * bs + j < l * bs \<or> l * bs + length new \<le> k * bs + j"
    proof (cases "k < l")
      case True
      then have "Suc k * bs \<le> l * bs" by (intro mult_le_mono1) simp
      then show ?thesis using len by simp
    next
      case False
      then have "Suc l * bs \<le> k * bs" using \<open>k \<noteq> l\<close> by (intro mult_le_mono1) simp
      then show ?thesis using len by simp
    qed
    moreover have "k * bs + j < length ?F" "?F ! (k * bs + j) = raw ! j"
      using snoc.IH snoc.prems m by simp_all
    ultimately show ?thesis
      using F write_at_out [of "k * bs + j" ?F "l * bs" new] write_at_longer [of ?F "l * bs" new] by simp
  qed
qed simp

lemma writes_length:
  assumes "\<forall>(k, raw)\<in>set ws. k * bs + length raw \<le> n"
  shows "length (apply_writes bs ws f) \<le> max (length f) n"
  using assms
proof (induction ws rule: rev_induct)
  case Nil
  then show ?case by (simp add: apply_writes_def)
next
  case (snoc w ws)
  obtain l new where w: "w = (l, new)" by fastforce
  show ?case
    using snoc w by (cases "new = []") (auto simp: apply_writes_snoc length_write_at write_at_def)
qed

text \<open>The specification: the contents of a file of which every block but the last is full.\<close>

definition full_blocks :: "nat \<Rightarrow> bytes list \<Rightarrow> bool" where
  "full_blocks bs raws \<longleftrightarrow>
     (\<forall>i<length raws. length (raws ! i) \<le> bs \<and> (Suc i < length raws \<longrightarrow> length (raws ! i) = bs))"

lemma concat_full:
  assumes "full_blocks bs raws" "i < length raws" "j < length (raws ! i)"
  shows "i * bs + j < length (concat raws) \<and> concat raws ! (i * bs + j) = raws ! i ! j"
  using assms
proof (induction raws arbitrary: i)
  case (Cons r raws)
  have tail: "full_blocks bs raws" using Cons.prems(1) by (fastforce simp: full_blocks_def)
  show ?case
  proof (cases i)
    case 0
    then show ?thesis using Cons.prems(3) by (simp add: nth_append)
  next
    case (Suc k)
    then have "length r = bs" using Cons.prems(1,2) by (fastforce simp: full_blocks_def)
    then show ?thesis using Cons.IH [OF tail, of k] Cons.prems Suc by (simp add: nth_append add.assoc)
  qed
qed simp

lemma concat_full_covers:
  assumes "full_blocks bs raws" "k < length (concat raws)"
  shows "\<exists>i j. i < length raws \<and> j < length (raws ! i) \<and> k = i * bs + j"
  using assms
proof (induction raws arbitrary: k)
  case (Cons r raws)
  have tail: "full_blocks bs raws" using Cons.prems(1) by (fastforce simp: full_blocks_def)
  show ?case
  proof (cases "k < length r")
    case True
    then show ?thesis by (intro exI [of _ 0] exI [of _ k]) simp
  next
    case False
    then have "k - length r < length (concat raws)" using Cons.prems(2) by simp
    then obtain i j where ij: "i < length raws" "j < length (raws ! i)" "k - length r = i * bs + j"
      using Cons.IH [OF tail] by blast
    have "length r = bs" using Cons.prems(1) ij(1) by (fastforce simp: full_blocks_def)
    then show ?thesis using ij False by (intro exI [of _ "Suc i"] exI [of _ j]) simp
  qed
qed simp

lemma concat_full_length:
  assumes "full_blocks bs raws" "i < length raws"
  shows "i * bs + length (raws ! i) \<le> length (concat raws)"
  using assms
proof (induction raws arbitrary: i)
  case (Cons r raws)
  have tail: "full_blocks bs raws" using Cons.prems(1) by (fastforce simp: full_blocks_def)
  show ?case
  proof (cases i)
    case (Suc k)
    then have "length r = bs" using Cons.prems(1,2) by (fastforce simp: full_blocks_def)
    then show ?thesis using Cons.IH [OF tail, of k] Cons.prems(2) Suc by simp
  qed simp
qed simp

lemma writes_result:
  assumes "full_blocks bs raws" "mset (map fst ws) = mset [0..<length raws]" "\<forall>(k, raw)\<in>set ws. raw = raws ! k"
    and "length f \<le> length (concat raws)"
  shows "apply_writes bs ws f = concat raws"
proof -
  have keys: "set (map fst ws) = {0..<length raws}" using assms(2) by (metis set_mset_mset set_upt)
  have dist: "distinct (map fst ws)" using assms(2) by (metis distinct_upt mset_eq_imp_distinct_iff)
  have mem: "(i, raws ! i) \<in> set ws" if "i < length raws" for i
  proof -
    have "i \<in> set (map fst ws)" using keys that by simp
    then show ?thesis using assms(3) by fastforce
  qed
  have idx: "k < length raws" if "(k, raw) \<in> set ws" for k raw using keys that by force
  have le: "\<forall>(k, raw)\<in>set ws. length raw \<le> bs"
    using assms(1,3) idx by (fastforce simp: full_blocks_def)
  have at: "i * bs + j < length (apply_writes bs ws f) \<and> apply_writes bs ws f ! (i * bs + j) = raws ! i ! j"
    if "i < length raws" "j < length (raws ! i)" for i j
    by (rule writes_content [OF le dist mem [OF that(1)] that(2)])
  have "length (apply_writes bs ws f) \<le> max (length f) (length (concat raws))"
    by (rule writes_length) (use assms(3) idx concat_full_length [OF assms(1)] in fastforce)
  then have upper: "length (apply_writes bs ws f) \<le> length (concat raws)" using assms(4) by simp
  have lower: "length (concat raws) \<le> length (apply_writes bs ws f)"
  proof (rule ccontr)
    assume "\<not> ?thesis"
    then have "length (apply_writes bs ws f) < length (concat raws)" by simp
    then obtain i j where "i < length raws" "j < length (raws ! i)" "length (apply_writes bs ws f) = i * bs + j"
      using concat_full_covers [OF assms(1)] by blast
    then show False using at by fastforce
  qed
  show ?thesis
  proof (rule nth_equalityI)
    show "length (apply_writes bs ws f) = length (concat raws)" using upper lower by simp
    fix k
    assume "k < length (apply_writes bs ws f)"
    then obtain i j where ij: "i < length raws" "j < length (raws ! i)" "k = i * bs + j"
      using concat_full_covers [OF assms(1)] upper by (meson order_less_le_trans)
    then show "apply_writes bs ws f ! k = concat raws ! k"
      using at [OF ij(1,2)] concat_full [OF assms(1) ij(1,2)] by simp
  qed
qed

section \<open>Progress\<close>

definition worker_cost :: "worker \<Rightarrow> nat" where
  "worker_cost w = (case w of Idle \<Rightarrow> 1 | Fetching k \<Rightarrow> 3 | Sending k raw \<Rightarrow> 2 | Quit \<Rightarrow> 0 | Failed k \<Rightarrow> 0)"

lemma worker_cost_simps [simp]: "worker_cost Idle = 1" "worker_cost (Fetching k) = 3"
  "worker_cost (Sending k raw) = 2" "worker_cost Quit = 0" "worker_cost (Failed k) = 0"
  by (simp_all add: worker_cost_def)

definition dl_cost :: "downloader \<Rightarrow> dstate \<Rightarrow> nat" where
  "dl_cost d s = 4 * (length (dl_blocks d) - ds_next s) + sum_list (map worker_cost (ds_workers s)) +
     (if ds_feeding s then 1 else 0) + (case ds_ret s of None \<Rightarrow> 1 | Some _ \<Rightarrow> 0)"

lemma cost_update:
  assumes "i < length ws"
  shows "sum_list (map worker_cost (ws[i := x])) + worker_cost (ws ! i) = sum_list (map worker_cost ws) + worker_cost x"
  using assms
proof (induction ws arbitrary: i)
  case (Cons a ws)
  then show ?case by (cases i) (simp_all add: ac_simps)
qed simp

lemma dl_step_cost:
  assumes "dl_step cr may d s w s'"
  shows "dl_cost d s' < dl_cost d s"
  using assms
proof (cases rule: dl_step.cases)
  case (feed i)
  then show ?thesis using cost_update [OF feed(5), of "Fetching (ds_next s)"] by (simp add: dl_cost_def)
next
  case (quit i)
  then show ?thesis using cost_update [OF quit(4), of Quit] by (simp add: dl_cost_def)
next
  case (fetched i k ans raw)
  then show ?thesis using cost_update [OF fetched(3), of "Sending k raw"] by (simp add: dl_cost_def)
next
  case (failed i k ans e)
  then show ?thesis using cost_update [OF failed(3), of "Failed k"] by (simp add: dl_cost_def)
next
  case (cancelled i k raw)
  then show ?thesis using cost_update [OF cancelled(3), of "Failed k"] by (simp add: dl_cost_def)
next
  case (written i k raw)
  then show ?thesis using cost_update [OF written(4), of Idle] by (simp add: dl_cost_def)
next
  case (unwritten i k raw j m)
  then show ?thesis using cost_update [OF unwritten(4), of Idle] by (simp add: dl_cost_def)
qed (simp_all add: dl_cost_def)

lemma dl_run_bounded: "dl_run cr may d s ws s' \<Longrightarrow> dl_cost d s' \<le> dl_cost d s"
  by (induction rule: dl_run.induct) (auto dest: dl_step_cost)

lemma workers_length_step: "dl_step cr may d s w s' \<Longrightarrow> length (ds_workers s') = length (ds_workers s)"
  by (erule dl_stepE) auto

lemma workers_length_run: "dl_run cr may d s ws s' \<Longrightarrow> length (ds_workers s') = length (ds_workers s)"
  by (induction rule: dl_run.induct) (auto dest: workers_length_step)

text \<open>A download can always go on: here for a worker of each kind, and when all workers are done.\<close>

lemma fetching_progress:
  assumes "ds_ret s = None" "i < length (ds_workers s)" "ds_workers s ! i = Fetching k" "\<forall>key. \<exists>ans. may key ans"
  shows "\<exists>w s'. dl_step cr may d s w s' \<and> ds_ret s' = None"
proof -
  obtain ans where ans: "may (bi_Key (dl_blocks d ! k)) ans" using assms(4) by blast
  show ?thesis
  proof (cases "downloadBlock cr (dl_blocks d ! k) ans")
    case (Inl e)
    from dl_step.failed [where s = s and may = may and d = d and cr = cr and k = k and ans = ans, OF assms(2,3) ans Inl]
    show ?thesis using assms(1) by fastforce
  next
    case (Inr raw)
    from dl_step.fetched [where s = s and may = may and d = d and cr = cr and k = k and ans = ans, OF assms(2,3) ans Inr]
    show ?thesis using assms(1) by fastforce
  qed
qed

lemma idle_progress:
  assumes "dl_inv cr may d f ws s" "ds_ret s = None" "i < length (ds_workers s)" "ds_workers s ! i = Idle"
  shows "\<exists>w s'. dl_step cr may d s w s' \<and> ds_ret s' = None"
proof (cases "ds_feeding s")
  case True
  show ?thesis
  proof (cases "ds_next s < length (dl_blocks d)")
    case less: True
    from dl_step.feed [OF True less assms(3,4)] show ?thesis using assms(2) by fastforce
  next
    case False
    then have "ds_next s = length (dl_blocks d) \<or> ds_err s \<noteq> None" using dl_invD(1) [OF assms(1)] by simp
    from dl_step.feed_end [OF True this] show ?thesis using assms(2) by fastforce
  qed
next
  case False
  from dl_step.quit [OF False assms(3,4)] show ?thesis using assms(2) by fastforce
qed

lemma over_progress:
  assumes "dl_inv cr may d f ws s" "ds_ret s = None" "ds_workers s \<noteq> []" "list_all worker_over (ds_workers s)"
  shows "\<exists>w s'. dl_step cr may d s w s' \<and> (ds_ret s' = None \<or> ds_ret s' = Some (ds_err s'))"
proof (cases "ds_feeding s")
  case True
  obtain x where x: "x \<in> set (ds_workers s)" using assms(3) by (cases "ds_workers s") auto
  then have "worker_over x" using assms(4) by (simp add: list_all_iff)
  then obtain k where "x = Failed k"
    using dl_invD(5) [OF assms(1) True] x by (cases x) (auto simp: worker_over_def)
  then have "ds_err s \<noteq> None" using dl_invD(6) [OF assms(1)] x by blast
  then have "ds_next s = length (dl_blocks d) \<or> ds_err s \<noteq> None" by simp
  from dl_step.feed_end [OF True this] show ?thesis using assms(2) by fastforce
next
  case False
  from dl_step.finished [OF assms(2) False assms(4)] show ?thesis by fastforce
qed

lemma dl_progress:
  assumes "dl_inv cr may d f ws s" "ds_ret s = None" "ds_workers s \<noteq> []" "\<forall>key. \<exists>ans. may key ans"
  shows "\<exists>w s'. dl_step cr may d s w s' \<and> (ds_ret s' = None \<or> ds_ret s' = Some (ds_err s'))"
proof (cases "list_all worker_over (ds_workers s)")
  case True
  then show ?thesis by (rule over_progress [OF assms(1-3)])
next
  case False
  then obtain i where i: "i < length (ds_workers s)" "\<not> worker_over (ds_workers s ! i)"
    by (auto simp: list_all_length)
  show ?thesis
  proof (cases "ds_workers s ! i")
    case Idle
    then show ?thesis using idle_progress [OF assms(1,2) i(1)] by blast
  next
    case (Fetching k)
    then show ?thesis using fetching_progress [OF assms(2) i(1) _ assms(4)] by blast
  next
    case (Sending k raw)
    then show ?thesis using dl_step.written [OF assms(2) i(1) Sending] assms(2) by fastforce
  qed (use i(2) in \<open>simp_all add: worker_over_def\<close>)
qed


text \<open>Workers only hold indices of blocks.\<close>

definition in_range :: "downloader \<Rightarrow> dstate \<Rightarrow> bool" where
  "in_range d s \<longleftrightarrow> list_all (\<lambda>w. \<forall>k\<in>#held w. k < length (dl_blocks d)) (ds_workers s)"

lemma in_range_nth:
  "in_range d s \<Longrightarrow> i < length (ds_workers s) \<Longrightarrow> k \<in># held (ds_workers s ! i) \<Longrightarrow> k < length (dl_blocks d)"
  by (simp add: in_range_def list_all_length)

lemma in_range_update:
  "in_range d s \<Longrightarrow> \<forall>k\<in>#held x. k < length (dl_blocks d) \<Longrightarrow> list_all (\<lambda>w. \<forall>k\<in>#held w. k < length (dl_blocks d)) ((ds_workers s)[i := x])"
  unfolding in_range_def by (rule all_update)

lemma in_range_step:
  assumes "dl_step cr may d s w s'" "in_range d s"
  shows "in_range d s'"
  using assms(1)
proof (cases rule: dl_step.cases)
  case (feed i)
  then show ?thesis using in_range_update [OF assms(2), of "Fetching (ds_next s)" i] by (simp add: in_range_def)
next
  case (quit i)
  then show ?thesis using in_range_update [OF assms(2), of Quit i] by (simp add: in_range_def)
next
  case (fetched i k ans raw)
  then show ?thesis
    using in_range_update [OF assms(2), of "Sending k raw" i] in_range_nth [OF assms(2) fetched(3), of k] by (simp add: in_range_def)
next
  case (failed i k ans e)
  then show ?thesis
    using in_range_update [OF assms(2), of "Failed k" i] in_range_nth [OF assms(2) failed(3), of k] by (simp add: in_range_def)
next
  case (cancelled i k raw)
  then show ?thesis
    using in_range_update [OF assms(2), of "Failed k" i] in_range_nth [OF assms(2) cancelled(3), of k] by (simp add: in_range_def)
next
  case (written i k raw)
  then show ?thesis using in_range_update [OF assms(2), of Idle i] by (simp add: in_range_def)
next
  case (unwritten i k raw j m)
  then show ?thesis using in_range_update [OF assms(2), of Idle i] by (simp add: in_range_def)
qed (use assms(2) in \<open>simp_all add: in_range_def\<close>)

lemma in_range_run: "dl_run cr may d s ws s' \<Longrightarrow> in_range d s \<Longrightarrow> in_range d s'"
  by (induction rule: dl_run.induct) (auto dest: in_range_step)

definition downloads_fine :: "crypto \<Rightarrow> (bytes \<Rightarrow> derr + bytes \<Rightarrow> bool) \<Rightarrow> downloader \<Rightarrow> bool" where
  "downloads_fine cr may d \<longleftrightarrow>
     (\<forall>b\<in>set (dl_blocks d). \<forall>ans. may (bi_Key b) ans \<longrightarrow> (\<exists>raw. downloadBlock cr b ans = Inr raw))"

text \<open>Without an error the workers never give up a block, whoever has stopped listening.\<close>

lemma stuck_step:
  assumes "dl_step cr may d s w s'" "ds_ret s \<noteq> None" "ds_err s = None" "in_range d s" "downloads_fine cr may d"
    and "i < length (ds_workers s)" "ds_workers s ! i = Sending k raw"
  shows "ds_ret s' = ds_ret s \<and> ds_err s' = None \<and> ds_workers s' ! i = Sending k raw"
  using assms(1)
proof (cases rule: dl_step.cases)
  case (failed j l ans e)
  then have "dl_blocks d ! l \<in> set (dl_blocks d)" using in_range_nth [OF assms(4) failed(3), of l] by simp
  then show ?thesis using failed assms(5) unfolding downloads_fine_def by fastforce
qed (use assms(2-) in \<open>auto simp: nth_list_update\<close>)

lemma stuck_run:
  assumes "dl_run cr may d s ws s'" "ds_ret s \<noteq> None" "ds_err s = None" "in_range d s" "downloads_fine cr may d"
    and "i < length (ds_workers s)" "ds_workers s ! i = Sending k raw"
  shows "ds_ret s' = ds_ret s \<and> ds_err s' = None \<and> ds_workers s' ! i = Sending k raw"
  using assms
proof (induction rule: dl_run.induct)
  case (snoc s ws s' w s'')
  then have "ds_ret s' = ds_ret s \<and> ds_err s' = None \<and> ds_workers s' ! i = Sending k raw" by simp
  moreover have "length (ds_workers s') = length (ds_workers s)" using snoc.hyps(1) by (rule workers_length_run)
  moreover have "in_range d s'" using in_range_run [OF snoc.hyps(1)] snoc.prems by simp
  ultimately show ?case using stuck_step [OF snoc.hyps(2)] snoc.prems by simp
qed simp

section \<open>Properties\<close>

text \<open>Toy ciphers and a storage that answers with its key, for the witnesses.\<close>

definition toy :: crypto where
  "toy = \<lparr>cr_xxtea = (\<lambda>b k. b), cr_snappy = Inr, cr_blake = (\<lambda>b. b)\<rparr>"

definition echo :: "bytes \<Rightarrow> derr + bytes \<Rightarrow> bool" where
  "echo key ans \<longleftrightarrow> ans = Inr key"

definition demo_dl :: downloader where
  "demo_dl = \<lparr>dl_workers = 2, dl_blocks = [\<lparr>bi_Key = [1, 2], bi_Decipher = [1, 2]\<rparr>, \<lparr>bi_Key = [3], bi_Decipher = [3]\<rparr>],
     dl_blockSize = 2\<rparr>"

text \<open>The two blocks finish in the wrong order.\<close>

definition after :: "worker \<Rightarrow> worker \<Rightarrow> nat \<Rightarrow> bool \<Rightarrow> bytes \<Rightarrow> dstate" where
  "after w0 w1 n feeding f =
     \<lparr>ds_next = n, ds_feeding = feeding, ds_workers = [w0, w1], ds_err = None, ds_file = f, ds_ret = None\<rparr>"

lemma demo_started: "Download demo_dl [] = Inr (after Idle Idle 0 True [])"
  by (simp add: Download_def demo_dl_def started_def after_def num_workers_def Let_def numeral_2_eq_2)

lemma demo_fetched:
  "dl_run toy echo demo_dl (after Idle Idle 0 True []) [] (after (Sending 0 [1, 2]) (Sending 1 [3]) 2 True [])"
proof -
  let ?step = "dl_step toy echo demo_dl"
  have 1: "?step (after Idle Idle 0 True []) None (after (Fetching 0) Idle 1 True [])"
    using dl_step.feed [of "after Idle Idle 0 True []" demo_dl 0] by (simp add: after_def demo_dl_def)
  have 2: "?step (after (Fetching 0) Idle 1 True []) None (after (Fetching 0) (Fetching 1) 2 True [])"
    using dl_step.feed [of "after (Fetching 0) Idle 1 True []" demo_dl 1] by (simp add: after_def demo_dl_def numeral_2_eq_2)
  have 3: "?step (after (Fetching 0) (Fetching 1) 2 True []) None (after (Fetching 0) (Sending 1 [3]) 2 True [])"
    using dl_step.fetched [of 1 "after (Fetching 0) (Fetching 1) 2 True []" 1 echo demo_dl "Inr [3]" toy "[3]"]
    by (simp add: after_def demo_dl_def echo_def toy_def downloadBlock_def)
  have 4: "?step (after (Fetching 0) (Sending 1 [3]) 2 True []) None (after (Sending 0 [1, 2]) (Sending 1 [3]) 2 True [])"
    using dl_step.fetched [of 0 "after (Fetching 0) (Sending 1 [3]) 2 True []" 0 echo demo_dl "Inr [1, 2]" toy "[1, 2]"]
    by (simp add: after_def demo_dl_def echo_def toy_def downloadBlock_def)
  show ?thesis
    using dl_run.snoc [OF dl_run.snoc [OF dl_run.snoc [OF dl_run.snoc [OF dl_run.none 1] 2] 3] 4] by simp
qed

lemma demo_done:
  "dl_run toy echo demo_dl (after Idle Idle 0 True []) [(1, [3]), (0, [1, 2])]
    ((after Quit Quit 2 False [1, 2, 3])\<lparr>ds_ret := Some None\<rparr>)"
proof -
  let ?step = "dl_step toy echo demo_dl"
  have 5: "?step (after (Sending 0 [1, 2]) (Sending 1 [3]) 2 True []) (Some (1, [3])) (after (Sending 0 [1, 2]) Idle 2 True [0, 0, 3])"
    using dl_step.written [of "after (Sending 0 [1, 2]) (Sending 1 [3]) 2 True []" 1 1 "[3]" toy echo demo_dl]
    by (simp add: after_def demo_dl_def write_at_def numeral_2_eq_2)
  have 6: "?step (after (Sending 0 [1, 2]) Idle 2 True [0, 0, 3]) (Some (0, [1, 2])) (after Idle Idle 2 True [1, 2, 3])"
    using dl_step.written [of "after (Sending 0 [1, 2]) Idle 2 True [0, 0, 3]" 0 0 "[1, 2]" toy echo demo_dl]
    by (simp add: after_def demo_dl_def write_at_def)
  have 7: "?step (after Idle Idle 2 True [1, 2, 3]) None (after Idle Idle 2 False [1, 2, 3])"
    using dl_step.feed_end [of "after Idle Idle 2 True [1, 2, 3]" demo_dl toy echo] by (simp add: after_def demo_dl_def)
  have 8: "?step (after Idle Idle 2 False [1, 2, 3]) None (after Quit Idle 2 False [1, 2, 3])"
    using dl_step.quit [of "after Idle Idle 2 False [1, 2, 3]" 0 toy echo demo_dl] by (simp add: after_def)
  have 9: "?step (after Quit Idle 2 False [1, 2, 3]) None (after Quit Quit 2 False [1, 2, 3])"
    using dl_step.quit [of "after Quit Idle 2 False [1, 2, 3]" 1 toy echo demo_dl] by (simp add: after_def)
  have 10: "?step (after Quit Quit 2 False [1, 2, 3]) None ((after Quit Quit 2 False [1, 2, 3])\<lparr>ds_ret := Some None\<rparr>)"
    using dl_step.finished [of "after Quit Quit 2 False [1, 2, 3]" toy echo demo_dl] by (simp add: after_def worker_over_def)
  show ?thesis
    using dl_run.snoc [OF dl_run.snoc [OF dl_run.snoc [OF dl_run.snoc [OF dl_run.snoc [OF dl_run.snoc
      [OF demo_fetched 5] 6] 7] 8] 9] 10] by simp
qed

text \<open>What a download without an error has written.\<close>

lemma download_content:
  assumes "Download d f = Inr s0" "dl_run cr may d s0 ws s" "ds_ret s = Some None"
  shows "\<exists>raws. length raws = length (dl_blocks d) \<and>
    (\<forall>i<length raws. cr_blake cr (raws ! i) = bi_Decipher (dl_blocks d ! i) \<and>
       (\<exists>ans. may (bi_Key (dl_blocks d ! i)) ans \<and> downloadBlock cr (dl_blocks d ! i) ans = Inr (raws ! i))) \<and>
    (full_blocks (dl_blockSize d) raws \<and> length f \<le> length (concat raws) \<longrightarrow> ds_file s = concat raws)"
proof -
  have "s0 = started d f" using assms(1) by (simp add: Download_def split: if_splits)
  then have inv: "dl_inv cr may d f ws s" using dl_run_inv [OF assms(2)] started_inv by simp
  note I = dl_invD [OF inv]
  have content: "ds_file s = apply_writes (dl_blockSize d) ws f"
    and all: "mset (map fst ws) = mset [0..<length (dl_blocks d)]" using I(9) assms(3) by simp_all
  define raws where "raws = map (\<lambda>i. the (map_of ws i)) [0..<length (dl_blocks d)]"
  have dist: "distinct (map fst ws)" using all by (metis distinct_upt mset_eq_imp_distinct_iff)
  have keys: "set (map fst ws) = {0..<length (dl_blocks d)}" using all by (metis set_mset_mset set_upt)
  have mem: "k < length (dl_blocks d) \<and> raw = raws ! k" if m: "(k, raw) \<in> set ws" for k raw
  proof -
    have "k \<in> set (map fst ws)" using m by force
    then have "k < length (dl_blocks d)" using keys by simp
    moreover have "map_of ws k = Some raw" using dist m by (simp add: map_of_is_SomeI)
    ultimately show ?thesis by (simp add: raws_def)
  qed
  have each: "(i, raws ! i) \<in> set ws" if "i < length (dl_blocks d)" for i
  proof -
    have "i \<in> set (map fst ws)" using keys that by simp
    then obtain raw where "(i, raw) \<in> set ws" by auto
    then show ?thesis using mem by blast
  qed
  have gen: "\<exists>ans. may (bi_Key (dl_blocks d ! i)) ans \<and> downloadBlock cr (dl_blocks d ! i) ans = Inr (raws ! i)"
    if "i < length (dl_blocks d)" for i
    using I(4) each [OF that] by (auto simp: list_all_iff genuine_def)
  have "apply_writes (dl_blockSize d) ws f = concat raws"
    if "full_blocks (dl_blockSize d) raws" "length f \<le> length (concat raws)"
    using writes_result [OF that(1) _ _ that(2), of ws] all mem by (auto simp: raws_def)
  then show ?thesis
    using gen content downloadBlock_hash by (intro exI [of _ raws]) (fastforce simp: raws_def)
qed





text \<open>Errors of the output leak goroutines: once \<open>Download\<close> has returned because writing failed,
  a worker that holds a finished block waits for ever, unless some other block fails to download;
  nothing cancels the context.\<close>

theorem output_error_leaks:
  assumes "Download d f = Inr s0" "dl_run cr may d s0 ws s" "downloads_fine cr may d"
    and "ds_ret s = Some (Some (DOutput m))" "ds_err s = None"
    and "i < length (ds_workers s)" "ds_workers s ! i = Sending k raw" "dl_run cr may d s ws' s'"
  shows "ds_workers s' ! i = Sending k raw \<and> \<not> list_all worker_over (ds_workers s')"
proof -
  have "s0 = started d f" using assms(1) by (simp add: Download_def split: if_splits)
  then have "in_range d s0" by (simp add: in_range_def started_def list_all_iff)
  then have "in_range d s" by (rule in_range_run [OF assms(2)])
  then have "ds_workers s' ! i = Sending k raw"
    using stuck_run [OF assms(8) _ assms(5) _ assms(3,6,7)] assms(4) by simp
  moreover have "i < length (ds_workers s')" using workers_length_run [OF assms(8)] assms(6) by simp
  ultimately show ?thesis by (force simp: list_all_length worker_over_def)
qed

theorem output_error_leaks_witness:
  "\<exists>s. dl_run toy echo demo_dl (after Idle Idle 0 True []) [] s \<and> ds_ret s = Some (Some (DOutput ''disk full'')) \<and>
    (\<forall>ws' s'. dl_run toy echo demo_dl s ws' s' \<longrightarrow> ds_workers s' ! 1 = Sending 1 [3])"
proof -
  let ?s = "(after Idle (Sending 1 [3]) 2 True [1])\<lparr>ds_ret := Some (Some (DOutput ''disk full''))\<rparr>"
  have "dl_step toy echo demo_dl (after (Sending 0 [1, 2]) (Sending 1 [3]) 2 True []) None ?s"
    using dl_step.unwritten [of "after (Sending 0 [1, 2]) (Sending 1 [3]) 2 True []" 0 0 "[1, 2]" 1 toy echo demo_dl "''disk full''"]
    by (simp add: after_def demo_dl_def write_at_def)
  from dl_run.snoc [OF demo_fetched this]
  have run: "dl_run toy echo demo_dl (after Idle Idle 0 True []) [] ?s" by simp
  have fine: "downloads_fine toy echo demo_dl"
    by (simp add: downloads_fine_def demo_dl_def echo_def toy_def downloadBlock_def)
  have s: "ds_ret ?s = Some (Some (DOutput ''disk full''))" "ds_err ?s = None" "1 < length (ds_workers ?s)"
    "ds_workers ?s ! 1 = Sending 1 [3]" by (simp_all add: after_def)
  show ?thesis using output_error_leaks [OF demo_started run fine s] run s(1) by blast
qed

text \<open>The number of workers is an \<open>int\<close> made of a \<open>uint\<close>: from 2^63 on it is negative, no worker is
  started, and the feeder waits for ever.\<close>

lemma negative_workers_hang:
  assumes "0x8000000000000000 \<le> nr" "blocks \<noteq> []" "in_FileBlockSize i \<noteq> 0"
  shows "Download (NewDownloader i blocks [WorkersOpt nr]) f = Inr (started (NewDownloader i blocks [WorkersOpt nr]) f) \<and>
    \<not> dl_step cr may (NewDownloader i blocks [WorkersOpt nr]) (started (NewDownloader i blocks [WorkersOpt nr]) f) w s'"
proof -
  let ?d = "NewDownloader i blocks [WorkersOpt nr]"
  have "9223372036854775808 \<le> uint nr" using assms(1) by (simp add: word_le_def)
  moreover have "uint nr < 18446744073709551616" using unsigned_less [of nr, where ?'a = int] by simp
  ultimately have "uint nr div 9223372036854775808 = 1" by simp
  then have "sint nr < 0" by (simp add: sint_uint bit_iff_odd)
  then have "num_workers ?d < 0" by (simp add: num_workers_def NewDownloader_def Let_def)
  then have s: "started ?d f = \<lparr>ds_next = 0, ds_feeding = True, ds_workers = [], ds_err = None, ds_file = f, ds_ret = None\<rparr>"
    by (simp add: started_def)
  have "dl_blockSize ?d \<noteq> 0" "dl_blocks ?d = blocks" using assms(3) by (simp_all add: NewDownloader_def unat_eq_0)
  moreover from this have "\<not> dl_step cr may ?d (started ?d f) w s'"
    unfolding s using assms(2) by (auto elim!: dl_step.cases)
  ultimately show ?thesis using assms(2) by (simp add: Download_def)
qed

end
