(* ===== verification/Caches.thy ===== *)
theory Caches
  imports Layers Downloads
begin

text \<open>
  The cache of downloaded files: rofs/cache.go. The file system of the operating system is an
  explicit store of directories, names and inodes; \<open>os_faults\<close> says which calls fail. This theory
  has \<open>CheckAndGet\<close> as one caller runs it; SharedCache has the same code run by several processes.
\<close>

section \<open>Names in the cache\<close>

definition node_Blocks :: "'m meta_ops \<Rightarrow> 'm node \<Rightarrow> block_info list" where
  "node_Blocks ops x = mo_Blocks ops (node_leaf x)"

definition node_ID :: "'m meta_ops \<Rightarrow> 'm node \<Rightarrow> string" where
  "node_ID ops x = mo_ID ops (node_leaf x)"

definition cache_path :: "string \<Rightarrow> string \<Rightarrow> string" where
  "cache_path cache hash =
     (let base = cache;
          base = (if 2 \<le> length hash then path_Join [base, take 2 hash] else base);
          base = (if 4 \<le> length hash then path_Join [base, take 2 (drop 2 hash)] else base)
      in path_Join [base, hash])"

section \<open>The operating system\<close>

datatype oserr =
    NotExist
  | IsDirectory
  | NotDirectory
  | OsErr string

record fsys =
  fy_dirs :: "string list"
  fy_names :: "string \<rightharpoonup> nat"             \<comment> \<open>the inode a name is bound to\<close>
  fy_data :: "nat \<Rightarrow> bytes"
  fy_next :: nat                         \<comment> \<open>the next free inode\<close>

record os_faults =
  fl_open :: "string \<Rightarrow> oserr option"
  fl_mkdir :: "string \<Rightarrow> oserr option"
  fl_remove :: "string \<Rightarrow> oserr option"
  fl_flock :: "oserr option"
  fl_stat :: "oserr option"
  fl_sync :: "oserr option"
  fl_seek :: "oserr option"

definition is_dir :: "fsys \<Rightarrow> string \<Rightarrow> bool" where
  "is_dir fs p \<longleftrightarrow> p = ''.'' \<or> p = ''/'' \<or> p \<in> set (fy_dirs fs)"

text \<open>\<open>os.OpenFile(name, O_CREATE|O_RDWR, 0444)\<close>, by a user whom the mode does not stop.\<close>

definition os_open :: "os_faults \<Rightarrow> string \<Rightarrow> fsys \<Rightarrow> oserr + nat \<times> fsys" where
  "os_open fl name fs =
     (case fl_open fl name of
        Some e \<Rightarrow> Inl e
      | None \<Rightarrow>
          (if is_dir fs name then Inl IsDirectory
           else case fy_names fs name of
             Some i \<Rightarrow> Inr (i, fs)
           | None \<Rightarrow>
               (if fy_names fs (path_Dir name) \<noteq> None then Inl NotDirectory
                else if \<not> is_dir fs (path_Dir name) then Inl NotExist
                else Inr (fy_next fs, fs\<lparr>fy_names := (fy_names fs)(name \<mapsto> fy_next fs),
                   fy_data := (fy_data fs)(fy_next fs := []), fy_next := Suc (fy_next fs)\<rparr>))))"

text \<open>\<open>os.MkdirAll\<close>: the missing parents first, then the directory itself.\<close>

function os_mkdir_all :: "os_faults \<Rightarrow> string \<Rightarrow> fsys \<Rightarrow> oserr option \<times> fsys" where
  "os_mkdir_all fl p fs =
     (if is_dir fs p then (None, fs)
      else if fy_names fs p \<noteq> None then (Some NotDirectory, fs)
      else
        (case (if path_Dir p = ''.'' \<or> path_Dir p = ''/'' then (None, fs) else os_mkdir_all fl (path_Dir p) fs) of
           (Some e, fs') \<Rightarrow> (Some e, fs')
         | (None, fs') \<Rightarrow>
             (case fl_mkdir fl p of
                Some e \<Rightarrow> (Some e, fs')
              | None \<Rightarrow> (None, fs'\<lparr>fy_dirs := p # fy_dirs fs'\<rparr>))))"
  by pat_completeness auto
termination by (relation "measure (\<lambda>(fl, p, fs). length p)") (auto intro: path_Dir_shorter)

declare os_mkdir_all.simps [simp del]

definition os_remove :: "os_faults \<Rightarrow> string \<Rightarrow> fsys \<Rightarrow> fsys" where
  "os_remove fl name fs =
     (if fl_remove fl name = None then fs\<lparr>fy_names := (fy_names fs)(name := None)\<rparr> else fs)"

section \<open>One caller\<close>

text \<open>The loop of \<open>ensure\<close>; \<open>None\<close> is a loop that does not end.\<close>

partial_function (option) ensure :: "os_faults \<Rightarrow> string \<Rightarrow> fsys \<Rightarrow> ((oserr + nat) \<times> fsys) option" where
  "ensure fl name fs =
     (case os_open fl name fs of
        Inr (i, fs') \<Rightarrow> Some (Inr i, fs')
      | Inl e \<Rightarrow>
          (if e = NotExist then
             (case os_mkdir_all fl (path_Dir name) fs of
                (Some err, fs') \<Rightarrow> Some (Inl err, fs')
              | (None, fs') \<Rightarrow> ensure fl name fs')
           else Some (Inl e, fs)))"

declare ensure.simps [code]

datatype cerr = COs oserr | CDownload derr

record stat =
  sa_Size :: nat
  sa_Ino :: nat

definition f_stat :: "os_faults \<Rightarrow> nat \<Rightarrow> fsys \<Rightarrow> oserr + stat" where
  "f_stat fl i fs =
     (case fl_stat fl of Some e \<Rightarrow> Inl e | None \<Rightarrow> Inr \<lparr>sa_Size = length (fy_data fs i), sa_Ino = i\<rparr>)"

definition check :: "'m meta_ops \<Rightarrow> os_faults \<Rightarrow> string \<Rightarrow> 'm node \<Rightarrow> fsys \<Rightarrow> ((cerr + stat) \<times> fsys) option" where
  "check ops fl cache m fs =
     (case ensure fl (cache_path cache (node_ID ops m)) fs of
        None \<Rightarrow> None
      | Some (Inl e, fs') \<Rightarrow> Some (Inl (COs e), fs')
      | Some (Inr i, fs') \<Rightarrow> Some (map_sum COs id (f_stat fl i fs'), fs'))"

text \<open>The downloader that \<open>Cache.download\<close> builds, and its run on a file: \<open>dl\<close> gives the error and
  the contents a download ends with.\<close>

definition cache_downloader :: "'m meta_ops \<Rightarrow> 'm node \<Rightarrow> downloader go" where
  "cache_downloader ops m =
     do {
       i \<leftarrow> node_Info ops m;
       ret \<lparr>dl_workers = 0, dl_blocks = node_Blocks ops m, dl_blockSize = unat (in_FileBlockSize i)\<rparr>
     }"

type_synonym download_fn = "downloader \<Rightarrow> bytes \<Rightarrow> derr option \<times> bytes"

definition cache_download ::
  "'m meta_ops \<Rightarrow> download_fn \<Rightarrow> 'm node \<Rightarrow> nat \<Rightarrow> fsys \<Rightarrow> (derr option \<times> fsys) go" where
  "cache_download ops dl m i fs =
     do {
       d \<leftarrow> cache_downloader ops m;
       let (err, data) = dl d (fy_data fs i) in ret (err, fs\<lparr>fy_data := (fy_data fs)(i := data)\<rparr>)
     }"

definition CheckAndGet ::
  "'m meta_ops \<Rightarrow> os_faults \<Rightarrow> download_fn \<Rightarrow> string \<Rightarrow> 'm node \<Rightarrow> fsys \<Rightarrow> ((cerr + nat) \<times> fsys) go option" where
  "CheckAndGet ops fl dl cache m fs =
     (let name = cache_path cache (node_ID ops m)
      in case ensure fl name fs of
        None \<Rightarrow> None
      | Some (Inl e, fs1) \<Rightarrow> Some (ret (Inl (COs e), fs1))
      | Some (Inr i, fs1) \<Rightarrow>
          (case fl_flock fl of
             Some e \<Rightarrow> Some (ret (Inl (COs e), fs1))
           | None \<Rightarrow>
               (case f_stat fl i fs1 of
                  Inl e \<Rightarrow> Some (ret (Inl (COs e), fs1))
                | Inr fstat \<Rightarrow>
                    (case node_Info ops m of
                       None \<Rightarrow> Some panic
                     | Some info \<Rightarrow>
                         (if int (sa_Size fstat) = sint (in_Size info) then Some (ret (Inr i, fs1))
                          else
                            (case cache_download ops dl m i fs1 of
                               None \<Rightarrow> Some panic
                             | Some (Some e, fs2) \<Rightarrow> Some (ret (Inl (CDownload e), os_remove fl name fs2))
                             | Some (None, fs2) \<Rightarrow>
                                 (case fl_sync fl of
                                    Some e \<Rightarrow> Some (ret (Inl (COs e), fs2))
                                  | None \<Rightarrow>
                                      (case fl_seek fl of
                                         Some e \<Rightarrow> Some (ret (Inl (COs e), fs2))
                                       | None \<Rightarrow> Some (ret (Inr i, fs2))))))))))"


section \<open>Directories and names\<close>

definition fs_wf :: "fsys \<Rightarrow> bool" where
  "fs_wf fs \<longleftrightarrow> (\<forall>n i. fy_names fs n = Some i \<longrightarrow> i < fy_next fs) \<and>
     (\<forall>n n' i. fy_names fs n = Some i \<longrightarrow> fy_names fs n' = Some i \<longrightarrow> n = n')"

definition same_files :: "fsys \<Rightarrow> fsys \<Rightarrow> bool" where
  "same_files fs fs' \<longleftrightarrow> fy_names fs' = fy_names fs \<and> fy_data fs' = fy_data fs \<and> fy_next fs' = fy_next fs"

lemma same_files_refl [simp]: "same_files fs fs"
  by (simp add: same_files_def)

lemma same_files_trans: "same_files fs fs' \<Longrightarrow> same_files fs' fs'' \<Longrightarrow> same_files fs fs''"
  by (simp add: same_files_def)

lemma os_mkdir_all_ok:
  "os_mkdir_all fl p fs = (r, fs') \<Longrightarrow>
    same_files fs fs' \<and> set (fy_dirs fs) \<subseteq> set (fy_dirs fs') \<and> (r = None \<longrightarrow> is_dir fs' p)"
proof (induction fl p fs arbitrary: r fs' rule: os_mkdir_all.induct)
  case (1 fl p fs)
  show ?case
  proof (cases "is_dir fs p \<or> fy_names fs p \<noteq> None")
    case True
    then show ?thesis using "1.prems" by (auto simp: os_mkdir_all.simps [of fl p] split: if_splits)
  next
    case False
    obtain r1 fs1 where up: "(if path_Dir p = ''.'' \<or> path_Dir p = ''/'' then (None, fs) else os_mkdir_all fl (path_Dir p) fs) = (r1, fs1)"
      by fastforce
    have IH: "same_files fs fs1 \<and> set (fy_dirs fs) \<subseteq> set (fy_dirs fs1)"
      using "1.IH" up False by (cases "path_Dir p = ''.'' \<or> path_Dir p = ''/''") auto
    have "os_mkdir_all fl p fs =
        (case r1 of Some e \<Rightarrow> (Some e, fs1)
         | None \<Rightarrow> (case fl_mkdir fl p of Some e \<Rightarrow> (Some e, fs1) | None \<Rightarrow> (None, fs1\<lparr>fy_dirs := p # fy_dirs fs1\<rparr>)))"
      unfolding os_mkdir_all.simps [of fl p] up using False by (simp split: option.split)
    then show ?thesis
      using IH "1.prems" by (auto simp: same_files_def is_dir_def split: option.splits)
  qed
qed

lemma os_open_after_mkdir:
  assumes "os_mkdir_all fl (path_Dir name) fs = (None, fs')" "fl_open fl name \<noteq> Some NotExist"
  shows "os_open fl name fs' \<noteq> Inl NotExist"
  using os_mkdir_all_ok [OF assms(1)] assms(2) by (auto simp: os_open_def split: option.splits)

text \<open>A file that was opened: created empty when it was missing, otherwise left as it is.\<close>

definition opened :: "string \<Rightarrow> fsys \<Rightarrow> nat \<Rightarrow> fsys \<Rightarrow> bool" where
  "opened name fs i fs' \<longleftrightarrow> fy_names fs' = (fy_names fs)(name \<mapsto> i) \<and>
     (case fy_names fs name of
        None \<Rightarrow> i = fy_next fs \<and> fy_next fs' = Suc i \<and> fy_data fs' = (fy_data fs)(i := [])
      | Some j \<Rightarrow> i = j \<and> fy_next fs' = fy_next fs \<and> fy_data fs' = fy_data fs)"

lemma os_open_opened: "os_open fl name fs = Inr (i, fs') \<Longrightarrow> opened name fs i fs'"
  by (auto simp: os_open_def opened_def split: option.splits if_splits)

lemma opened_same: "same_files fs fs1 \<Longrightarrow> opened name fs1 i fs' \<Longrightarrow> opened name fs i fs'"
  by (cases "fy_names fs name") (simp_all add: opened_def same_files_def)

definition ensured :: "string \<Rightarrow> fsys \<Rightarrow> (oserr + nat) \<times> fsys \<Rightarrow> bool" where
  "ensured name fs y \<longleftrightarrow> (case fst y of Inl e \<Rightarrow> same_files fs (snd y) | Inr i \<Rightarrow> opened name fs i (snd y))"

lemma ensured_same: "same_files fs fs1 \<Longrightarrow> ensured name fs1 y \<Longrightarrow> ensured name fs y"
  by (cases "fst y") (auto simp: ensured_def intro: same_files_trans opened_same)

lemma ensure_opened:
  assumes "ensure fl name fs = Some y"
  shows "ensured name fs y"
proof (rule ensure.raw_induct [where P = "\<lambda>fl name fs y. ensured name fs y", OF _ assms])
  fix ens fl name fs y
  assume 1: "\<And>name fs b y. ens name fs b = Some y \<Longrightarrow> ensured fs b y"
    and 2: "(case os_open fl name fs of
        Inl e \<Rightarrow>
          if e = NotExist
          then case os_mkdir_all fl (path_Dir name) fs of
               (None, fs') \<Rightarrow> ens fl name fs'
             | (Some err, fs') \<Rightarrow> Some (Inl err, fs')
          else Some (Inl e, fs)
      | Inr (i, fs') \<Rightarrow> Some (Inr i, fs')) = Some y"
  show "ensured name fs y"
  proof (cases "os_open fl name fs")
    case (Inr x)
    then show ?thesis using 2 os_open_opened [of fl name fs] by (cases x) (auto simp: ensured_def)
  next
    case (Inl e)
    obtain r1 fs1 where m: "os_mkdir_all fl (path_Dir name) fs = (r1, fs1)" by fastforce
    note same = os_mkdir_all_ok [OF m]
    show ?thesis
    proof (cases "e = NotExist \<and> r1 = None")
      case True
      then have "ens fl name fs1 = Some y" using 2 Inl m by simp
      from 1 [OF this] show ?thesis using same ensured_same by blast
    next
      case False
      then show ?thesis using 2 Inl m same by (auto simp: ensured_def split: if_splits option.splits)
    qed
  qed
qed

text \<open>When the parent directory exists after all and the call still reports a missing file, the loop
  goes round for ever.\<close>

lemma ensure_stuck:
  assumes "ensure fl name fs = Some y"
  shows "\<not> (fl_open fl name = Some NotExist \<and> is_dir fs (path_Dir name))"
proof (rule ensure.raw_induct
    [where P = "\<lambda>fl name fs y. \<not> (fl_open fl name = Some NotExist \<and> is_dir fs (path_Dir name))", OF _ assms])
  fix ens fl name fs y
  assume 1: "\<And>name fs b y. ens name fs b = Some y \<Longrightarrow> \<not> (fl_open name fs = Some NotExist \<and> is_dir b (path_Dir fs))"
    and 2: "(case os_open fl name fs of
        Inl e \<Rightarrow>
          if e = NotExist
          then case os_mkdir_all fl (path_Dir name) fs of
               (None, fs') \<Rightarrow> ens fl name fs'
             | (Some err, fs') \<Rightarrow> Some (Inl err, fs')
          else Some (Inl e, fs)
      | Inr (i, fs') \<Rightarrow> Some (Inr i, fs')) = Some y"
  show "\<not> (fl_open fl name = Some NotExist \<and> is_dir fs (path_Dir name))"
  proof
    assume a: "fl_open fl name = Some NotExist \<and> is_dir fs (path_Dir name)"
    then have "os_open fl name fs = Inl NotExist" "os_mkdir_all fl (path_Dir name) fs = (None, fs)"
      by (simp_all add: os_open_def os_mkdir_all.simps [of fl "path_Dir name"])
    then have "ens fl name fs = Some y" using 2 by simp
    then show False using 1 a by blast
  qed
qed

section \<open>What a download leaves in the file\<close>

text \<open>\<open>may_end cr may d f r f'\<close>: a download into a file with the contents \<open>f\<close> may return \<open>r\<close>, or be
  killed before it returns when \<open>r\<close> is \<open>None\<close>, and leave the contents \<open>f'\<close>.\<close>

definition may_end ::
  "crypto \<Rightarrow> (bytes \<Rightarrow> derr + bytes \<Rightarrow> bool) \<Rightarrow> downloader \<Rightarrow> bytes \<Rightarrow> derr option option \<Rightarrow> bytes \<Rightarrow> bool" where
  "may_end cr may d f r f' \<longleftrightarrow>
     (case Download d f of
        Inl e \<Rightarrow> r = Some (Some e) \<and> f' = f
      | Inr s0 \<Rightarrow> \<exists>ws s. dl_run cr may d s0 ws s \<and> ds_ret s = r \<and> ds_file s = f')"

text \<open>\<open>the_content cr may d data\<close>: \<open>data\<close> is the file the blocks describe. Every block but the last is
  full, and whatever the storage answers, only the genuine block has the right digest.\<close>

definition the_content :: "crypto \<Rightarrow> (bytes \<Rightarrow> derr + bytes \<Rightarrow> bool) \<Rightarrow> downloader \<Rightarrow> bytes \<Rightarrow> bool" where
  "the_content cr may d data \<longleftrightarrow>
     (\<exists>raws. data = concat raws \<and> length raws = length (dl_blocks d) \<and> full_blocks (dl_blockSize d) raws \<and>
        (\<forall>i ans raw. i < length raws \<longrightarrow> may (bi_Key (dl_blocks d ! i)) ans \<longrightarrow>
           downloadBlock cr (dl_blocks d ! i) ans = Inr raw \<longrightarrow> raw = raws ! i))"

lemma may_end_content:
  assumes "may_end cr may d f (Some None) f'" "the_content cr may d data" "length f \<le> length data"
  shows "f' = data"
proof -
  obtain s0 ws s where run: "Download d f = Inr s0" "dl_run cr may d s0 ws s" "ds_ret s = Some None" "ds_file s = f'"
    using assms(1) by (auto simp: may_end_def split: sum.splits)
  obtain raws where raws: "data = concat raws" "length raws = length (dl_blocks d)" "full_blocks (dl_blockSize d) raws"
    "\<And>i ans raw. i < length raws \<Longrightarrow> may (bi_Key (dl_blocks d ! i)) ans \<Longrightarrow>
       downloadBlock cr (dl_blocks d ! i) ans = Inr raw \<Longrightarrow> raw = raws ! i"
    using assms(2) unfolding the_content_def by blast
  obtain got where got: "length got = length (dl_blocks d)"
    "\<forall>i<length got. cr_blake cr (got ! i) = bi_Decipher (dl_blocks d ! i) \<and>
       (\<exists>ans. may (bi_Key (dl_blocks d ! i)) ans \<and> downloadBlock cr (dl_blocks d ! i) ans = Inr (got ! i))"
    "full_blocks (dl_blockSize d) got \<and> length f \<le> length (concat got) \<longrightarrow> ds_file s = concat got"
    using download_content [OF run(1-3)] by blast
  have "got = raws" using got(1,2) raws(2,4) by (intro nth_equalityI) auto
  then show ?thesis using got(3) raws(1,3) assms(3) run(4) by simp
qed


text \<open>However a download ends, it has only written beginnings of genuine blocks in their places.\<close>

lemma run_writes:
  assumes "dl_run cr may d (started d f) ws s"
  shows "\<exists>vs. ds_file s = apply_writes (dl_blockSize d) vs f \<and>
    (\<forall>k x. (k, x) \<in> set vs \<longrightarrow> k < length (dl_blocks d) \<and> (\<exists>raw j. genuine cr may d k raw \<and> x = take j raw))"
  using assms
proof (induction "started d f" ws s rule: dl_run.induct)
  case none
  show ?case by (intro exI [of _ "[]"]) (simp add: apply_writes_def started_def)
next
  case (snoc ws s w s')
  then obtain vs where vs: "ds_file s = apply_writes (dl_blockSize d) vs f"
    "\<forall>k x. (k, x) \<in> set vs \<longrightarrow> k < length (dl_blocks d) \<and> (\<exists>raw j. genuine cr may d k raw \<and> x = take j raw)" by blast
  have inv: "dl_inv cr may d f ws s" using dl_run_inv [OF snoc.hyps(1)] started_inv by blast
  have "in_range d (started d f)" by (simp add: in_range_def started_def list_all_iff)
  then have rng: "in_range d s" by (rule in_range_run [OF snoc.hyps(1)])
  have sending: "k < length (dl_blocks d) \<and> genuine cr may d k raw"
    if "i < length (ds_workers s)" "ds_workers s ! i = Sending k raw" for i k raw
    using dl_invD(3) [OF inv] in_range_nth [OF rng that(1)] that by (fastforce simp: list_all_length)
  have more: ?case
    if "ds_workers s ! i = Sending k raw" "i < length (ds_workers s)"
      "ds_file s' = write_at (k * dl_blockSize d) (take j raw) (ds_file s)" for i k raw j
    using vs that sending [OF that(2,1)]
    by (intro exI [of _ "vs @ [(k, take j raw)]"]) (auto simp: apply_writes_snoc)
  from snoc.hyps(3) show ?case
  proof (cases rule: dl_step.cases)
    case (written i k raw)
    then show ?thesis using more [of i k raw "length raw"] by simp
  next
    case (unwritten i k raw j m)
    then show ?thesis using more [of i k raw j] by simp
  qed (use vs in auto)
qed

section \<open>The invariant of the cache\<close>

text \<open>\<open>want\<close> gives the contents that belong under a name. A cached file has them or is shorter.\<close>

definition cache_holds :: "(string \<rightharpoonup> bytes) \<Rightarrow> fsys \<Rightarrow> bool" where
  "cache_holds want fs \<longleftrightarrow>
     (\<forall>n i data. fy_names fs n = Some i \<longrightarrow> want n = Some data \<longrightarrow>
        fy_data fs i = data \<or> length (fy_data fs i) < length data)"

lemma cache_holdsD:
  "cache_holds want fs \<Longrightarrow> fy_names fs n = Some i \<Longrightarrow> want n = Some data \<Longrightarrow>
    fy_data fs i = data \<or> length (fy_data fs i) < length data"
  by (simp add: cache_holds_def)

lemma fs_wfD: "fs_wf fs \<Longrightarrow> fy_names fs n = Some i \<Longrightarrow> i < fy_next fs"
  and fs_wf_inj: "fs_wf fs \<Longrightarrow> fy_names fs n = Some i \<Longrightarrow> fy_names fs n' = Some i \<Longrightarrow> n = n'"
  unfolding fs_wf_def by blast+

lemma same_files_wf: "same_files fs fs' \<Longrightarrow> fs_wf fs' = fs_wf fs" "same_files fs fs' \<Longrightarrow> cache_holds want fs' = cache_holds want fs"
  by (simp_all add: same_files_def fs_wf_def cache_holds_def)

lemma opened_wf:
  assumes "opened name fs i fs'" "fs_wf fs"
  shows "fs_wf fs'"
proof (cases "fy_names fs name")
  case None
  then have *: "fy_names fs' = (fy_names fs)(name \<mapsto> i)" "i = fy_next fs" "fy_next fs' = Suc i"
    using assms(1) by (simp_all add: opened_def)
  have fresh: "fy_names fs n \<noteq> Some (fy_next fs)" for n using fs_wfD [OF assms(2), of n] by auto
  have "j < fy_next fs'" if "fy_names fs' n = Some j" for n j
    using that fs_wfD [OF assms(2), of n j] * by (auto split: if_splits)
  moreover have "n = n'" if "fy_names fs' n = Some j" "fy_names fs' n' = Some j" for n n' j
    using that fs_wf_inj [OF assms(2), of n j n'] * fresh by (auto split: if_splits)
  ultimately show ?thesis unfolding fs_wf_def by blast
next
  case (Some j)
  then have "fy_names fs' = fy_names fs" "fy_next fs' = fy_next fs" using assms(1) by (auto simp: opened_def)
  then show ?thesis using assms(2) by (simp add: fs_wf_def)
qed

lemma opened_holds:
  assumes "opened name fs i fs'" "fs_wf fs" "cache_holds want fs"
  shows "cache_holds want fs'"
proof (cases "fy_names fs name")
  case None
  then have *: "fy_names fs' = (fy_names fs)(name \<mapsto> i)" "i = fy_next fs" "fy_data fs' = (fy_data fs)(i := [])"
    using assms(1) by (simp_all add: opened_def)
  have "fy_data fs' j = data \<or> length (fy_data fs' j) < length data"
    if j: "fy_names fs' n = Some j" "want n = Some data" for n j data
  proof (cases "n = name")
    case False
    then have "fy_names fs n = Some j" using j * by simp
    then have "j \<noteq> i" "fy_data fs j = data \<or> length (fy_data fs j) < length data"
      using fs_wfD [OF assms(2)] cache_holdsD [OF assms(3)] j(2) * by fastforce+
    then show ?thesis using * by simp
  qed (use j * in auto)
  then show ?thesis unfolding cache_holds_def by blast
next
  case (Some j)
  then have "fy_names fs' = fy_names fs" "fy_data fs' = fy_data fs" using assms(1) by (auto simp: opened_def)
  then show ?thesis using assms(3) by (simp add: cache_holds_def)
qed

lemma wrote_holds:
  assumes "fs_wf fs" "cache_holds want fs" "fy_names fs name = Some i"
    and "\<And>data. want name = Some data \<Longrightarrow> f = data \<or> length f < length data"
  shows "cache_holds want (fs\<lparr>fy_data := (fy_data fs)(i := f)\<rparr>)"
  using assms(2,4) fs_wf_inj [OF assms(1,3)] by (auto simp: cache_holds_def)

lemma removed_holds:
  assumes "fs_wf fs" "cache_holds want fs" "fy_names fs name = Some i"
  shows "cache_holds want (fs\<lparr>fy_data := (fy_data fs)(i := f), fy_names := (fy_names fs)(name := None)\<rparr>)"
  using assms(2) fs_wf_inj [OF assms(1,3)] by (auto simp: cache_holds_def)

lemma removed_wf: "fs_wf fs \<Longrightarrow> fs_wf (fs\<lparr>fy_data := g, fy_names := (fy_names fs)(name := None)\<rparr>)"
  unfolding fs_wf_def by (auto split: if_splits)

lemma data_wf: "fs_wf (fs\<lparr>fy_data := g\<rparr>) = fs_wf fs"
  by (simp add: fs_wf_def)

text \<open>What the metadata says of a file, and what runs of its download may do.\<close>

definition describes ::
  "'m meta_ops \<Rightarrow> 'm node \<Rightarrow> crypto \<Rightarrow> (bytes \<Rightarrow> derr + bytes \<Rightarrow> bool) \<Rightarrow> downloader \<Rightarrow> bytes \<Rightarrow> bool" where
  "describes ops m cr may d data \<longleftrightarrow> cache_downloader ops m = ret d \<and> the_content cr may d data \<and>
     (\<forall>i. node_Info ops m = ret i \<longrightarrow> sint (in_Size i) = int (length data))"

definition downloads_by :: "crypto \<Rightarrow> (bytes \<Rightarrow> derr + bytes \<Rightarrow> bool) \<Rightarrow> downloader \<Rightarrow> download_fn \<Rightarrow> bool" where
  "downloads_by cr may d dl \<longleftrightarrow> (\<forall>f. may_end cr may d f (Some (fst (dl d f))) (snd (dl d f)))"

text \<open>The branches of \<open>CheckAndGet\<close> once the file is open.\<close>

lemma CheckAndGet_cases:
  assumes "CheckAndGet ops fl dl cache m fs = Some (ret (r, fs'))"
  obtains (closed) e fs1 where "ensure fl (cache_path cache (node_ID ops m)) fs = Some (Inl e, fs1)" "r = Inl (COs e)" "fs' = fs1"
  | (fault) i e where "opened (cache_path cache (node_ID ops m)) fs i fs'" "r = Inl (COs e)"
  | (hit) i info where "ensure fl (cache_path cache (node_ID ops m)) fs = Some (Inr i, fs')" "node_Info ops m = ret info"
      "int (length (fy_data fs' i)) = sint (in_Size info)" "r = Inr i" "fl_flock fl = None" "fl_stat fl = None"
  | (failed) i fs1 fs2 e where "ensure fl (cache_path cache (node_ID ops m)) fs = Some (Inr i, fs1)"
      "cache_download ops dl m i fs1 = ret (Some e, fs2)" "r = Inl (CDownload e)"
      "fs' = os_remove fl (cache_path cache (node_ID ops m)) fs2"
      "\<exists>info. node_Info ops m = ret info \<and> int (length (fy_data fs1 i)) \<noteq> sint (in_Size info)"
  | (fetched) i fs1 where "ensure fl (cache_path cache (node_ID ops m)) fs = Some (Inr i, fs1)"
      "cache_download ops dl m i fs1 = ret (None, fs')" "r = Inr i \<or> (\<exists>e. r = Inl (COs e))"
      "fl_flock fl = None" "fl_stat fl = None"
      "\<exists>info. node_Info ops m = ret info \<and> int (length (fy_data fs1 i)) \<noteq> sint (in_Size info)"
proof -
  let ?name = "cache_path cache (node_ID ops m)"
  obtain x fs1 where en: "ensure fl ?name fs = Some (x, fs1)"
    using assms unfolding CheckAndGet_def Let_def by (auto split: option.splits)
  note ens = ensure_opened [OF en]
  show thesis
  proof (cases x)
    case (Inl e)
    then show thesis using closed en assms by (simp add: CheckAndGet_def)
  next
    case (Inr i)
    then have op: "opened ?name fs i fs1" using ens by (simp add: ensured_def)
    show thesis
    proof (cases "fl_flock fl = None \<and> fl_stat fl = None")
      case False
      then show thesis
        using fault [of i] op assms en Inr by (auto simp: CheckAndGet_def f_stat_def split: option.splits)
    next
      case True
      then obtain info where info: "node_Info ops m = ret info"
        using assms en Inr by (auto simp: CheckAndGet_def f_stat_def split: option.splits)
      show thesis
      proof (cases "int (length (fy_data fs1 i)) = sint (in_Size info)")
        case eq: True
        then show thesis using hit [of i info] assms en Inr True info by (simp add: CheckAndGet_def f_stat_def)
      next
        case neq: False
        then obtain err fs2 where dl: "cache_download ops dl m i fs1 = ret (err, fs2)"
          using assms en Inr True info by (auto simp: CheckAndGet_def f_stat_def split: option.splits)
        show thesis
        proof (cases err)
          case None
          then have "fs' = fs2" "r = Inr i \<or> (\<exists>e. r = Inl (COs e))"
            using assms en Inr True info neq dl by (auto simp: CheckAndGet_def f_stat_def split: option.splits)
          then show thesis using fetched [of i fs1] en Inr dl None True info neq by simp
        next
          case (Some e)
          then show thesis using failed [of i fs1 e fs2] assms en Inr True info neq dl by (simp add: CheckAndGet_def f_stat_def)
        qed
      qed
    qed
  qed
qed


lemma cache_download_ok:
  assumes "cache_download ops dl m i fs = ret (err, fs')" "describes ops m cr may d data" "downloads_by cr may d dl"
  shows "\<exists>f. fs' = fs\<lparr>fy_data := (fy_data fs)(i := f)\<rparr> \<and> (err = None \<longrightarrow> length (fy_data fs i) \<le> length data \<longrightarrow> f = data)"
proof -
  have d: "cache_downloader ops m = ret d" "the_content cr may d data" using assms(2) by (simp_all add: describes_def)
  obtain e f where ef: "dl d (fy_data fs i) = (e, f)" by fastforce
  have "may_end cr may d (fy_data fs i) (Some e) f"
    using assms(3) ef unfolding downloads_by_def by (metis fst_conv snd_conv)
  then show ?thesis
    using assms(1) d ef may_end_content [of cr may d "fy_data fs i" f data]
    by (auto simp: cache_download_def)
qed

lemma CheckAndGet_sound_aux:
  assumes "CheckAndGet ops fl dl cache m fs = Some (ret (r, fs'))"
    and "describes ops m cr may d data" "downloads_by cr may d dl" "fs_wf fs" "cache_holds want fs"
    and "want (cache_path cache (node_ID ops m)) = Some data" "fl_remove fl (cache_path cache (node_ID ops m)) = None"
  shows "fs_wf fs' \<and> cache_holds want fs' \<and>
    (\<forall>i. r = Inr i \<longrightarrow> fy_names fs' (cache_path cache (node_ID ops m)) = Some i \<and> fy_data fs' i = data \<and>
       fl_flock fl = None \<and> fl_stat fl = None) \<and>
    (\<forall>e. r = Inl (CDownload e) \<longrightarrow> fy_names fs' (cache_path cache (node_ID ops m)) = None)"
proof -
  let ?name = "cache_path cache (node_ID ops m)"
  have open_ok: "fs_wf fs1 \<and> cache_holds want fs1 \<and> fy_names fs1 ?name = Some i \<and>
      (fy_data fs1 i = data \<or> length (fy_data fs1 i) < length data)"
    if "opened ?name fs i fs1" for i fs1
  proof -
    have "fs_wf fs1" "cache_holds want fs1"
      using opened_wf [OF that assms(4)] opened_holds [OF that assms(4,5)] .
    moreover have "fy_names fs1 ?name = Some i" using that by (simp add: opened_def)
    ultimately show ?thesis using cache_holdsD assms(6) by blast
  qed
  from assms(1) show ?thesis
  proof (cases rule: CheckAndGet_cases)
    case (closed e fs1)
    then have "same_files fs fs'" using ensure_opened [OF closed(1)] by (simp add: ensured_def)
    then show ?thesis using assms(4,5) same_files_wf closed by auto
  next
    case (fault i e)
    then show ?thesis using open_ok [OF fault(1)] by simp
  next
    case (hit i info)
    then have "opened ?name fs i fs'" using ensure_opened [OF hit(1)] by (simp add: ensured_def)
    moreover have "length (fy_data fs' i) = length data" using hit(2,3) assms(2) by (auto simp: describes_def)
    ultimately show ?thesis using open_ok [of i fs'] hit by auto
  next
    case (failed i fs1 fs2 e)
    then have "opened ?name fs i fs1" using ensure_opened [OF failed(1)] by (simp add: ensured_def)
    then have o: "fs_wf fs1" "cache_holds want fs1" "fy_names fs1 ?name = Some i" using open_ok by blast+
    obtain f where f: "fs2 = fs1\<lparr>fy_data := (fy_data fs1)(i := f)\<rparr>"
      using cache_download_ok [OF failed(2) assms(2,3)] by blast
    have "fs' = fs1\<lparr>fy_data := (fy_data fs1)(i := f), fy_names := (fy_names fs1)(?name := None)\<rparr>"
      using failed(4) f assms(7) by (simp add: os_remove_def)
    then show ?thesis using failed(3) removed_holds [OF o] removed_wf [OF o(1)] by simp
  next
    case (fetched i fs1)
    then have "opened ?name fs i fs1" using ensure_opened [OF fetched(1)] by (simp add: ensured_def)
    then have o: "fs_wf fs1" "cache_holds want fs1" "fy_names fs1 ?name = Some i" "length (fy_data fs1 i) \<le> length data"
      using open_ok [of i fs1] by auto
    obtain f where f: "fs' = fs1\<lparr>fy_data := (fy_data fs1)(i := f)\<rparr>" "f = data"
      using cache_download_ok [OF fetched(2) assms(2,3)] o(4) by blast
    have "cache_holds want fs'" unfolding f(1) using f(2) assms(6) by (intro wrote_holds [OF o(1-3)]) simp
    then show ?thesis using f fetched(3-5) o(1,3) by (auto simp: data_wf)
  qed
qed

text \<open>A complete cached file is opened without a download.\<close>

lemma ensure_existing:
  assumes "fy_names fs name = Some i" "fl_open fl name = None" "\<not> is_dir fs name"
  shows "ensure fl name fs = Some (Inr i, fs)"
  using assms by (subst ensure.simps) (simp add: os_open_def)

lemma CheckAndGet_hit:
  assumes "ensure fl (cache_path cache (node_ID ops m)) fs = Some (Inr i, fs)"
    and "fl_flock fl = None" "fl_stat fl = None"
    and "node_Info ops m = ret info" "int (length (fy_data fs i)) = sint (in_Size info)"
  shows "CheckAndGet ops fl dl cache m fs = Some (ret (Inr i, fs))"
  using assms by (simp add: CheckAndGet_def f_stat_def)

text \<open>An open that succeeded finds the file again.\<close>

definition settled :: "os_faults \<Rightarrow> string \<Rightarrow> (oserr + nat) \<times> fsys \<Rightarrow> bool" where
  "settled fl name y \<longleftrightarrow> (\<forall>i. fst y = Inr i \<longrightarrow>
     fl_open fl name = None \<and> \<not> is_dir (snd y) name \<and> fy_names (snd y) name = Some i)"

lemma ensure_again:
  assumes "ensure fl name fs = Some (Inr i, fs1)" "fy_names fs2 = fy_names fs1" "fy_dirs fs2 = fy_dirs fs1"
  shows "ensure fl name fs2 = Some (Inr i, fs2)"
proof -
  have "settled fl name (Inr i, fs1)"
  proof (rule ensure.raw_induct [where P = "\<lambda>fl name fs y. settled fl name y", OF _ assms(1)])
    fix ens :: "os_faults \<Rightarrow> string \<Rightarrow> fsys \<Rightarrow> ((oserr + nat) \<times> fsys) option" and fl name fs y
    assume 1: "\<And>name fs b y. ens name fs b = Some y \<Longrightarrow> settled name fs y"
      and 2: "(case os_open fl name fs of
        Inl e \<Rightarrow>
          if e = NotExist
          then case os_mkdir_all fl (path_Dir name) fs of
               (None, fs') \<Rightarrow> ens fl name fs'
             | (Some err, fs') \<Rightarrow> Some (Inl err, fs')
          else Some (Inl e, fs)
      | Inr (i, fs') \<Rightarrow> Some (Inr i, fs')) = Some y"
    show "settled fl name y"
    proof (cases "os_open fl name fs")
      case (Inr x)
      then show ?thesis using 2 by (auto simp: settled_def os_open_def is_dir_def split: option.splits if_splits)
    next
      case (Inl e)
      then show ?thesis using 2 1 by (auto simp: settled_def split: if_splits option.splits prod.splits)
    qed
  qed
  then have "fl_open fl name = None" "\<not> is_dir fs1 name" "fy_names fs1 name = Some i" by (simp_all add: settled_def)
  then show ?thesis using assms(2,3) by (intro ensure_existing) (auto simp: is_dir_def)
qed


section \<open>Properties\<close>


text \<open>One block, kept by a storage that answers with its key.\<close>

definition one_block :: downloader where
  "one_block = \<lparr>dl_workers = 0, dl_blocks = [\<lparr>bi_Key = [7], bi_Decipher = [7]\<rparr>], dl_blockSize = 4096\<rparr>"

definition plain_file :: info where
  "plain_file = \<lparr>in_CreationTime = 1, in_ModificationTime = 2, in_Access = \<lparr>ac_UID = 3, ac_GID = 4, ac_Mode = 0x1A4\<rparr>,
     in_Type = RegularType, in_Size = 1, in_LinkTarget = [], in_FileBlockSize = 4096, in_SpecialData = []\<rparr>"

definition file_ops :: "unit meta_ops" where
  "file_ops = \<lparr>mo_Name = (\<lambda>_. ret ''f''), mo_IsDir = (\<lambda>_. False), mo_Children = (\<lambda>_. ret []),
     mo_Info = (\<lambda>_. ret plain_file), mo_Blocks = (\<lambda>_. dl_blocks one_block), mo_ID = (\<lambda>_. ''abcd'')\<rparr>"

definition no_faults :: os_faults where
  "no_faults = \<lparr>fl_open = (\<lambda>_. None), fl_mkdir = (\<lambda>_. None), fl_remove = (\<lambda>_. None), fl_flock = None,
     fl_stat = None, fl_sync = None, fl_seek = None\<rparr>"

definition empty_fs :: fsys where
  "empty_fs = \<lparr>fy_dirs = [], fy_names = Map.empty, fy_data = (\<lambda>_. []), fy_next = 0\<rparr>"

definition write_seven :: download_fn where
  "write_seven d f = (None, write_at 0 [7] f)"

lemma toy_block: "downloadBlock toy \<lparr>bi_Key = k, bi_Decipher = v\<rparr> (Inr v) = Inr v"
  by (simp add: toy_def downloadBlock_def)

text \<open>A download of one block, step by step.\<close>

lemma single_run:
  assumes "d = \<lparr>dl_workers = 0, dl_blocks = [\<lparr>bi_Key = key, bi_Decipher = v\<rparr>], dl_blockSize = 4096\<rparr>" "may key (Inr v)"
  shows "may_end toy may d f (Some None) (write_at 0 v f)"
proof -
  let ?st = "\<lambda>w n feeding f. \<lparr>ds_next = n, ds_feeding = feeding, ds_workers = [w], ds_err = None, ds_file = f, ds_ret = None\<rparr>"
  let ?step = "dl_step toy may d"
  have 0: "Download d f = Inr (?st Idle 0 True f)"
    by (simp add: Download_def started_def assms(1) num_workers_def DefaultDownloadWorkers_def)
  have 1: "?step (?st Idle 0 True f) None (?st (Fetching 0) 1 True f)"
    using dl_step.feed [of "?st Idle 0 True f" d 0] by (simp add: assms(1))
  have 2: "?step (?st (Fetching 0) 1 True f) None (?st (Sending 0 v) 1 True f)"
    using dl_step.fetched [of 0 "?st (Fetching 0) 1 True f" 0 may d "Inr v" toy v] assms(2)
    by (simp add: assms(1) toy_block)
  have 3: "?step (?st (Sending 0 v) 1 True f) (Some (0, v)) (?st Idle 1 True (write_at 0 v f))"
    using dl_step.written [of "?st (Sending 0 v) 1 True f" 0 0 v toy may d] by simp
  have 4: "?step (?st Idle 1 True (write_at 0 v f)) None (?st Idle 1 False (write_at 0 v f))"
    using dl_step.feed_end [of "?st Idle 1 True (write_at 0 v f)" d toy may] by (simp add: assms(1))
  have 5: "?step (?st Idle 1 False (write_at 0 v f)) None (?st Quit 1 False (write_at 0 v f))"
    using dl_step.quit [of "?st Idle 1 False (write_at 0 v f)" 0 toy may] by simp
  have 6: "?step (?st Quit 1 False (write_at 0 v f)) None ((?st Quit 1 False (write_at 0 v f))\<lparr>ds_ret := Some None\<rparr>)"
    using dl_step.finished [of "?st Quit 1 False (write_at 0 v f)" toy may d] by (simp add: worker_over_def)
  note run = dl_run.snoc [OF dl_run.snoc [OF dl_run.snoc [OF dl_run.snoc [OF dl_run.snoc [OF dl_run.snoc
    [OF dl_run.none 1] 2] 3] 4] 5] 6]
  show ?thesis unfolding may_end_def 0 using run by fastforce
qed

lemma one_block_run: "may_end toy echo one_block f (Some None) (write_at 0 [7] f)"
  by (rule single_run [where key = "[7]"]) (simp_all add: one_block_def echo_def)

lemma one_block_content: "the_content toy echo one_block [7]"
  unfolding the_content_def
  by (intro exI [of _ "[[7]]"]) (simp add: one_block_def full_blocks_def echo_def toy_block)

lemma write_seven_runs: "downloads_by toy echo one_block write_seven"
  by (simp add: downloads_by_def write_seven_def one_block_run)

lemma file_described: "describes file_ops (Plain ()) toy echo one_block [7]"
  by (simp add: describes_def cache_downloader_def node_Info_def node_Blocks_def file_ops_def plain_file_def one_block_content)
    (simp add: one_block_def)


lemma first_get:
  "map_option (map_option fst) (CheckAndGet file_ops no_faults write_seven ''/c'' (Plain ()) empty_fs) = Some (Some (Inr 0))"
  by code_simp


lemma ensure_None:
  assumes "ensure fl name fs = None"
  shows "os_open fl name fs = Inl NotExist \<and>
    (\<exists>fs1. os_mkdir_all fl (path_Dir name) fs = (None, fs1) \<and> ensure fl name fs1 = None)"
  using assms by (subst (asm) ensure.simps) (auto split: sum.splits if_splits option.splits prod.splits)

text \<open>The loop that creates a missing cache directory ends: \<open>ensure\<close> fails to return just when the
  system goes on reporting the file as missing although its directory could be made.\<close>

theorem ensure_returns:
  "ensure fl name fs = None \<longleftrightarrow>
    fl_open fl name = Some NotExist \<and> fst (os_mkdir_all fl (path_Dir name) fs) = None"
proof
  assume none: "ensure fl name fs = None"
  then obtain fs1 where fs1: "os_mkdir_all fl (path_Dir name) fs = (None, fs1)" "ensure fl name fs1 = None"
    using ensure_None by blast
  then have "os_open fl name fs1 = Inl NotExist" using ensure_None by blast
  then show "fl_open fl name = Some NotExist \<and> fst (os_mkdir_all fl (path_Dir name) fs) = None"
    using os_open_after_mkdir [OF fs1(1)] fs1(1) by auto
next
  assume a: "fl_open fl name = Some NotExist \<and> fst (os_mkdir_all fl (path_Dir name) fs) = None"
  then obtain fs1 where m: "os_mkdir_all fl (path_Dir name) fs = (None, fs1)" by (metis prod.collapse)
  then have "ensure fl name fs = ensure fl name fs1"
    using a by (subst ensure.simps) (simp add: os_open_def)
  moreover have "is_dir fs1 (path_Dir name)" using os_mkdir_all_ok [OF m] by simp
  ultimately show "ensure fl name fs = None" using ensure_stuck a by (metis not_Some_eq)
qed

end
