(* ===== verification/SharedCache.thy ===== *)
theory SharedCache
  imports Caches
begin

text \<open>
  The file cache under several callers: \<open>CheckAndGet\<close> of rofs/cache.go, run by processes
  that open the same file of the cache. The lock belongs to the open
  file: a caller that fails closes it, which gives up the lock, and removes the name afterwards. A
  killed caller gives up its lock too. \<open>ends f r f'\<close> says how a download into the contents \<open>f\<close> may
  end, as \<open>may_end\<close> does.
\<close>

section \<open>Callers\<close>

datatype caller =
    Ready
  | Opened nat           \<comment> \<open>behind \<open>ensure\<close>, waiting for the lock on the inode\<close>
  | Locked nat
  | Closed derr          \<comment> \<open>the download failed, the file is closed, the name is still there\<close>
  | Got nat              \<comment> \<open>returned the open inode\<close>
  | GaveUp

record shared =
  sh_name :: "nat option"
  sh_data :: "nat \<Rightarrow> bytes"
  sh_next :: nat
  sh_lock :: "nat \<Rightarrow> nat option"
  sh_callers :: "caller list"

inductive cache_step ::
  "(bytes \<Rightarrow> derr option option \<Rightarrow> bytes \<Rightarrow> bool) \<Rightarrow> nat \<Rightarrow> shared \<Rightarrow> shared \<Rightarrow> bool"
  for ends full where
  open_old: "c < length (sh_callers s) \<Longrightarrow> sh_callers s ! c = Ready \<Longrightarrow> sh_name s = Some i \<Longrightarrow>
    cache_step ends full s (s\<lparr>sh_callers := (sh_callers s)[c := Opened i]\<rparr>)"
| open_new: "c < length (sh_callers s) \<Longrightarrow> sh_callers s ! c = Ready \<Longrightarrow> sh_name s = None \<Longrightarrow>
    cache_step ends full s
      (s\<lparr>sh_name := Some (sh_next s), sh_data := (sh_data s)(sh_next s := []), sh_next := Suc (sh_next s),
         sh_callers := (sh_callers s)[c := Opened (sh_next s)]\<rparr>)"
| lock: "c < length (sh_callers s) \<Longrightarrow> sh_callers s ! c = Opened i \<Longrightarrow> sh_lock s i = None \<Longrightarrow>
    cache_step ends full s
      (s\<lparr>sh_lock := (sh_lock s)(i := Some c), sh_callers := (sh_callers s)[c := Locked i]\<rparr>)"
| hit: "c < length (sh_callers s) \<Longrightarrow> sh_callers s ! c = Locked i \<Longrightarrow> length (sh_data s i) = full \<Longrightarrow>
    cache_step ends full s
      (s\<lparr>sh_lock := (sh_lock s)(i := None), sh_callers := (sh_callers s)[c := Got i]\<rparr>)"
| fetched: "c < length (sh_callers s) \<Longrightarrow> sh_callers s ! c = Locked i \<Longrightarrow> length (sh_data s i) \<noteq> full \<Longrightarrow>
    ends (sh_data s i) (Some None) f \<Longrightarrow>
    cache_step ends full s
      (s\<lparr>sh_data := (sh_data s)(i := f), sh_lock := (sh_lock s)(i := None),
         sh_callers := (sh_callers s)[c := Got i]\<rparr>)"
| failed: "c < length (sh_callers s) \<Longrightarrow> sh_callers s ! c = Locked i \<Longrightarrow> length (sh_data s i) \<noteq> full \<Longrightarrow>
    ends (sh_data s i) (Some (Some e)) f \<Longrightarrow>
    cache_step ends full s
      (s\<lparr>sh_data := (sh_data s)(i := f), sh_lock := (sh_lock s)(i := None),
         sh_callers := (sh_callers s)[c := Closed e]\<rparr>)"
| killed: "c < length (sh_callers s) \<Longrightarrow> sh_callers s ! c = Locked i \<Longrightarrow> length (sh_data s i) \<noteq> full \<Longrightarrow>
    ends (sh_data s i) None f \<Longrightarrow>
    cache_step ends full s
      (s\<lparr>sh_data := (sh_data s)(i := f), sh_lock := (sh_lock s)(i := None),
         sh_callers := (sh_callers s)[c := GaveUp]\<rparr>)"
| remove: "c < length (sh_callers s) \<Longrightarrow> sh_callers s ! c = Closed e \<Longrightarrow>
    cache_step ends full s (s\<lparr>sh_name := None, sh_callers := (sh_callers s)[c := GaveUp]\<rparr>)"

inductive_cases cache_stepE: "cache_step ends full s s'"

inductive cache_reach ::
  "(bytes \<Rightarrow> derr option option \<Rightarrow> bytes \<Rightarrow> bool) \<Rightarrow> nat \<Rightarrow> shared \<Rightarrow> shared \<Rightarrow> bool"
  for ends full s0 where
  here: "cache_reach ends full s0 s0"
| there: "cache_reach ends full s0 s \<Longrightarrow> cache_step ends full s s' \<Longrightarrow> cache_reach ends full s0 s'"

definition no_callers_yet :: "nat \<Rightarrow> shared" where
  "no_callers_yet n =
     \<lparr>sh_name = None, sh_data = (\<lambda>_. []), sh_next = 0, sh_lock = (\<lambda>_. None), sh_callers = replicate n Ready\<rparr>"

text \<open>A lock is held by the caller that has it, so at most one; a file is complete or short.\<close>

definition inode_of :: "caller \<Rightarrow> nat option" where
  "inode_of c = (case c of Opened i \<Rightarrow> Some i | Locked i \<Rightarrow> Some i | Got i \<Rightarrow> Some i | _ \<Rightarrow> None)"

definition shared_inv :: "bytes \<Rightarrow> shared \<Rightarrow> bool" where
  "shared_inv data s \<longleftrightarrow>
     (\<forall>c i. c < length (sh_callers s) \<longrightarrow> sh_callers s ! c = Locked i \<longrightarrow> sh_lock s i = Some c) \<and>
     (\<forall>i. sh_data s i = data \<or> length (sh_data s i) < length data) \<and>
     (\<forall>c i. c < length (sh_callers s) \<longrightarrow> sh_callers s ! c = Got i \<longrightarrow> sh_data s i = data) \<and>
     (\<forall>c i. c < length (sh_callers s) \<longrightarrow> inode_of (sh_callers s ! c) = Some i \<longrightarrow> i < sh_next s) \<and>
     (\<forall>i. sh_name s = Some i \<longrightarrow> i < sh_next s)"


lemma shared_invD:
  assumes "shared_inv data s"
  shows "c < length (sh_callers s) \<Longrightarrow> sh_callers s ! c = Locked i \<Longrightarrow> sh_lock s i = Some c"
    and "sh_data s i = data \<or> length (sh_data s i) < length data"
    and "c < length (sh_callers s) \<Longrightarrow> sh_callers s ! c = Got i \<Longrightarrow> sh_data s i = data"
    and "c < length (sh_callers s) \<Longrightarrow> inode_of (sh_callers s ! c) = Some i \<Longrightarrow> i < sh_next s"
    and "sh_name s = Some i \<Longrightarrow> i < sh_next s"
  using assms unfolding shared_inv_def by blast+

lemma shared_invI:
  assumes "\<And>c i. c < length (sh_callers s) \<Longrightarrow> sh_callers s ! c = Locked i \<Longrightarrow> sh_lock s i = Some c"
    and "\<And>i. sh_data s i = data \<or> length (sh_data s i) < length data"
    and "\<And>c i. c < length (sh_callers s) \<Longrightarrow> sh_callers s ! c = Got i \<Longrightarrow> sh_data s i = data"
    and "\<And>c i. c < length (sh_callers s) \<Longrightarrow> inode_of (sh_callers s ! c) = Some i \<Longrightarrow> i < sh_next s"
    and "\<And>i. sh_name s = Some i \<Longrightarrow> i < sh_next s"
  shows "shared_inv data s"
  using assms unfolding shared_inv_def by blast

lemma inode_of_simps [simp]: "inode_of Ready = None" "inode_of (Opened i) = Some i" "inode_of (Locked i) = Some i"
  "inode_of (Closed e) = None" "inode_of (Got i) = Some i" "inode_of GaveUp = None"
  by (simp_all add: inode_of_def)

lemma update_other: "xs[c := x] ! c' = y \<Longrightarrow> x \<noteq> y \<Longrightarrow> xs ! c' = y"
  by (metis list_update_beyond not_le nth_list_update_eq nth_list_update_neq)

text \<open>The locked caller ends its work on the inode with the contents \<open>f\<close>.\<close>

lemma shared_inv_end:
  assumes "shared_inv data s" "c < length (sh_callers s)" "sh_callers s ! c = Locked i"
    and "f = data \<or> (length f < length data \<and> length (sh_data s i) \<noteq> length data)"
    and "inode_of x = None \<or> (x = Got i \<and> f = data)"
  shows "shared_inv data (s\<lparr>sh_data := (sh_data s)(i := f), sh_lock := (sh_lock s)(i := None),
      sh_callers := (sh_callers s)[c := x]\<rparr>)"
proof (rule shared_invI, goal_cases)
  case (1 c' j)
  then have l: "c' \<noteq> c" "c' < length (sh_callers s)"
    using assms(2,5) by auto
  then have "sh_callers s ! c' = Locked j" using 1 by simp
  note l = this l
  have "sh_lock s j = Some c'" "sh_lock s i = Some c"
    using shared_invD(1) [OF assms(1)] l assms(2,3) by blast+
  then show ?case using l(2) by auto
next
  case (2 j)
  then show ?case using shared_invD(2) [OF assms(1), of j] assms(4) by auto
next
  case (3 c' j)
  show ?case
  proof (cases "c' = c")
    case True
    then have "x = Got j" using 3 assms(2) by simp
    then show ?thesis using assms(5) by auto
  next
    case False
    then have "sh_data s j = data" using 3 shared_invD(3) [OF assms(1), of c' j] by simp
    then show ?thesis using assms(4) by auto
  qed
next
  case (4 c' j)
  then show ?case
    using shared_invD(4) [OF assms(1), of c' j] shared_invD(4) [OF assms(1), of c i] assms(2,3,5)
    by (cases "c' = c") auto
next
  case (5 j)
  then show ?case using shared_invD(5) [OF assms(1)] by simp
qed

text \<open>What the ends of a download must be: right when there is no error, short when there is one.\<close>

definition ends_ok :: "(bytes \<Rightarrow> derr option option \<Rightarrow> bytes \<Rightarrow> bool) \<Rightarrow> bytes \<Rightarrow> bool" where
  "ends_ok ends data \<longleftrightarrow>
     (\<forall>f r f'. length f < length data \<longrightarrow> ends f r f' \<longrightarrow>
        f' = data \<or> (r \<noteq> Some None \<and> length f' < length data))"

lemma ends_okD:
  "ends_ok ends data \<Longrightarrow> length f < length data \<Longrightarrow> ends f r f' \<Longrightarrow>
    f' = data \<or> (r \<noteq> Some None \<and> length f' < length data)"
  unfolding ends_ok_def by blast

lemma inv_open_new:
  assumes "shared_inv data s"
  shows "shared_inv data
    (s\<lparr>sh_name := Some (sh_next s), sh_data := (sh_data s)(sh_next s := []), sh_next := Suc (sh_next s),
       sh_callers := (sh_callers s)[c := Opened (sh_next s)]\<rparr>)"
proof -
  note I = shared_invD [OF assms]
  have old: "i < sh_next s" if "c' < length (sh_callers s)" "inode_of (sh_callers s ! c') = Some i" for c' i
    using I(4) that by blast
  show ?thesis
  proof (rule shared_invI, goal_cases)
    case (1 c' j)
    then show ?case using I(1) [of c' j] by (auto dest!: update_other)
  next
    case (2 j)
    then show ?case using I(2) [of j] by auto
  next
    case (3 c' j)
    then have "c' < length (sh_callers s)" "sh_callers s ! c' = Got j" by (auto dest!: update_other)
    then show ?case using I(3) [of c' j] old [of c' j] by simp
  next
    case (4 c' j)
    then show ?case using old [of c' j] by (cases "c' = c") auto
  next
    case (5 j)
    then show ?case by simp
  qed
qed

lemma inv_lock:
  assumes "shared_inv data s" "c < length (sh_callers s)" "sh_callers s ! c = Opened i" "sh_lock s i = None"
  shows "shared_inv data (s\<lparr>sh_lock := (sh_lock s)(i := Some c), sh_callers := (sh_callers s)[c := Locked i]\<rparr>)"
proof -
  note I = shared_invD [OF assms(1)]
  show ?thesis
  proof (rule shared_invI, goal_cases)
    case (1 c' j)
    show ?case
    proof (cases "c' = c")
      case True
      then show ?thesis using 1 assms(2) by simp
    next
      case False
      then have "sh_lock s j = Some c'" using 1 I(1) [of c' j] by simp
      then show ?thesis using assms(4) by auto
    qed
  next
    case (2 j)
    then show ?case using I(2) [of j] by simp
  next
    case (3 c' j)
    then show ?case using I(3) [of c' j] by (auto dest!: update_other)
  next
    case (4 c' j)
    then show ?case using I(4) [of c' j] I(4) [of c i] assms(2,3) by (cases "c' = c") auto
  next
    case (5 j)
    then show ?case using I(5) by simp
  qed
qed

lemma cache_step_inv:
  assumes "cache_step ends (length data) s s'" "shared_inv data s" "ends_ok ends data"
  shows "shared_inv data s'"
  using assms(1)
proof (cases rule: cache_step.cases)
  case (open_old c i)
  note I = shared_invD [OF assms(2)]
  have up: "inode_of ((sh_callers s)[c := Opened i] ! c') = Some j \<Longrightarrow> j < sh_next s"
    if "c' < length (sh_callers s)" for c' j
    using I(4) [of c' j] I(5) open_old that by (cases "c' = c") auto
  show ?thesis unfolding open_old(1)
    by (rule shared_invI) (use I up in \<open>auto dest!: update_other\<close>)
next
  case (open_new c)
  then show ?thesis using inv_open_new [OF assms(2)] by simp
next
  case (lock c i)
  then show ?thesis using inv_lock [OF assms(2)] by simp
next
  case (hit c i)
  then have whole: "sh_data s i = data" using shared_invD(2) [OF assms(2), of i] by auto
  have "shared_inv data (s\<lparr>sh_data := (sh_data s)(i := data), sh_lock := (sh_lock s)(i := None),
      sh_callers := (sh_callers s)[c := Got i]\<rparr>)"
    using hit by (intro shared_inv_end [OF assms(2)]) auto
  moreover have "(sh_data s)(i := data) = sh_data s" using whole by auto
  ultimately show ?thesis using hit(1) by simp
next
  case (fetched c i f)
  then have "length (sh_data s i) < length data" using shared_invD(2) [OF assms(2), of i] by auto
  then have "f = data" using ends_okD [OF assms(3) _ fetched(5)] by simp
  then show ?thesis unfolding fetched(1) using fetched by (intro shared_inv_end [OF assms(2)]) auto
next
  case (failed c i e f)
  then have l: "length (sh_data s i) < length data" using shared_invD(2) [OF assms(2), of i] by auto
  then have "f = data \<or> length f < length data" using ends_okD [OF assms(3) _ failed(5)] by blast
  then show ?thesis unfolding failed(1) using failed l by (intro shared_inv_end [OF assms(2)]) auto
next
  case (killed c i f)
  then have l: "length (sh_data s i) < length data" using shared_invD(2) [OF assms(2), of i] by auto
  then have "f = data \<or> length f < length data" using ends_okD [OF assms(3) _ killed(5)] by blast
  then show ?thesis unfolding killed(1) using killed l by (intro shared_inv_end [OF assms(2)]) auto
next
  case (remove c e)
  note I = shared_invD [OF assms(2)]
  have up: "inode_of ((sh_callers s)[c := GaveUp] ! c') = Some j \<Longrightarrow> j < sh_next s"
    if "c' < length (sh_callers s)" for c' j
    using I(4) [of c' j] remove that by (cases "c' = c") auto
  show ?thesis unfolding remove(1)
    by (rule shared_invI) (use I up in \<open>auto dest!: update_other\<close>)
qed

lemma no_callers_inv: "shared_inv data (no_callers_yet n)"
  by (rule shared_invI) (auto simp: no_callers_yet_def)

lemma cache_reach_inv:
  "cache_reach ends (length data) s0 s \<Longrightarrow> shared_inv data s0 \<Longrightarrow> ends_ok ends data \<Longrightarrow> shared_inv data s"
  by (induction rule: cache_reach.induct) (auto intro: cache_step_inv)


text \<open>The lock is never left behind, and every step brings a caller nearer to its end.\<close>

definition locks_owned :: "shared \<Rightarrow> bool" where
  "locks_owned s \<longleftrightarrow>
     (\<forall>i c. sh_lock s i = Some c \<longrightarrow> c < length (sh_callers s) \<and> sh_callers s ! c = Locked i)"

lemma locks_owned_step:
  assumes "cache_step ends full s s'" "locks_owned s"
  shows "locks_owned s'"
  using assms(1)
proof (cases rule: cache_step.cases)
  case (lock c i)
  then show ?thesis using assms(2) by (fastforce simp: locks_owned_def nth_list_update)
qed (use assms(2) in \<open>fastforce simp: locks_owned_def nth_list_update\<close>)+

fun phase :: "caller \<Rightarrow> nat" where
  "phase Ready = 4"
| "phase (Opened i) = 3"
| "phase (Locked i) = 2"
| "phase (Closed e) = 1"
| "phase (Got i) = 0"
| "phase GaveUp = 0"

definition cache_cost :: "shared \<Rightarrow> nat" where
  "cache_cost s = sum_list (map phase (sh_callers s))"

lemma phase_update:
  "c < length xs \<Longrightarrow> phase x < phase (xs ! c) \<Longrightarrow> sum_list (map phase (xs[c := x])) < sum_list (map phase xs)"
proof (induction xs arbitrary: c)
  case (Cons a xs)
  then show ?case by (cases c) auto
qed simp

lemma cache_step_cost: "cache_step ends full s s' \<Longrightarrow> cache_cost s' < cache_cost s"
  by (erule cache_stepE) (auto simp: cache_cost_def intro!: phase_update)

lemma cache_progress:
  assumes "locks_owned s" "c < length (sh_callers s)" "phase (sh_callers s ! c) \<noteq> 0"
    and "\<And>f. \<exists>r f'. ends f (Some r) f'"
  shows "\<exists>s'. cache_step ends full s s'"
proof -
  have locked: "\<exists>s'. cache_step ends full s s'" if "k < length (sh_callers s)" "sh_callers s ! k = Locked i" for k i
  proof (cases "length (sh_data s i) = full")
    case True
    then show ?thesis using cache_step.hit [OF that] by blast
  next
    case False
    obtain r f' where r: "ends (sh_data s i) (Some r) f'" using assms(4) by blast
    show ?thesis
    proof (cases r)
      case None
      then show ?thesis using cache_step.fetched [OF that False] r by blast
    next
      case (Some e)
      then show ?thesis using cache_step.failed [OF that False] r by blast
    qed
  qed
  show ?thesis
  proof (cases "sh_callers s ! c")
    case Ready
    then show ?thesis
      using cache_step.open_old [OF assms(2)] cache_step.open_new [OF assms(2)] by (cases "sh_name s") blast+
  next
    case (Opened i)
    show ?thesis
    proof (cases "sh_lock s i")
      case None
      then show ?thesis using cache_step.lock [OF assms(2) Opened] by blast
    next
      case (Some k)
      then show ?thesis using assms(1) locked [of k i] by (simp add: locks_owned_def)
    qed
  next
    case (Locked i)
    then show ?thesis using locked assms(2) by blast
  next
    case (Closed e)
    then show ?thesis using cache_step.remove [OF assms(2)] by blast
  qed (use assms(3) in simp_all)
qed

lemma locks_owned_reach: "cache_reach ends full s0 s \<Longrightarrow> locks_owned s0 \<Longrightarrow> locks_owned s"
  by (induction rule: cache_reach.induct) (auto intro: locks_owned_step)

lemma callers_length: "cache_reach ends full s0 s \<Longrightarrow> length (sh_callers s) = length (sh_callers s0)"
  by (induction rule: cache_reach.induct) (auto elim!: cache_stepE)

lemma cache_reach_trans: "cache_reach ends full s' s'' \<Longrightarrow> cache_reach ends full s s' \<Longrightarrow> cache_reach ends full s s''"
  by (induction rule: cache_reach.induct) (auto intro: cache_reach.there)

lemma cache_completes:
  assumes "locks_owned s" "\<And>f. \<exists>r f'. ends f (Some r) f'"
  shows "\<exists>s'. cache_reach ends full s s' \<and> (\<forall>c<length (sh_callers s'). phase (sh_callers s' ! c) = 0)"
  using assms(1)
proof (induction "cache_cost s" arbitrary: s rule: less_induct)
  case less
  show ?case
  proof (cases "\<forall>c<length (sh_callers s). phase (sh_callers s ! c) = 0")
    case True
    then show ?thesis using cache_reach.here by blast
  next
    case False
    then obtain c where "c < length (sh_callers s)" "phase (sh_callers s ! c) \<noteq> 0" by blast
    then obtain s1 where s1: "cache_step ends full s s1" using cache_progress [OF less.prems] assms(2) by blast
    obtain s' where s': "cache_reach ends full s1 s'" "\<forall>c<length (sh_callers s'). phase (sh_callers s' ! c) = 0"
      using less.hyps [OF cache_step_cost [OF s1] locks_owned_step [OF s1 less.prems]] by blast
    have "cache_reach ends full s s1" using cache_reach.there [OF cache_reach.here s1] .
    then show ?thesis using cache_reach_trans [OF s'(1)] s'(2) by blast
  qed
qed

lemma no_callers_owned: "locks_owned (no_callers_yet n)"
  by (simp add: locks_owned_def no_callers_yet_def)


section \<open>The sequential model is a run of one caller\<close>

text \<open>What the processes see of the files of the system, while nobody holds a lock.\<close>

definition shared_of :: "string \<Rightarrow> fsys \<Rightarrow> caller list \<Rightarrow> shared" where
  "shared_of name fs cs =
     \<lparr>sh_name = fy_names fs name, sh_data = fy_data fs, sh_next = fy_next fs, sh_lock = (\<lambda>_. None), sh_callers = cs\<rparr>"

lemma caller_opens:
  assumes "opened name fs i fs1" "c < length cs" "cs ! c = Ready"
  shows "cache_reach ends full (shared_of name fs cs)
    ((shared_of name fs1 (cs[c := Locked i]))\<lparr>sh_lock := (\<lambda>_. None)(i := Some c)\<rparr>)"
proof -
  let ?s = "shared_of name fs cs" and ?s1 = "shared_of name fs1 (cs[c := Opened i])"
  have 1: "cache_step ends full ?s ?s1"
  proof (cases "fy_names fs name")
    case None
    then have "?s1 = ?s\<lparr>sh_name := Some (sh_next ?s), sh_data := (sh_data ?s)(sh_next ?s := []), sh_next := Suc (sh_next ?s),
        sh_callers := (sh_callers ?s)[c := Opened (sh_next ?s)]\<rparr>"
      using assms(1) by (simp add: opened_def shared_of_def)
    then show ?thesis using cache_step.open_new [of c ?s ends full] None assms(2,3) by (simp add: shared_of_def)
  next
    case (Some j)
    then have "j = i" "?s1 = ?s\<lparr>sh_callers := (sh_callers ?s)[c := Opened i]\<rparr>"
      using assms(1) by (simp_all add: opened_def shared_of_def)
    then show ?thesis using cache_step.open_old [of c ?s i ends full] Some assms(2,3) by (simp add: shared_of_def)
  qed
  have 2: "cache_step ends full ?s1 (?s1\<lparr>sh_lock := (sh_lock ?s1)(i := Some c), sh_callers := (sh_callers ?s1)[c := Locked i]\<rparr>)"
    by (rule cache_step.lock) (use assms(2) in \<open>simp_all add: shared_of_def\<close>)
  show ?thesis using cache_reach.there [OF cache_reach.there [OF cache_reach.here 1] 2] by (simp add: shared_of_def)
qed

lemma caller_runs:
  assumes "CheckAndGet ops fl dl cache m fs = Some (ret (r, fs'))" "\<forall>e. r \<noteq> Inl (COs e)"
    and "fl_remove fl (cache_path cache (node_ID ops m)) = None"
    and "cache_downloader ops m = ret d" "downloads_by cr may d dl"
    and "\<forall>info. node_Info ops m = ret info \<longrightarrow> sint (in_Size info) = int full"
    and "c < length cs" "cs ! c = Ready"
  shows "\<exists>c'. cache_reach (may_end cr may d) full (shared_of (cache_path cache (node_ID ops m)) fs cs)
      (shared_of (cache_path cache (node_ID ops m)) fs' (cs[c := c'])) \<and>
    (case r of Inl e \<Rightarrow> c' = GaveUp | Inr i \<Rightarrow> c' = Got i)"
proof -
  let ?name = "cache_path cache (node_ID ops m)"
  let ?reach = "cache_reach (may_end cr may d) full (shared_of ?name fs cs)"
  let ?at = "\<lambda>i fs1. (shared_of ?name fs1 (cs[c := Locked i]))\<lparr>sh_lock := (\<lambda>_. None)(i := Some c)\<rparr>"
  have locked: "?reach (?at i fs1)" if "ensure fl ?name fs = Some (Inr i, fs1)" for i fs1
    using ensure_opened [OF that] caller_opens [OF _ assms(7,8)] by (simp add: ensured_def)
  have end_of: "\<exists>f. fs2 = fs1\<lparr>fy_data := (fy_data fs1)(i := f)\<rparr> \<and> may_end cr may d (fy_data fs1 i) (Some err) f"
    if "cache_download ops dl m i fs1 = ret (err, fs2)" for i fs1 err fs2
    using that assms(4,5) by (auto simp: cache_download_def downloads_by_def split: prod.splits) (metis fst_conv snd_conv)
  show ?thesis
    using assms(1)
  proof (cases rule: CheckAndGet_cases)
    case (closed e)
    then show ?thesis using assms(2) by simp
  next
    case (fault i e)
    then show ?thesis using assms(2) by simp
  next
    case (hit i info)
    let ?s = "?at i fs'"
    have "length (sh_data ?s i) = full" using hit(2,3) assms(6) by (simp add: shared_of_def)
    then have "cache_step (may_end cr may d) full ?s (?s\<lparr>sh_lock := (sh_lock ?s)(i := None), sh_callers := (sh_callers ?s)[c := Got i]\<rparr>)"
      by (intro cache_step.hit) (use assms(7) in \<open>simp_all add: shared_of_def\<close>)
    then have "?reach (shared_of ?name fs' (cs[c := Got i]))"
      using cache_reach.there [OF locked [OF hit(1)]] by (simp add: shared_of_def)
    then show ?thesis using hit(4) by (intro exI [of _ "Got i"]) simp
  next
    case (fetched i fs1)
    let ?s = "?at i fs1"
    obtain f where f: "fs' = fs1\<lparr>fy_data := (fy_data fs1)(i := f)\<rparr>" "may_end cr may d (sh_data ?s i) (Some None) f"
      using end_of [OF fetched(2)] by (auto simp: shared_of_def)
    have "length (sh_data ?s i) \<noteq> full" using fetched(6) assms(6) by (auto simp: shared_of_def)
    then have "cache_step (may_end cr may d) full ?s (?s\<lparr>sh_data := (sh_data ?s)(i := f), sh_lock := (sh_lock ?s)(i := None),
         sh_callers := (sh_callers ?s)[c := Got i]\<rparr>)"
      by (intro cache_step.fetched f(2)) (use assms(7) in \<open>simp_all add: shared_of_def\<close>)
    then have "?reach (shared_of ?name fs' (cs[c := Got i]))"
      using cache_reach.there [OF locked [OF fetched(1)]] f(1) by (simp add: shared_of_def)
    then show ?thesis using fetched(3) assms(2) by (intro exI [of _ "Got i"]) auto
  next
    case (failed i fs1 fs2 e)
    let ?s = "?at i fs1"
    obtain f where f: "fs2 = fs1\<lparr>fy_data := (fy_data fs1)(i := f)\<rparr>" "may_end cr may d (sh_data ?s i) (Some (Some e)) f"
      using end_of [OF failed(2)] by (auto simp: shared_of_def)
    have "length (sh_data ?s i) \<noteq> full" using failed(5) assms(6) by (auto simp: shared_of_def)
    then have 1: "cache_step (may_end cr may d) full ?s (?s\<lparr>sh_data := (sh_data ?s)(i := f), sh_lock := (sh_lock ?s)(i := None),
         sh_callers := (sh_callers ?s)[c := Closed e]\<rparr>)" (is "cache_step _ _ _ ?s1")
      by (intro cache_step.failed f(2)) (use assms(7) in \<open>simp_all add: shared_of_def\<close>)
    have "cache_step (may_end cr may d) full ?s1 (?s1\<lparr>sh_name := None, sh_callers := (sh_callers ?s1)[c := GaveUp]\<rparr>)"
      by (rule cache_step.remove) (use assms(7) in \<open>simp_all add: shared_of_def\<close>)
    then have "?reach (shared_of ?name fs' (cs[c := GaveUp]))"
      using cache_reach.there [OF cache_reach.there [OF locked [OF failed(1)] 1]] f(1) failed(4) assms(3)
      by (simp add: shared_of_def os_remove_def)
    then show ?thesis using failed(3) by (intro exI [of _ GaveUp]) simp
  qed
qed

section \<open>Properties\<close>

text \<open>C20. Callers that share a file of the cache, as long as a download that fails or is killed does
  not leave a file of full length with other contents: whoever gets the file gets the genuine contents, and no two
  callers work on one inode at a time.\<close>

theorem shared_cache_safe:
  assumes "cache_reach (may_end cr may d) (length data) (no_callers_yet n) s" "the_content cr may d data"
    and "\<forall>f r f'. length f < length data \<and> may_end cr may d f r f' \<and> r \<noteq> Some None \<longrightarrow> f' = data \<or> length f' < length data"
    and "c < n" "c' < n"
  shows "(sh_callers s ! c = Got i \<longrightarrow> sh_data s i = data) \<and>
    (sh_callers s ! c = Locked i \<and> sh_callers s ! c' = Locked i \<longrightarrow> c = c')"
proof -
  have "ends_ok (may_end cr may d) data"
    using assms(2,3) may_end_content unfolding ends_ok_def by (metis less_imp_le_nat)
  then have inv: "shared_inv data s" using cache_reach_inv [OF assms(1) no_callers_inv] by simp
  have "length (sh_callers s) = n" using callers_length [OF assms(1)] by (simp add: no_callers_yet_def)
  then have c: "c < length (sh_callers s)" "c' < length (sh_callers s)" using assms(4,5) by simp_all
  have "c = c'" if "sh_callers s ! c = Locked i" "sh_callers s ! c' = Locked i"
    using shared_invD(1) [OF inv c(1) that(1)] shared_invD(1) [OF inv c(2) that(2)] by simp
  then show ?thesis using shared_invD(3) [OF inv c(1)] by blast
qed


lemma one_block_ends:
  assumes "may_end toy echo one_block [] r f'"
  shows "f' = [] \<or> f' = [7]"
proof -
  have "Download one_block [] = Inr (started one_block [])" by (simp add: Download_def one_block_def)
  then obtain ws s where run: "dl_run toy echo one_block (started one_block []) ws s" "ds_file s = f'"
    using assms by (auto simp: may_end_def)
  obtain vs where vs: "f' = apply_writes 4096 vs []"
    "\<forall>k x. (k, x) \<in> set vs \<longrightarrow> k < length (dl_blocks one_block) \<and> (\<exists>raw j. genuine toy echo one_block k raw \<and> x = take j raw)"
    using run_writes [OF run(1)] run(2) by (auto simp: one_block_def)
  have "k = 0 \<and> (x = [] \<or> x = [7])" if "(k, x) \<in> set vs" for k x
  proof -
    obtain raw j where "k < length (dl_blocks one_block)" "genuine toy echo one_block k raw" "x = take j raw"
      using vs(2) \<open>(k, x) \<in> set vs\<close> by blast
    then show ?thesis by (cases j) (auto simp: one_block_def genuine_def echo_def toy_block)
  qed
  then have "apply_writes 4096 vs [] = [] \<or> apply_writes 4096 vs [] = [7]"
  proof (induction vs rule: rev_induct)
    case (snoc v vs)
    obtain k x where v: "v = (k, x)" by fastforce
    then have "k = 0" "x = [] \<or> x = [7]" using snoc.prems [of k x] by simp_all
    moreover have "apply_writes 4096 vs [] = [] \<or> apply_writes 4096 vs [] = [7]"
    proof (rule snoc.IH)
      fix l y
      assume "(l, y) \<in> set vs"
      then show "l = 0 \<and> (y = [] \<or> y = [7])" using snoc.prems [of l y] by simp
    qed
    ultimately show ?case using v by (auto simp: apply_writes_snoc write_at_def)
  qed (simp add: apply_writes_def)
  then show ?thesis using vs(1) by simp
qed

theorem shared_cache_safe_witness:
  "\<exists>s. cache_reach (may_end toy echo one_block) 1 (no_callers_yet 2) s \<and> sh_callers s ! 0 = Got 0 \<and> sh_data s 0 = [7]"
proof -
  let ?ends = "may_end toy echo one_block"
  let ?st = "\<lambda>cs lk f. \<lparr>sh_name = Some 0, sh_data = (\<lambda>_. [])(0 := f), sh_next = 1, sh_lock = (\<lambda>_. None)(0 := lk), sh_callers = cs\<rparr>"
  have 1: "cache_step ?ends 1 (no_callers_yet 2) (?st [Opened 0, Ready] None [])"
    using cache_step.open_new [of 0 "no_callers_yet 2" ?ends 1] by (simp add: no_callers_yet_def numeral_2_eq_2 fun_upd_idem)
  have 2: "cache_step ?ends 1 (?st [Opened 0, Ready] None []) (?st [Locked 0, Ready] (Some 0) [])"
    using cache_step.lock [of 0 "?st [Opened 0, Ready] None []" 0 ?ends 1] by simp
  have "?ends [] (Some None) [7]" using one_block_run [of "[]"] by (simp add: write_at_def)
  then have 3: "cache_step ?ends 1 (?st [Locked 0, Ready] (Some 0) []) (?st [Got 0, Ready] None [7])"
    using cache_step.fetched [of 0 "?st [Locked 0, Ready] (Some 0) []" 0 1 ?ends "[7]"] by simp
  have run: "cache_reach ?ends 1 (no_callers_yet 2) (?st [Got 0, Ready] None [7])"
    by (rule cache_reach.there [OF cache_reach.there [OF cache_reach.there [OF cache_reach.here 1] 2] 3])
  have short: "\<forall>f r f'. length f < length [7 :: byte] \<and> ?ends f r f' \<and> r \<noteq> Some None \<longrightarrow>
      f' = [7] \<or> length f' < length [7 :: byte]"
    using one_block_ends by fastforce
  have "cache_reach ?ends (length [7 :: byte]) (no_callers_yet 2) (?st [Got 0, Ready] None [7])" using run by simp
  from shared_cache_safe [OF this one_block_content short, of 0 0 0] run show ?thesis by fastforce
qed


text \<open>C31. Nobody waits for ever for a shared file: wherever the callers have got to, every step brings
  them nearer to their end, and they can all come to it, as long as downloads return.\<close>

theorem shared_cache_completes:
  assumes "cache_reach (may_end cr may d) full (no_callers_yet n) s" "\<forall>f. \<exists>r f'. may_end cr may d f (Some r) f'"
  shows "(\<forall>s'. cache_step (may_end cr may d) full s s' \<longrightarrow> cache_cost s' < cache_cost s) \<and>
    (\<exists>s'. cache_reach (may_end cr may d) full s s' \<and>
       (\<forall>c<n. sh_callers s' ! c = GaveUp \<or> (\<exists>i. sh_callers s' ! c = Got i)))"
proof -
  have "locks_owned s" using locks_owned_reach [OF assms(1) no_callers_owned] .
  then obtain s' where s': "cache_reach (may_end cr may d) full s s'"
    "\<forall>c<length (sh_callers s'). phase (sh_callers s' ! c) = 0"
    using cache_completes assms(2) by blast
  have len: "length (sh_callers s') = n"
    using callers_length [OF assms(1)] callers_length [OF s'(1)] by (simp add: no_callers_yet_def)
  have "sh_callers s' ! c = GaveUp \<or> (\<exists>i. sh_callers s' ! c = Got i)" if "c < n" for c
    using s'(2) len that by (cases "sh_callers s' ! c") fastforce+
  then show ?thesis using s'(1) cache_step_cost by blast
qed

theorem shared_cache_completes_witness:
  "\<exists>s. cache_reach (may_end toy echo one_block) 1 (no_callers_yet 2) s \<and>
    (sh_callers s ! 1 = GaveUp \<or> (\<exists>i. sh_callers s ! 1 = Got i))"
proof -
  have "\<forall>f. \<exists>r f'. may_end toy echo one_block f (Some r) f'" using one_block_run by blast
  from conjunct2 [OF shared_cache_completes [OF cache_reach.here this, of 1 2]]
  obtain s' where "cache_reach (may_end toy echo one_block) 1 (no_callers_yet 2) s'"
    "\<forall>c<2. sh_callers s' ! c = GaveUp \<or> (\<exists>i. sh_callers s' ! c = Got i)" by blast
  then show ?thesis by (intro exI [of _ s']) simp
qed

text \<open>A storage that sometimes fails, and a file of two blocks.\<close>

definition flaky :: "bytes \<Rightarrow> derr + bytes \<Rightarrow> bool" where
  "flaky key ans \<longleftrightarrow> ans = Inr key \<or> ans = Inl (DStorage ''down'')"

definition two_blocks :: downloader where
  "two_blocks = demo_dl\<lparr>dl_workers := 0\<rparr>"

lemma two_blocks_content: "the_content toy flaky two_blocks [1, 2, 3]"
  unfolding the_content_def
proof (intro exI [of _ "[[1, 2], [3]]"] conjI allI impI)
  show "full_blocks (dl_blockSize two_blocks) [[1, 2], [3]]"
    by (auto simp: full_blocks_def two_blocks_def demo_dl_def less_Suc_eq)
next
  fix i ans raw
  assume "i < length [[1, 2 :: byte], [3]]" "flaky (bi_Key (dl_blocks two_blocks ! i)) ans"
    "downloadBlock toy (dl_blocks two_blocks ! i) ans = Inr raw"
  then show "raw = [[1, 2], [3]] ! i"
    by (auto simp: less_Suc_eq two_blocks_def demo_dl_def flaky_def downloadBlock_def toy_def)
qed (simp_all add: two_blocks_def demo_dl_def)

text \<open>The second block is written, the first one fails.\<close>

lemma half_download:
  "may_end toy flaky two_blocks [] None [0, 0, 3]" (is ?killed)
  "may_end toy flaky two_blocks [] (Some (Some (DStorage ''down''))) [0, 0, 3]" (is ?failed)
proof -
  let ?e = "DStorage ''down''"
  let ?st = "\<lambda>w0 w1 n feeding err f. \<lparr>ds_next = n, ds_feeding = feeding, ds_workers = [w0, w1], ds_err = err, ds_file = f, ds_ret = None\<rparr>"
  let ?step = "dl_step toy flaky two_blocks"
  have 0: "Download two_blocks [] = Inr (?st Idle Idle 0 True None [])"
    by (simp add: Download_def started_def two_blocks_def demo_dl_def num_workers_def DefaultDownloadWorkers_def numeral_2_eq_2)
  have 1: "?step (?st Idle Idle 0 True None []) None (?st (Fetching 0) Idle 1 True None [])"
    using dl_step.feed [of "?st Idle Idle 0 True None []" two_blocks 0] by (simp add: two_blocks_def demo_dl_def)
  have 2: "?step (?st (Fetching 0) Idle 1 True None []) None (?st (Fetching 0) (Fetching 1) 2 True None [])"
    using dl_step.feed [of "?st (Fetching 0) Idle 1 True None []" two_blocks 1]
    by (simp add: two_blocks_def demo_dl_def numeral_2_eq_2)
  have 3: "?step (?st (Fetching 0) (Fetching 1) 2 True None []) None (?st (Fetching 0) (Sending 1 [3]) 2 True None [])"
    using dl_step.fetched [of 1 "?st (Fetching 0) (Fetching 1) 2 True None []" 1 flaky two_blocks "Inr [3]" toy "[3]"]
    by (simp add: two_blocks_def demo_dl_def flaky_def toy_block)
  have 4: "?step (?st (Fetching 0) (Sending 1 [3]) 2 True None []) (Some (1, [3])) (?st (Fetching 0) Idle 2 True None [0, 0, 3])"
    using dl_step.written [of "?st (Fetching 0) (Sending 1 [3]) 2 True None []" 1 1 "[3]" toy flaky two_blocks]
    by (simp add: two_blocks_def demo_dl_def write_at_def numeral_2_eq_2)
  have 5: "?step (?st (Fetching 0) Idle 2 True None [0, 0, 3]) None (?st (Failed 0) Idle 2 True (Some ?e) [0, 0, 3])"
    using dl_step.failed [of 0 "?st (Fetching 0) Idle 2 True None [0, 0, 3]" 0 flaky two_blocks "Inl ?e" toy ?e]
    by (simp add: two_blocks_def demo_dl_def flaky_def downloadBlock_def first_error_def)
  have 6: "?step (?st (Failed 0) Idle 2 True (Some ?e) [0, 0, 3]) None (?st (Failed 0) Idle 2 False (Some ?e) [0, 0, 3])"
    using dl_step.feed_end [of "?st (Failed 0) Idle 2 True (Some ?e) [0, 0, 3]" two_blocks toy flaky] by simp
  have 7: "?step (?st (Failed 0) Idle 2 False (Some ?e) [0, 0, 3]) None (?st (Failed 0) Quit 2 False (Some ?e) [0, 0, 3])"
    using dl_step.quit [of "?st (Failed 0) Idle 2 False (Some ?e) [0, 0, 3]" 1 toy flaky two_blocks] by simp
  have 8: "?step (?st (Failed 0) Quit 2 False (Some ?e) [0, 0, 3]) None
      ((?st (Failed 0) Quit 2 False (Some ?e) [0, 0, 3])\<lparr>ds_ret := Some (Some ?e)\<rparr>)"
    using dl_step.finished [of "?st (Failed 0) Quit 2 False (Some ?e) [0, 0, 3]" toy flaky two_blocks] by (simp add: worker_over_def)
  note part = dl_run.snoc [OF dl_run.snoc [OF dl_run.snoc [OF dl_run.snoc [OF dl_run.none 1] 2] 3] 4]
  note whole = dl_run.snoc [OF dl_run.snoc [OF dl_run.snoc [OF dl_run.snoc [OF part 5] 6] 7] 8]
  show ?killed unfolding may_end_def 0 using part by fastforce
  show ?failed unfolding may_end_def 0 using whole by fastforce
qed


text \<open>C19. The two models of the cache agree: a whole \<open>CheckAndGet\<close> of the sequential model, unless the system
  fails it, is a run of one caller in the model of many, from the files before to the files after,
  whoever else is there; the caller ends with the inode that \<open>CheckAndGet\<close> returns, or gives up when
  the download failed.\<close>

theorem sequential_is_one_caller:
  assumes "CheckAndGet ops fl dl cache m fs = Some (ret (r, fs'))" "\<forall>e. r \<noteq> Inl (COs e)"
    and "fl_remove fl (cache_path cache (node_ID ops m)) = None"
    and "cache_downloader ops m = ret d" "downloads_by cr may d dl"
    and "\<forall>info. node_Info ops m = ret info \<longrightarrow> sint (in_Size info) = int full"
    and "c < length cs" "cs ! c = Ready"
  shows "\<exists>c'. cache_reach (may_end cr may d) full (shared_of (cache_path cache (node_ID ops m)) fs cs)
      (shared_of (cache_path cache (node_ID ops m)) fs' (cs[c := c'])) \<and>
    (case r of Inl e \<Rightarrow> c' = GaveUp | Inr i \<Rightarrow> c' = Got i)"
  by (rule caller_runs [OF assms])

theorem sequential_is_one_caller_witness:
  "\<exists>fs'. cache_reach (may_end toy echo one_block) 1 (shared_of (cache_path ''/c'' ''abcd'') empty_fs [Ready, Ready])
      (shared_of (cache_path ''/c'' ''abcd'') fs' [Got 0, Ready])"
proof -
  obtain fs' where get: "CheckAndGet file_ops no_faults write_seven ''/c'' (Plain ()) empty_fs = Some (ret (Inr 0, fs'))"
    using first_get by auto
  have "cache_downloader file_ops (Plain ()) = ret one_block" using file_described by (simp add: describes_def)
  moreover have "\<forall>info. node_Info file_ops (Plain ()) = ret info \<longrightarrow> sint (in_Size info) = int 1"
    by (simp add: node_Info_def file_ops_def plain_file_def)
  moreover have "fl_remove no_faults (cache_path ''/c'' (node_ID file_ops (Plain ()))) = None" by (simp add: no_faults_def)
  moreover have "node_ID file_ops (Plain ()) = ''abcd''" by (simp add: node_ID_def file_ops_def)
  ultimately show ?thesis
    using sequential_is_one_caller [OF get _ _ _ write_seven_runs, of 1 0 "[Ready, Ready]"] by auto
qed

end
