(* ===== verification/Ranges.thy ===== *)
theory Ranges
  imports RouterErrors
begin

text \<open>
  Hash ranges: storage/router/range.go. A range is an exact prefix or an interval of prefixes of
  one width, parsed from the key of a pool entry in router.yaml. The interface \<open>Range\<close> is the
  locale \<open>range_iface\<close>; both implementations together are its first interpretation.
\<close>

section \<open>Hexadecimal prefixes\<close>

definition HexToBytes :: "string \<Rightarrow> bytes go" where
  "HexToBytes s =
     (if length s = 0 then ret []
      else
        let s' = (if length s mod 2 = 1 then s @ ''0'' else s)
        in case sscanf_hex s' of Inl _ \<Rightarrow> panic | Inr data \<Rightarrow> ret data)"

text \<open>The digits of a byte string, high nibble first.\<close>

definition nibbles :: "bytes \<Rightarrow> nat list" where
  "nibbles bs = concat (map (\<lambda>b. [unat b div 16, unat b mod 16]) bs)"

definition pad_digits :: "string \<Rightarrow> nat list" where
  "pad_digits s = map (\<lambda>c. the (hex_val c)) s @ (if odd (length s) then [0] else [])"

lemma nibbles_Nil [simp]: "nibbles [] = []"
  by (simp add: nibbles_def)

lemma nibbles_Cons [simp]: "nibbles (b # bs) = unat b div 16 # unat b mod 16 # nibbles bs"
  by (simp add: nibbles_def)

lemma length_nibbles [simp]: "length (nibbles bs) = 2 * length bs"
  by (induction bs) auto

lemma nibbles_inject: "nibbles as = nibbles bs \<Longrightarrow> as = bs"
proof (induction as arbitrary: bs)
  case Nil
  then show ?case by (cases bs) auto
next
  case (Cons a as)
  then obtain b bs' where bs: "bs = b # bs'" by (cases bs) auto
  with Cons.prems have "unat a div 16 = unat b div 16" "unat a mod 16 = unat b mod 16"
    and rest: "nibbles as = nibbles bs'" by auto
  then have "unat a = unat b" by (metis div_mult_mod_eq)
  then have "a = b" by (simp add: word_unat_eq_iff)
  with Cons.IH [OF rest] bs show ?case by simp
qed

lemma take_nibbles: "take (2 * n) (nibbles bs) = nibbles (take n bs)"
proof (induction bs arbitrary: n)
  case Nil
  then show ?case by simp
next
  case (Cons b bs)
  then show ?case by (cases n) simp_all
qed

lemma hex_pairs_nibbles:
  "even (length s) \<Longrightarrow> list_all is_hex s \<Longrightarrow>
    \<exists>bs. hex_pairs s = Inr bs \<and> nibbles bs = map (\<lambda>c. the (hex_val c)) s"
proof (induction s rule: hex_pairs.induct)
  case (3 c d cs)
  from "3.prems" obtain hi lo where v: "hex_val c = Some hi" "hex_val d = Some lo"
    by (auto simp: is_hex_def)
  then have "hi < 16" "lo < 16" by (auto dest: hex_val_bound)
  moreover from "3.IH" [OF v] "3.prems" obtain bs where
    "hex_pairs cs = Inr bs" "nibbles bs = map (\<lambda>c. the (hex_val c)) cs" by auto
  ultimately show ?case using v by (simp add: hex_simps)
qed simp_all

lemma sscanf_hex_digits:
  assumes "list_all is_hex s" "even (length s)" "s \<noteq> []"
  shows "\<exists>bs. sscanf_hex s = Inr bs \<and> nibbles bs = map (\<lambda>c. the (hex_val c)) s"
proof -
  obtain c cs where s: "s = c # cs" using assms(3) by (cases s) auto
  obtain bs where bs: "hex_pairs s = Inr bs" "nibbles bs = map (\<lambda>c. the (hex_val c)) s"
    using hex_pairs_nibbles [OF assms(2,1)] by auto
  then have "bs \<noteq> []" using s by auto
  moreover have "skip_space s = Inr s"
    using assms(1) s by (simp add: skip_space_hex del: skip_space.simps)
  ultimately show ?thesis
    using bs s by (auto simp: sscanf_hex_def split: list.split simp del: skip_space.simps hex_pairs.simps)
qed

lemma HexToBytes_digits:
  assumes "list_all is_hex s"
  shows "\<exists>bs. HexToBytes s = ret bs \<and> nibbles bs = pad_digits s"
proof (cases "s = []")
  case True
  then show ?thesis by (simp add: HexToBytes_def pad_digits_def)
next
  case False
  let ?s = "if length s mod 2 = 1 then s @ ''0'' else s"
  have "list_all is_hex ?s" "even (length ?s)" "?s \<noteq> []"
    using assms False by (auto simp: is_hex_def hex_val_def)
  then obtain bs where "sscanf_hex ?s = Inr bs" "nibbles bs = map (\<lambda>c. the (hex_val c)) ?s"
    using sscanf_hex_digits by blast
  then show ?thesis
    using False by (auto simp: HexToBytes_def Let_def pad_digits_def hex_val_def odd_iff_mod_2_eq_one)
qed

lemma HexToBytes_length:
  assumes "list_all is_hex s" "HexToBytes s = ret bs"
  shows "length bs = (length s + 1) div 2"
proof -
  have "nibbles bs = pad_digits s" using HexToBytes_digits [OF assms(1)] assms(2) by auto
  then have "2 * length bs = length (pad_digits s)" by (metis length_nibbles)
  then show ?thesis by (auto simp: pad_digits_def split: if_splits elim: oddE)
qed

lemma HexToBytes_show_hex [hex_simps]: "HexToBytes (show_hex bs) = ret bs"
proof -
  have all: "list_all is_hex (show_hex bs)"
    by (auto simp: list_all_iff intro: show_hex_hex)
  have "pad_digits (show_hex bs) = nibbles bs"
    by (induction bs) (auto simp: pad_digits_def show_byte_def hex_simps length_show_hex)
  then show ?thesis
    using HexToBytes_digits [OF all] nibbles_inject by fastforce
qed

section \<open>The range syntax\<close>

text \<open>
  The regular expression \<^verbatim>\<open>^(?P<start>[0-9a-fA-F]+)(?::(?P<end>[0-9a-fA-F]+))?$\<close>: a colon is no
  hexadecimal digit, so the leftmost-first match of the first group is the longest run of digits.
  A group that takes no part in the match is the empty string.
\<close>

definition find_submatch :: "string \<Rightarrow> (string \<times> string) option" where
  "find_submatch r =
     (let start = takeWhile is_hex r
      in if start = [] then None
         else case dropWhile is_hex r of
                [] \<Rightarrow> Some (start, [])
              | c # end \<Rightarrow>
                  (if c = CHR '':'' \<and> end \<noteq> [] \<and> list_all is_hex end then Some (start, end)
                   else None))"

lemma colon_not_hex [hex_simps]: "\<not> is_hex (CHR '':'')"
  by (simp add: is_hex_def hex_val_def)

lemma find_submatch_exact:
  "s \<noteq> [] \<Longrightarrow> list_all is_hex s \<Longrightarrow> find_submatch s = Some (s, [])"
  by (simp add: find_submatch_def takeWhile_all dropWhile_all)

lemma find_submatch_pair:
  "s \<noteq> [] \<Longrightarrow> list_all is_hex s \<Longrightarrow> e \<noteq> [] \<Longrightarrow> list_all is_hex e \<Longrightarrow>
    find_submatch (s @ CHR '':'' # e) = Some (s, e)"
  by (simp add: find_submatch_def Let_def takeWhile_all_append dropWhile_all_append hex_simps)

lemma find_submatch_SomeD:
  assumes "find_submatch r = Some (s, e)"
  shows "s \<noteq> [] \<and> list_all is_hex s \<and> list_all is_hex e \<and>
    r = (if e = [] then s else s @ CHR '':'' # e)"
proof -
  obtain t d where td: "t = takeWhile is_hex r" "d = dropWhile is_hex r" by simp
  then have r: "r = t @ d" and t: "list_all is_hex t"
    using list_all_takeWhile [of is_hex r] by auto
  show ?thesis
    using assms r t unfolding find_submatch_def Let_def td [symmetric]
    by (auto split: if_splits list.splits)
qed

datatype hash_range = ExactMatch bytes | RangeMatch bytes bytes

text \<open>\<open>None\<close> would be the panic inside \<open>HexToBytes\<close>.\<close>

definition NewRange :: "string \<Rightarrow> (rerr + hash_range) go" where
  "NewRange r =
     (case find_submatch r of
        None \<Rightarrow> ret (Inl ErrInvalidRange)
      | Some (m1, m2) \<Rightarrow>
          do {
            start \<leftarrow> HexToBytes m1;
            end \<leftarrow> HexToBytes m2;
            if length end = 0 then ret (Inr (ExactMatch start))
            else if length start \<noteq> length end then ret (Inl ErrInvalidRange)
            else ret (Inr (RangeMatch start end))
          })"

fun range_string :: "hash_range \<Rightarrow> string" where
  "range_string (ExactMatch e) = show_hex e"
| "range_string (RangeMatch a b) = show_hex a @ '':'' @ show_hex b"

text \<open>The shape of the ranges the parser builds.\<close>

fun range_wf :: "hash_range \<Rightarrow> bool" where
  "range_wf (ExactMatch e) = (e \<noteq> [])"
| "range_wf (RangeMatch a b) = (a \<noteq> [] \<and> length a = length b)"

lemma HexToBytes_nonempty:
  assumes "list_all is_hex s" "s \<noteq> []" "HexToBytes s = ret bs"
  shows "bs \<noteq> []"
  using HexToBytes_length [OF assms(1,3)] assms(2) by (cases s) auto

text \<open>
  C-level facts of the parser: it never panics, what it accepts, and what it builds.
\<close>

lemma NewRange_cases:
  obtains (bad) "find_submatch r = None" "NewRange r = ret (Inl ErrInvalidRange)"
  | (exact) s where "find_submatch r = Some (s, [])" "HexToBytes s \<noteq> panic" "s \<noteq> []"
      "list_all is_hex s" "r = s" "NewRange r = ret (Inr (ExactMatch (the (HexToBytes s))))"
  | (pair) s e a b where "find_submatch r = Some (s, e)" "s \<noteq> []" "e \<noteq> []"
      "list_all is_hex s" "list_all is_hex e" "r = s @ CHR '':'' # e"
      "HexToBytes s = ret a" "HexToBytes e = ret b" "b \<noteq> []"
      "NewRange r = ret (if length a = length b then Inr (RangeMatch a b) else Inl ErrInvalidRange)"
proof (cases "find_submatch r")
  case None
  then show ?thesis by (intro bad) (simp_all add: NewRange_def)
next
  case (Some se)
  obtain s e where se: "se = (s, e)" by (cases se)
  note sub = Some [unfolded se]
  note d = find_submatch_SomeD [OF sub]
  obtain a b where ab: "HexToBytes s = ret a" "HexToBytes e = ret b"
    using d HexToBytes_digits by metis
  show ?thesis
  proof (cases "e = []")
    case True
    then show ?thesis
      using exact [of s] sub d ab by (simp add: NewRange_def HexToBytes_def)
  next
    case False
    then have "b \<noteq> []" using d ab HexToBytes_nonempty by blast
    then show ?thesis
      using pair [of s e a b] sub d ab False by (simp add: NewRange_def)
  qed
qed

lemma NewRange_wf: "NewRange r = ret (Inr g) \<Longrightarrow> range_wf g"
proof (cases r rule: NewRange_cases)
  case (exact s)
  moreover assume "NewRange r = ret (Inr g)"
  ultimately show ?thesis using HexToBytes_nonempty [of s] by auto
next
  case (pair s e a b)
  moreover assume "NewRange r = ret (Inr g)"
  ultimately show ?thesis by (auto split: if_splits)
qed simp

lemma NewRange_exact_iff:
  "NewRange r = ret (Inr (ExactMatch p)) \<longleftrightarrow>
    r \<noteq> [] \<and> list_all is_hex r \<and> HexToBytes r = ret p"
proof
  assume "NewRange r = ret (Inr (ExactMatch p))"
  then show "r \<noteq> [] \<and> list_all is_hex r \<and> HexToBytes r = ret p"
    by (cases r rule: NewRange_cases) (auto split: if_splits)
next
  assume *: "r \<noteq> [] \<and> list_all is_hex r \<and> HexToBytes r = ret p"
  then have "find_submatch r = Some (r, [])" by (simp add: find_submatch_exact)
  with * show "NewRange r = ret (Inr (ExactMatch p))"
    by (simp add: NewRange_def) (simp add: HexToBytes_def)
qed

section \<open>Matching\<close>

fun bytes_compare :: "bytes \<Rightarrow> bytes \<Rightarrow> int" where
  "bytes_compare [] [] = 0"
| "bytes_compare [] (y # ys) = -1"
| "bytes_compare (x # xs) [] = 1"
| "bytes_compare (x # xs) (y # ys) =
     (if x < y then -1 else if y < x then 1 else bytes_compare xs ys)"

fun range_in :: "hash_range \<Rightarrow> slice \<Rightarrow> bool go" where
  "range_in (ExactMatch e) h =
     (if slice_len h < length e then ret False
      else do { head \<leftarrow> reslice h (length e); ret (e = head) })"
| "range_in (RangeMatch a b) h =
     do {
       head \<leftarrow> reslice h (length a);
       if bytes_compare a head > 0 \<or> bytes_compare b head < 0 then ret False else ret True
     }"

text \<open>The number a byte string spells, most significant byte first.\<close>

definition be_val :: "bytes \<Rightarrow> nat" where
  "be_val bs = foldl (\<lambda>n b. 256 * n + unat b) 0 bs"

lemma foldl_be: "foldl (\<lambda>n b. 256 * n + unat (b :: byte)) k bs = k * 256 ^ length bs + be_val bs"
proof (induction bs arbitrary: k)
  case Nil
  then show ?case by (simp add: be_val_def)
next
  case (Cons b bs)
  have "be_val (b # bs) = unat b * 256 ^ length bs + be_val bs"
    using Cons.IH [of "unat b"] by (simp add: be_val_def)
  with Cons.IH [of "256 * k + unat b"] show ?case by (simp add: algebra_simps)
qed

lemma be_val_Cons: "be_val (b # bs) = unat b * 256 ^ length bs + be_val bs"
  using foldl_be [of "unat b" bs] by (simp add: be_val_def)

lemma be_val_bound: "be_val bs < 256 ^ length bs"
proof (induction bs)
  case Nil
  then show ?case by (simp add: be_val_def)
next
  case (Cons b bs)
  let ?M = "256 ^ length bs :: nat"
  have "unat b < 2 ^ LENGTH(8)" by (rule unsigned_less)
  then have "Suc (unat b) * ?M \<le> 256 * ?M"
    by (intro mult_right_mono) auto
  then have "unat b * ?M + ?M \<le> 256 * ?M" by (simp only: mult_Suc add.commute)
  with Cons have "unat b * ?M + be_val bs < 256 * ?M" by linarith
  then show ?case by (simp only: be_val_Cons list.size power_add power_one_right mult.commute add_0_right add_Suc_right power_Suc)
qed

lemma lex_digit_less:
  fixes x y :: nat
  assumes "x < y" "u < m" "v < m"
  shows "x * m + u < y * m + v"
proof -
  have "x * m + m \<le> y * m"
    using assms(1) by (metis Suc_leI mult_le_mono1 mult_Suc add.commute)
  with assms show ?thesis by linarith
qed

lemma bytes_compare_val:
  "length xs = length ys \<Longrightarrow>
    bytes_compare xs ys = (if be_val xs < be_val ys then -1 else if be_val ys < be_val xs then 1 else 0)"
proof (induction xs ys rule: list_induct2)
  case Nil
  then show ?case by simp
next
  case (Cons x xs y ys)
  have b: "be_val xs < 256 ^ length ys" "be_val ys < 256 ^ length ys"
    using be_val_bound [of xs] be_val_bound [of ys] Cons.hyps by auto
  consider "x < y" | "y < x" | "x = y" by fastforce
  then show ?case
  proof cases
    case 1
    then have "unat x < unat y" by (simp add: word_less_nat_alt)
    from lex_digit_less [OF this b] 1 Cons.hyps show ?thesis by (simp add: be_val_Cons)
  next
    case 2
    then have "unat y < unat x" by (simp add: word_less_nat_alt)
    from lex_digit_less [OF this b(2,1)] 2 Cons.hyps show ?thesis by (auto simp: be_val_Cons)
  next
    case 3
    with Cons show ?thesis by (simp add: be_val_Cons)
  qed
qed

text \<open>How many bytes of a hash a range looks at, and what it decides on them.\<close>

fun range_width :: "hash_range \<Rightarrow> nat" where
  "range_width (ExactMatch e) = length e"
| "range_width (RangeMatch a b) = length a"

fun range_matches :: "hash_range \<Rightarrow> bytes \<Rightarrow> bool" where
  "range_matches (ExactMatch e) h = (take (length e) h = e)"
| "range_matches (RangeMatch a b) h =
     (be_val a \<le> be_val (take (length a) h) \<and> be_val (take (length a) h) \<le> be_val b)"

lemma range_in_matches:
  assumes "range_wf g" "range_width g \<le> slice_len h"
  shows "range_in g h = ret (range_matches g (visible h))"
proof (cases g)
  case (ExactMatch e)
  then show ?thesis using assms by (auto simp: go_simps)
next
  case (RangeMatch a b)
  with assms have "length a = length (take (length a) (visible h))"
    "length b = length (take (length a) (visible h))" by (auto simp: slice_len_def)
  then show ?thesis
    using assms RangeMatch by (auto simp: go_simps bytes_compare_val)
qed

section \<open>The interface\<close>

text \<open>
  What the users of \<open>Range\<close> rely on: on a hash at least as wide as the range the method returns,
  and the answer is a function of the first \<open>width\<close> bytes.
\<close>

locale range_iface =
  fixes In :: "'r \<Rightarrow> slice \<Rightarrow> bool go"
    and valid :: "'r \<Rightarrow> bool"
    and width :: "'r \<Rightarrow> nat"
    and matches :: "'r \<Rightarrow> bytes \<Rightarrow> bool"
  assumes In_matches: "valid r \<Longrightarrow> width r \<le> slice_len h \<Longrightarrow> In r h = ret (matches r (visible h))"
    and matches_prefix: "valid r \<Longrightarrow> matches r (take (width r) bs) = matches r bs"
begin

lemma In_total: "valid r \<Longrightarrow> width r \<le> slice_len h \<Longrightarrow> In r h \<noteq> panic"
  by (simp add: In_matches)

lemma In_prefix_eq:
  assumes "valid r" "width r \<le> slice_len h" "width r \<le> slice_len k"
    and "take (width r) (visible h) = take (width r) (visible k)"
  shows "In r h = In r k"
proof -
  have "matches r (visible h) = matches r (visible k)"
    using assms(1,4) matches_prefix by metis
  then show ?thesis using assms by (simp add: In_matches)
qed

end

lemma range_matches_prefix: "range_wf g \<Longrightarrow> range_matches g (take (range_width g) bs) = range_matches g bs"
  by (cases g) auto

interpretation hr: range_iface range_in range_wf range_width range_matches
  by unfold_locales (simp_all add: range_in_matches range_matches_prefix)

section \<open>Properties\<close>



text \<open>C23. On every hash of at least the range's width, \<open>In\<close> decides the range numerically: an exact
  match is a byte prefix, an interval compares the prefix as a big-endian number with both ends.
  On any hash it panics exactly when the range is an interval and the slice's capacity is below
  its width; the exact match has the guard, the interval has not.\<close>

theorem range_in_correct:
  assumes "range_wf g"
  shows "(if range_width g \<le> slice_len h then range_in g h = ret (range_matches g (visible h)) else True) \<and>
    (range_in g h = panic \<longleftrightarrow> (\<exists>a b. g = RangeMatch a b \<and> slice_cap h < length a))"
proof
  show "if range_width g \<le> slice_len h then range_in g h = ret (range_matches g (visible h)) else True"
    using hr.In_matches [OF assms] by simp
  show "range_in g h = panic \<longleftrightarrow> (\<exists>a b. g = RangeMatch a b \<and> slice_cap h < length a)"
  proof (cases g)
    case (ExactMatch e)
    then show ?thesis by (auto simp: go_simps)
  next
    case (RangeMatch a b)
    then show ?thesis by (cases "reslice h (length a)") (auto simp: reslice_panics [symmetric])
  qed
qed

theorem range_in_correct_witness:
  "range_in (RangeMatch [0x10] [0x1F]) (Slice [0x1C, 0xAB] []) = ret True \<and>
   range_in (RangeMatch [0x10] [0x1F]) (Slice [] []) = panic"
  using range_in_correct [of "RangeMatch [0x10] [0x1F]" "Slice [0x1C, 0xAB] []"]
    range_in_correct [of "RangeMatch [0x10] [0x1F]" "Slice [] []"]
  by (simp add: slice_len_def slice_cap_def be_val_def)

text \<open>A range with an odd number of digits is completed with a trailing zero, so an exact
  range \<open>d\<close> matches a hash exactly when the hash's digits start with \<open>d\<close> followed by 0, not
  whenever they start with \<open>d\<close>.\<close>

theorem odd_prefix_padded:
  assumes "list_all is_hex d" "odd (length d)"
  shows "\<exists>p. NewRange d = ret (Inr (ExactMatch p)) \<and>
    (\<forall>h. range_in (ExactMatch p) h =
      ret (take (length d + 1) (nibbles (visible h)) = map (\<lambda>c. the (hex_val c)) d @ [0]))"
proof -
  obtain p where p: "HexToBytes d = ret p" "nibbles p = pad_digits d"
    using HexToBytes_digits [OF assms(1)] by blast
  from p(2) have "length (nibbles p) = length (pad_digits d)" by (rule arg_cong)
  then have len: "2 * length p = length d + 1"
    using assms(2) by (simp add: pad_digits_def)
  have "range_in (ExactMatch p) h = ret (take (length p) (visible h) = p)" for h
    by (auto simp: go_simps slice_len_def)
  moreover have "take (length p) bs = p \<longleftrightarrow> take (length d + 1) (nibbles bs) = nibbles p" for bs
    unfolding len [symmetric] take_nibbles by (auto dest: nibbles_inject)
  moreover have "nibbles p = map (\<lambda>c. the (hex_val c)) d @ [0]"
    using p(2) assms(2) by (simp add: pad_digits_def)
  ultimately have "range_in (ExactMatch p) h =
      ret (take (length d + 1) (nibbles (visible h)) = map (\<lambda>c. the (hex_val c)) d @ [0])" for h
    by simp
  moreover have "NewRange d = ret (Inr (ExactMatch p))"
    using p(1) assms by (auto simp: NewRange_exact_iff)
  ultimately show ?thesis by blast
qed

theorem odd_prefix_padded_witness:
  "\<exists>p. NewRange ''123'' = ret (Inr (ExactMatch p)) \<and>
    range_in (ExactMatch p) (Slice [0x12, 0x34] []) = ret False \<and>
    range_in (ExactMatch p) (Slice [0x12, 0x30] []) = ret True"
proof -
  have "list_all is_hex ''123''" "odd (length ''123'')"
    by (simp_all add: is_hex_def hex_val_def)
  from odd_prefix_padded [OF this] obtain p where p: "NewRange ''123'' = ret (Inr (ExactMatch p))"
    "\<And>h. range_in (ExactMatch p) h =
      ret (take (length ''123'' + 1) (nibbles (visible h)) = map (\<lambda>c. the (hex_val c)) ''123'' @ [0])"
    by blast
  show ?thesis
    using p(1) p(2) [of "Slice [0x12, 0x34] []"] p(2) [of "Slice [0x12, 0x30] []"]
    by (auto simp: hex_val_def simp del: range_in.simps)
qed

end
