(* ===== verification/Rules.thy ===== *)
theory Rules
  imports Ranges
begin

text \<open>
  Routing rules and destinations: storage/router/rule.go. A \<open>Destination\<close> is a pointer to a parsed
  URL and is used as a map key by its address, so a destination carries the address it was
  allocated at beside the parts of the URL the code reads. \<open>url.Parse\<close> is the parameter \<open>parse\<close>.
\<close>

record url =
  url_scheme :: string
  url_host :: string
  url_user :: "string option"

record destination =
  dst_addr :: nat
  dst_url :: url

record 'r rule =
  rule_range :: 'r
  rule_dest :: destination

definition SupportedScheme :: "string list" where
  "SupportedScheme = [''ardb'', ''zdb'', ''redis'']"

fun in_list :: "string \<Rightarrow> string list \<Rightarrow> bool" where
  "in_list s [] = False"
| "in_list s (a # l) = (if a = s then True else in_list s l)"

definition NewDestination :: "(string \<Rightarrow> string + url) \<Rightarrow> nat \<Rightarrow> string \<Rightarrow> rerr + destination" where
  "NewDestination parse addr dest =
     (case parse dest of
        Inl m \<Rightarrow> Inl (ErrUrl m)
      | Inr u \<Rightarrow>
          (if \<not> in_list (url_scheme u) SupportedScheme then Inl ErrUnknownScheme
           else Inr \<lparr>dst_addr = addr, dst_url = u\<rparr>))"

lemma in_list_set [simp]: "in_list s l \<longleftrightarrow> s \<in> set l"
  by (induction l) auto

text \<open>Whether a destination is accepted does not depend on where it is allocated.\<close>

definition dest_ok :: "(string \<Rightarrow> string + url) \<Rightarrow> string \<Rightarrow> bool" where
  "dest_ok parse dest \<longleftrightarrow>
     (case parse dest of Inl _ \<Rightarrow> False | Inr u \<Rightarrow> url_scheme u \<in> set SupportedScheme)"

lemma NewDestination_cases:
  obtains (bad) e where "NewDestination parse addr dest = Inl e" "\<not> dest_ok parse dest"
  | (good) u where "parse dest = Inr u" "dest_ok parse dest"
      "NewDestination parse addr dest = Inr \<lparr>dst_addr = addr, dst_url = u\<rparr>"
  by (cases "parse dest") (auto simp: NewDestination_def dest_ok_def split: if_splits)

end
