(* ===== verification/Pools.thy ===== *)
theory Pools
  imports Rules
begin

text \<open>
  Pools: storage/router/pool.go. The interface \<open>Pool\<close> is the locale \<open>pool_iface\<close>; \<open>ScanPool\<close>, which
  scans its rules in order, is its interpretation. The connection map of a pool is lazily filled
  and shared by every router that holds the pool, so it lives in an explicit store indexed by the
  pool's address. The redis client (dialling, GET, SET and their retries inside the client) is the
  parameter \<open>api\<close> over a state of the network.
\<close>

section \<open>Scanning the rules\<close>

record 'r scan_pool =
  sp_addr :: nat
  sp_rules :: "'r rule list"

definition NewScanPool :: "nat \<Rightarrow> 'r rule list \<Rightarrow> 'r scan_pool" where
  "NewScanPool addr rules = \<lparr>sp_addr = addr, sp_rules = rules\<rparr>"

fun rules_in :: "('r \<Rightarrow> slice \<Rightarrow> bool go) \<Rightarrow> 'r rule list \<Rightarrow> slice \<Rightarrow> bool go" where
  "rules_in In [] h = ret False"
| "rules_in In (rule # rules) h =
     do { b \<leftarrow> In (rule_range rule) h; if b then ret True else rules_in In rules h }"

fun rules_route :: "('r \<Rightarrow> slice \<Rightarrow> bool go) \<Rightarrow> 'r rule list \<Rightarrow> slice \<Rightarrow> destination option go" where
  "rules_route In [] h = ret None"
| "rules_route In (rule # rules) h =
     do {
       b \<leftarrow> In (rule_range rule) h;
       if b then ret (Some (rule_dest rule)) else rules_route In rules h
     }"

fun rules_routes :: "('r \<Rightarrow> slice \<Rightarrow> bool go) \<Rightarrow> 'r rule list \<Rightarrow> slice \<Rightarrow> destination list go" where
  "rules_routes In [] h = ret []"
| "rules_routes In (rule # rules) h =
     do {
       b \<leftarrow> In (rule_range rule) h;
       rest \<leftarrow> rules_routes In rules h;
       ret (if b then rule_dest rule # rest else rest)
     }"

definition scan_In :: "('r \<Rightarrow> slice \<Rightarrow> bool go) \<Rightarrow> 'r scan_pool \<Rightarrow> slice \<Rightarrow> bool go" where
  "scan_In In p h = rules_in In (sp_rules p) h"

definition scan_Route :: "('r \<Rightarrow> slice \<Rightarrow> bool go) \<Rightarrow> 'r scan_pool \<Rightarrow> slice \<Rightarrow> destination option go" where
  "scan_Route In p h = rules_route In (sp_rules p) h"

definition scan_Routes :: "('r \<Rightarrow> slice \<Rightarrow> bool go) \<Rightarrow> 'r scan_pool \<Rightarrow> slice \<Rightarrow> destination list go" where
  "scan_Routes In p h = rules_routes In (sp_rules p) h"

lemma rules_in_route:
  "rules_in In rules h = map_option (\<lambda>d. d \<noteq> None) (rules_route In rules h)"
proof (induction rules)
  case Nil
  then show ?case by simp
next
  case (Cons rule rules)
  then show ?case by (cases "In (rule_range rule) h") auto
qed

text \<open>\<open>Routes\<close> returning, \<open>Route\<close> returns its first element.\<close>

definition first_dest :: "destination list \<Rightarrow> destination option" where
  "first_dest ds = (case ds of [] \<Rightarrow> None | d # _ \<Rightarrow> Some d)"

lemma first_dest_simps [simp]: "first_dest [] = None" "first_dest (d # ds) = Some d"
  by (simp_all add: first_dest_def)

lemma rules_routes_route:
  "rules_routes In rules h = ret ds \<Longrightarrow> rules_route In rules h = ret (first_dest ds)"
proof (induction rules arbitrary: ds)
  case Nil
  then show ?case by simp
next
  case (Cons rule rules)
  from Cons.prems obtain b rest where
    "In (rule_range rule) h = ret b" "rules_routes In rules h = ret rest"
    "ds = (if b then rule_dest rule # rest else rest)" by (auto simp: go_bind_eq_ret)
  with Cons.IH [of rest] show ?case by simp
qed

lemma rules_route_dest:
  "rules_route In rules h = ret (Some d) \<Longrightarrow> d \<in> rule_dest ` set rules"
  by (induction rules) (auto simp: go_bind_eq_ret split: if_splits)

lemma rules_routes_dest:
  "rules_routes In rules h = ret ds \<Longrightarrow> set ds \<subseteq> rule_dest ` set rules"
  by (induction rules arbitrary: ds) (fastforce simp: go_bind_eq_ret split: if_splits)+

lemma scan_In_unroutable: "scan_In In p h = ret False \<longleftrightarrow> scan_Route In p h = ret None"
  by (auto simp: scan_In_def scan_Route_def rules_in_route)

lemma scan_In_routable: "scan_In In p h = ret True \<longleftrightarrow> (\<exists>d. scan_Route In p h = ret (Some d))"
  by (auto simp: scan_In_def scan_Route_def rules_in_route)

lemma rules_in_False_routes: "rules_in In rules h = ret False \<Longrightarrow> rules_routes In rules h = ret []"
  by (induction rules) (auto simp: go_bind_eq_ret split: if_splits)

text \<open>A pool sees as many bytes of a hash as its widest rule.\<close>

definition rules_width :: "('r \<Rightarrow> nat) \<Rightarrow> 'r rule list \<Rightarrow> nat" where
  "rules_width width rules = fold max (map (\<lambda>r. width (rule_range r)) rules) 0"

lemma fold_max_ge: "(k :: nat) \<le> fold max xs k \<and> (\<forall>x\<in>set xs. x \<le> fold max xs k)"
proof (induction xs arbitrary: k)
  case Nil
  then show ?case by simp
next
  case (Cons a xs)
  have "max a k \<le> fold max xs (max a k)" "\<forall>x\<in>set xs. x \<le> fold max xs (max a k)"
    using Cons [of "max a k"] by auto
  then show ?case by auto
qed

lemma rules_width_ge: "r \<in> set rules \<Longrightarrow> width (rule_range r) \<le> rules_width width rules"
  using fold_max_ge [of 0 "map (\<lambda>r. width (rule_range r)) rules"] by (auto simp: rules_width_def)

definition rules_valid :: "('r \<Rightarrow> bool) \<Rightarrow> 'r rule list \<Rightarrow> bool" where
  "rules_valid valid rules \<longleftrightarrow> list_all (\<lambda>r. valid (rule_range r)) rules"

definition rules_matching :: "('r \<Rightarrow> bytes \<Rightarrow> bool) \<Rightarrow> 'r rule list \<Rightarrow> bytes \<Rightarrow> 'r rule list" where
  "rules_matching matches rules bs = filter (\<lambda>r. matches (rule_range r) bs) rules"

context range_iface
begin

lemma rules_routes_matching_aux:
  "\<forall>r\<in>set rules. valid (rule_range r) \<and> width (rule_range r) \<le> slice_len h \<Longrightarrow>
    rules_routes In rules h = ret (map rule_dest (rules_matching matches rules (visible h)))"
  by (induction rules) (auto simp: In_matches rules_matching_def)

lemma rules_routes_matching:
  assumes "rules_valid valid rules" "rules_width width rules \<le> slice_len h"
  shows "rules_routes In rules h = ret (map rule_dest (rules_matching matches rules (visible h)))"
proof (rule rules_routes_matching_aux)
  show "\<forall>r\<in>set rules. valid (rule_range r) \<and> width (rule_range r) \<le> slice_len h"
    using assms rules_width_ge [of _ rules width] by (fastforce simp: rules_valid_def list_all_iff)
qed

lemma rules_route_matching:
  assumes "rules_valid valid rules" "rules_width width rules \<le> slice_len h"
  shows "rules_route In rules h =
    ret (first_dest (map rule_dest (rules_matching matches rules (visible h))))"
  using rules_routes_route [OF rules_routes_matching [OF assms]] .

lemma rules_in_matching:
  assumes "rules_valid valid rules" "rules_width width rules \<le> slice_len h"
  shows "rules_in In rules h = ret (rules_matching matches rules (visible h) \<noteq> [])"
  by (cases "rules_matching matches rules (visible h)")
    (simp_all add: rules_in_route rules_route_matching [OF assms])

end

section \<open>Connections\<close>

text \<open>The configuration of a \<open>redis.Pool\<close>; times in nanoseconds.\<close>

record redis_pool =
  rp_host :: string
  rp_password :: "string option"
  rp_MaxActive :: nat
  rp_MaxIdle :: nat
  rp_IdleTimeout :: nat
  rp_Wait :: bool

definition newPool :: "destination \<Rightarrow> redis_pool" where
  "newPool d =
     \<lparr>rp_host = url_host (dst_url d), rp_password = url_user (dst_url d),
      rp_MaxActive = 12, rp_MaxIdle = 4, rp_IdleTimeout = 60 * 10 ^ 9, rp_Wait = True\<rparr>"

text \<open>\<open>TestOnBorrow\<close>: the connection is pinged after more than ten seconds of inactivity; \<open>ping\<close> is
  the error of the PING.\<close>

definition test_on_borrow :: "rerr option \<Rightarrow> nat \<Rightarrow> rerr option" where
  "test_on_borrow ping idle = (if idle > 10 * 10 ^ 9 then ping else None)"

record 'k redis_api =
  ra_get :: "redis_pool \<Rightarrow> bytes \<Rightarrow> 'k \<Rightarrow> (rerr + bytes) \<times> 'k"
  ra_set :: "redis_pool \<Rightarrow> bytes \<Rightarrow> bytes \<Rightarrow> 'k \<Rightarrow> rerr option \<times> 'k"

record 'k world =
  wd_conn :: "nat \<Rightarrow> nat \<rightharpoonup> redis_pool"
  wd_net :: 'k

definition getPool ::
  "'r scan_pool \<Rightarrow> destination \<Rightarrow> 'k world \<Rightarrow> (rerr + redis_pool) \<times> 'k world" where
  "getPool p d w =
     (case wd_conn w (sp_addr p) (dst_addr d) of
        Some rp \<Rightarrow> (Inr rp, w)
      | None \<Rightarrow>
          let rp = newPool d
          in (Inr rp, w\<lparr>wd_conn := (wd_conn w)(sp_addr p := (wd_conn w (sp_addr p))(dst_addr d \<mapsto> rp))\<rparr>))"

definition blockGetRetries :: nat where "blockGetRetries = 3"

text \<open>The retry loop: \<open>trial\<close> counts from 1, \<open>prev\<close> is the result of the previous trial.\<close>

function get_trials ::
  "'k redis_api \<Rightarrow> redis_pool \<Rightarrow> bytes \<Rightarrow> nat \<Rightarrow> (rerr + bytes) \<Rightarrow> 'k \<Rightarrow> (rerr + bytes) \<times> 'k" where
  "get_trials api rp key trial prev n =
     (if trial \<le> blockGetRetries then
        (case ra_get api rp key n of
           (Inr bs, n') \<Rightarrow> (Inr bs, n')
         | (Inl e, n') \<Rightarrow>
             if e = RedisNil then (Inl e, n')
             else get_trials api rp key (trial + 1) (Inl e) n')
      else (prev, n))"
  by pat_completeness auto
termination
  by (relation "measure (\<lambda>(api, rp, key, trial, prev, n). blockGetRetries + 1 - trial)") auto

declare get_trials.simps [simp del]

definition pool_get :: "'k redis_api \<Rightarrow> redis_pool \<Rightarrow> bytes \<Rightarrow> 'k \<Rightarrow> (rerr + bytes) \<times> 'k" where
  "pool_get api rp key n = get_trials api rp key 1 (Inr []) n"

fun get_from ::
  "'k redis_api \<Rightarrow> 'r scan_pool \<Rightarrow> bytes \<Rightarrow> destination list \<Rightarrow> 'k world \<Rightarrow> (rerr + bytes) \<times> 'k world" where
  "get_from api p key [] w = (Inl ErrNotFound, w)"
| "get_from api p key (d # ds) w =
     (case getPool p d w of
        (Inl e, w1) \<Rightarrow> (Inl e, w1)
      | (Inr rp, w1) \<Rightarrow>
          (case pool_get api rp key (wd_net w1) of
             (Inl e, n) \<Rightarrow> get_from api p key ds (w1\<lparr>wd_net := n\<rparr>)
           | (Inr data, n) \<Rightarrow> (Inr data, w1\<lparr>wd_net := n\<rparr>)))"

definition scan_Get ::
  "('r \<Rightarrow> slice \<Rightarrow> bool go) \<Rightarrow> 'k redis_api \<Rightarrow> 'r scan_pool \<Rightarrow> slice \<Rightarrow> 'k world
    \<Rightarrow> ((rerr + bytes) \<times> 'k world) go" where
  "scan_Get In api p key w =
     do {
       dests \<leftarrow> scan_Routes In p key;
       if length dests = 0 then ret (Inl ErrNotRoutable, w)
       else ret (get_from api p (visible key) dests w)
     }"

definition scan_Set ::
  "('r \<Rightarrow> slice \<Rightarrow> bool go) \<Rightarrow> 'k redis_api \<Rightarrow> 'r scan_pool \<Rightarrow> slice \<Rightarrow> bytes \<Rightarrow> 'k world
    \<Rightarrow> (rerr option \<times> 'k world) go" where
  "scan_Set In api p key data w =
     do {
       dest \<leftarrow> scan_Route In p key;
       case dest of
         None \<Rightarrow> ret (Some ErrNotRoutable, w)
       | Some d \<Rightarrow>
           (case getPool p d w of
              (Inl e, w1) \<Rightarrow> ret (Some e, w1)
            | (Inr rp, w1) \<Rightarrow>
                (case ra_set api rp (visible key) data (wd_net w1) of
                   (err, n) \<Rightarrow> ret (err, w1\<lparr>wd_net := n\<rparr>)))
     }"

text \<open>\<open>ScanPool.String\<close>.\<close>

definition scan_String :: "hash_range scan_pool \<Rightarrow> string" where
  "scan_String p =
     ''scan-pool {'' @ [CHR 0x0A]
       @ concat (map (\<lambda>r. range_string (rule_range r) @ '' -> '' @ url_scheme (dst_url (rule_dest r))
           @ ''://'' @ url_host (dst_url (rule_dest r)) @ [CHR 0x0A]) (sp_rules p))
       @ ''}''"

section \<open>What the operations do\<close>

lemma get_trials_step:
  "trial \<le> blockGetRetries \<Longrightarrow>
    get_trials api rp key trial prev n =
      (case ra_get api rp key n of
         (Inr bs, n') \<Rightarrow> (Inr bs, n')
       | (Inl e, n') \<Rightarrow>
           if e = RedisNil then (Inl e, n') else get_trials api rp key (trial + 1) (Inl e) n')"
  by (subst get_trials.simps) simp

lemma get_trials_end: "blockGetRetries < trial \<Longrightarrow> get_trials api rp key trial prev n = (prev, n)"
  by (subst get_trials.simps) simp

lemma pool_get_unfold:
  "pool_get api rp key n =
    (case ra_get api rp key n of
       (Inr bs, n1) \<Rightarrow> (Inr bs, n1)
     | (Inl e1, n1) \<Rightarrow> if e1 = RedisNil then (Inl e1, n1) else
         (case ra_get api rp key n1 of
            (Inr bs, n2) \<Rightarrow> (Inr bs, n2)
          | (Inl e2, n2) \<Rightarrow> if e2 = RedisNil then (Inl e2, n2) else ra_get api rp key n2))"
  by (simp add: pool_get_def get_trials_step get_trials_end blockGetRetries_def
      split: prod.split sum.split)

lemma pool_get_first: "ra_get api rp key n = (Inr bs, n1) \<Longrightarrow> pool_get api rp key n = (Inr bs, n1)"
  by (simp add: pool_get_unfold)

text \<open>
  Two invariants tie the connection map to the rules. Addresses identify destinations: \<open>heap\<close> is
  the URL object at each address. Every cached connection pool was made for the object at its key.
\<close>

definition conn_ok :: "(nat \<Rightarrow> destination) \<Rightarrow> 'k world \<Rightarrow> bool" where
  "conn_ok heap w \<longleftrightarrow> (\<forall>pa a rp. wd_conn w pa a = Some rp \<longrightarrow> rp = newPool (heap a))"

definition dests_ok :: "(nat \<Rightarrow> destination) \<Rightarrow> destination list \<Rightarrow> bool" where
  "dests_ok heap ds \<longleftrightarrow> list_all (\<lambda>d. heap (dst_addr d) = d) ds"

definition pool_valid :: "(nat \<Rightarrow> destination) \<Rightarrow> hash_range scan_pool \<Rightarrow> 'k world \<Rightarrow> bool" where
  "pool_valid heap p w \<longleftrightarrow>
     rules_valid range_wf (sp_rules p) \<and> dests_ok heap (map rule_dest (sp_rules p)) \<and> conn_ok heap w"

text \<open>The specification of a lookup: each destination's own server is asked in order.\<close>

fun try_dests ::
  "'k redis_api \<Rightarrow> bytes \<Rightarrow> destination list \<Rightarrow> 'k \<Rightarrow> (rerr + bytes) \<times> 'k" where
  "try_dests api key [] n = (Inl ErrNotFound, n)"
| "try_dests api key (d # ds) n =
     (case pool_get api (newPool d) key n of
        (Inl e, n1) \<Rightarrow> try_dests api key ds n1
      | (Inr data, n1) \<Rightarrow> (Inr data, n1))"

lemma getPool_ok:
  assumes "conn_ok heap w" "heap (dst_addr d) = d"
  shows "\<exists>w1. getPool p d w = (Inr (newPool d), w1) \<and> wd_net w1 = wd_net w \<and> conn_ok heap w1"
proof (cases "wd_conn w (sp_addr p) (dst_addr d)")
  case None
  then show ?thesis using assms by (simp add: getPool_def conn_ok_def Let_def)
next
  case (Some rp)
  then have "rp = newPool d" using assms by (metis conn_ok_def)
  then show ?thesis using Some assms by (simp add: getPool_def)
qed

lemma conn_ok_net [simp]: "conn_ok heap (w\<lparr>wd_net := n\<rparr>) = conn_ok heap w"
  by (simp add: conn_ok_def)

lemma pool_valid_cong: "pool_valid heap p w \<Longrightarrow> conn_ok heap w' \<Longrightarrow> pool_valid heap p w'"
  by (simp add: pool_valid_def)

lemma get_from_refines:
  assumes "conn_ok heap w" "dests_ok heap ds"
  shows "\<exists>w'. get_from api p key ds w = (fst (try_dests api key ds (wd_net w)), w') \<and>
    wd_net w' = snd (try_dests api key ds (wd_net w)) \<and> conn_ok heap w'"
  using assms
proof (induction ds arbitrary: w)
  case Nil
  then show ?case by simp
next
  case (Cons d ds)
  obtain w1 where w1: "getPool p d w = (Inr (newPool d), w1)" "wd_net w1 = wd_net w" "conn_ok heap w1"
    using getPool_ok [of heap w d p] Cons.prems by (auto simp: dests_ok_def)
  obtain r n where r: "pool_get api (newPool d) key (wd_net w) = (r, n)" by fastforce
  show ?case
  proof (cases r)
    case (Inl e)
    have "conn_ok heap (w1\<lparr>wd_net := n\<rparr>)" "dests_ok heap ds"
      using w1 Cons.prems by (simp_all add: dests_ok_def)
    from Cons.IH [OF this] show ?thesis using w1 r Inl by simp
  next
    case (Inr data)
    then show ?thesis using w1 r by simp
  qed
qed

lemma try_dests_error: "fst (try_dests api key ds n) = Inl e \<Longrightarrow> e = ErrNotFound"
  by (induction ds arbitrary: n) (auto split: prod.splits sum.splits)

lemma scan_Get_refines:
  assumes "pool_valid heap p w" "scan_Routes range_in p h = ret ds" "ds \<noteq> []"
  shows "\<exists>w'. scan_Get range_in api p h w = ret (fst (try_dests api (visible h) ds (wd_net w)), w') \<and>
    wd_net w' = snd (try_dests api (visible h) ds (wd_net w)) \<and> conn_ok heap w'"
proof -
  have "set ds \<subseteq> rule_dest ` set (sp_rules p)"
    by (rule rules_routes_dest [OF assms(2) [unfolded scan_Routes_def]])
  then have "dests_ok heap ds"
    using assms(1) by (auto simp: pool_valid_def dests_ok_def list_all_iff)
  moreover have "conn_ok heap w" using assms(1) by (simp add: pool_valid_def)
  ultimately show ?thesis
    using get_from_refines [of heap w ds api p "visible h"] assms(2,3)
    by (auto simp: scan_Get_def)
qed

lemma scan_Set_refines:
  assumes "pool_valid heap p w" "scan_Route range_in p h = ret (Some d)"
  shows "\<exists>w'. scan_Set range_in api p h data w =
      ret (fst (ra_set api (newPool d) (visible h) data (wd_net w)), w') \<and>
    wd_net w' = snd (ra_set api (newPool d) (visible h) data (wd_net w)) \<and> conn_ok heap w'"
proof -
  have "d \<in> rule_dest ` set (sp_rules p)"
    by (rule rules_route_dest [OF assms(2) [unfolded scan_Route_def]])
  then have "heap (dst_addr d) = d"
    using assms(1) by (auto simp: pool_valid_def dests_ok_def list_all_iff)
  then obtain w1 where "getPool p d w = (Inr (newPool d), w1)" "wd_net w1 = wd_net w" "conn_ok heap w1"
    using getPool_ok assms(1) by (metis pool_valid_def)
  then show ?thesis
    using assms(2) by (auto simp: scan_Set_def split: prod.split)
qed

lemma scan_Get_unroutable:
  "scan_In In p h = ret False \<Longrightarrow> scan_Get In api p h w = ret (Inl ErrNotRoutable, w)"
  by (simp add: scan_Get_def scan_In_def scan_Routes_def rules_in_False_routes)

lemma scan_Set_unroutable:
  "scan_In In p h = ret False \<Longrightarrow> scan_Set In api p h d w = ret (Some ErrNotRoutable, w)"
  by (simp add: scan_Set_def scan_In_unroutable)

section \<open>The interface\<close>

text \<open>
  What the router relies on. \<open>width\<close> bounds the bytes a pool inspects; \<open>valid\<close> is the invariant of
  pool and store that every operation keeps; \<open>stored p h d w\<close> says that the pool holds block \<open>d\<close> under
  key \<open>h\<close>; \<open>reliable\<close> collects what is assumed of the servers for the laws about stored blocks.
\<close>

locale pool_iface =
  fixes In :: "'p \<Rightarrow> slice \<Rightarrow> bool go"
    and Get :: "'p \<Rightarrow> slice \<Rightarrow> 'w \<Rightarrow> ((rerr + bytes) \<times> 'w) go"
    and Set :: "'p \<Rightarrow> slice \<Rightarrow> bytes \<Rightarrow> 'w \<Rightarrow> (rerr option \<times> 'w) go"
    and valid :: "'p \<Rightarrow> 'w \<Rightarrow> bool"
    and width :: "'p \<Rightarrow> nat"
    and stored :: "'p \<Rightarrow> slice \<Rightarrow> bytes \<Rightarrow> 'w \<Rightarrow> bool"
    and reliable :: bool
  assumes In_total: "valid p w \<Longrightarrow> width p \<le> slice_len h \<Longrightarrow> In p h \<noteq> panic"
    and Get_unroutable: "In p h = ret False \<Longrightarrow> Get p h w = ret (Inl ErrNotRoutable, w)"
    and Set_unroutable: "In p h = ret False \<Longrightarrow> Set p h d w = ret (Some ErrNotRoutable, w)"
    and Get_routable: "valid p w \<Longrightarrow> width p \<le> slice_len h \<Longrightarrow> In p h = ret True \<Longrightarrow>
      \<exists>r w'. Get p h w = ret (r, w') \<and> r \<noteq> Inl ErrNotRoutable \<and> (\<forall>q. valid q w \<longrightarrow> valid q w')"
    and Set_routable: "valid p w \<Longrightarrow> width p \<le> slice_len h \<Longrightarrow> In p h = ret True \<Longrightarrow>
      \<exists>e w'. Set p h d w = ret (e, w') \<and> (\<forall>q. valid q w \<longrightarrow> valid q w')"
    and stored_Get: "reliable \<Longrightarrow> valid p w \<Longrightarrow> width p \<le> slice_len h \<Longrightarrow> stored p h d w \<Longrightarrow>
      \<exists>w'. Get p h w = ret (Inr d, w')"
    and Set_stored: "reliable \<Longrightarrow> valid p w \<Longrightarrow> Set p h d w = ret (None, w') \<Longrightarrow> stored p h d w'"
    and stored_Set: "reliable \<Longrightarrow> valid q w \<Longrightarrow> Set q k c w = ret (e, w') \<Longrightarrow> stored p h d w \<Longrightarrow>
      (visible k = visible h \<longrightarrow> c = d) \<Longrightarrow> stored p h d w'"
begin

lemma Get_total:
  assumes "valid p w" "width p \<le> slice_len h"
  obtains r w' where "Get p h w = ret (r, w')" "\<And>q. valid q w \<Longrightarrow> valid q w'"
proof (cases "In p h")
  case None
  then show ?thesis using In_total [OF assms] by simp
next
  case (Some b)
  show ?thesis
  proof (cases b)
    case True
    with Some have "In p h = ret True" by simp
    from Get_routable [OF assms this] show ?thesis using that by blast
  next
    case False
    then show ?thesis using Get_unroutable [of p h w] Some that by simp
  qed
qed

lemma Set_total:
  assumes "valid p w" "width p \<le> slice_len h"
  obtains e w' where "Set p h d w = ret (e, w')" "\<And>q. valid q w \<Longrightarrow> valid q w'"
proof (cases "In p h")
  case None
  then show ?thesis using In_total [OF assms] by simp
next
  case (Some b)
  show ?thesis
  proof (cases b)
    case True
    with Some have "In p h = ret True" by simp
    from Set_routable [OF assms this] show ?thesis using that by blast
  next
    case False
    then show ?thesis using Set_unroutable [of p h d w] Some that by simp
  qed
qed

lemma Get_keeps:
  assumes "valid p w" "width p \<le> slice_len h" "Get p h w = ret (r, w')" "valid q w"
  shows "valid q w'"
  using Get_total [OF assms(1,2)] assms(3,4) by (metis option.inject prod.inject)

lemma Set_keeps:
  assumes "valid p w" "width p \<le> slice_len h" "Set p h d w = ret (e, w')" "valid q w"
  shows "valid q w'"
  using Set_total [OF assms(1,2)] assms(3,4) by (metis option.inject prod.inject)

lemma read_back:
  assumes "reliable" "valid p w" "width p \<le> slice_len h" "Set p h d w = ret (None, w')"
  shows "\<exists>w''. Get p h w' = ret (Inr d, w'')"
  using stored_Get Set_stored Set_keeps assms by blast

end

text \<open>
  The documented behaviour of GET and SET that the laws about stored blocks need: \<open>db\<close> is what the
  servers hold. A GET of a held key returns it and changes nothing; a SET without error makes its
  value held; a SET never loses another key, nor the same key with the same value.
\<close>

definition redis_laws :: "'k redis_api \<Rightarrow> ('k \<Rightarrow> redis_pool \<Rightarrow> bytes \<Rightarrow> bytes option) \<Rightarrow> bool" where
  "redis_laws api db \<longleftrightarrow>
     (\<forall>rp k d n. db n rp k = Some d \<longrightarrow> (\<exists>n'. ra_get api rp k n = (Inr d, n') \<and> db n' = db n)) \<and>
     (\<forall>rp k d n n'. ra_set api rp k d n = (None, n') \<longrightarrow> db n' rp k = Some d) \<and>
     (\<forall>rp rp' k k' d d' e n n'. ra_set api rp k d n = (e, n') \<longrightarrow> db n rp' k' = Some d' \<longrightarrow>
        (k = k' \<longrightarrow> d = d') \<longrightarrow> db n' rp' k' = Some d')"

definition scan_stored ::
  "('k \<Rightarrow> redis_pool \<Rightarrow> bytes \<Rightarrow> bytes option) \<Rightarrow> hash_range scan_pool \<Rightarrow> slice \<Rightarrow> bytes
    \<Rightarrow> 'k world \<Rightarrow> bool" where
  "scan_stored db p h d w \<longleftrightarrow>
     (case scan_Route range_in p h of
        Some (Some d0) \<Rightarrow> db (wd_net w) (newPool d0) (visible h) = Some d
      | _ \<Rightarrow> False)"

definition scan_width :: "hash_range scan_pool \<Rightarrow> nat" where
  "scan_width p = rules_width range_width (sp_rules p)"

lemma scan_Routes_total:
  assumes "pool_valid heap p w" "scan_width p \<le> slice_len h"
  shows "scan_Routes range_in p h =
    ret (map rule_dest (rules_matching range_matches (sp_rules p) (visible h)))"
  using hr.rules_routes_matching assms by (simp add: scan_Routes_def pool_valid_def scan_width_def)

lemma scan_stored_Get:
  assumes "redis_laws api db" "pool_valid heap p w" "scan_width p \<le> slice_len h" "scan_stored db p h d w"
  shows "\<exists>w'. scan_Get range_in api p h w = ret (Inr d, w')"
proof -
  obtain ds where ds: "scan_Routes range_in p h = ret ds" using scan_Routes_total assms(2,3) by blast
  then have "scan_Route range_in p h = ret (first_dest ds)"
    by (simp add: scan_Routes_def scan_Route_def rules_routes_route)
  with assms(4) obtain d0 ds' where d0: "ds = d0 # ds'"
    and held: "db (wd_net w) (newPool d0) (visible h) = Some d"
    by (cases ds) (auto simp: scan_stored_def)
  obtain n' where "ra_get api (newPool d0) (visible h) (wd_net w) = (Inr d, n')"
    using assms(1) held unfolding redis_laws_def by metis
  then have "fst (try_dests api (visible h) ds (wd_net w)) = Inr d"
    by (simp add: d0 pool_get_first)
  moreover have "ds \<noteq> []" using d0 by simp
  ultimately show ?thesis using scan_Get_refines [OF assms(2) ds, of api] by metis
qed

lemma scan_Set_stored:
  assumes "redis_laws api db" "pool_valid heap p w" "scan_Set range_in api p h d w = ret (None, w')"
  shows "scan_stored db p h d w'"
proof -
  obtain d0 where d0: "scan_Route range_in p h = ret (Some d0)"
    using assms(3) by (auto simp: scan_Set_def go_bind_eq_ret split: option.splits)
  have *: "ra_set api (newPool d0) (visible h) d (wd_net w) = (None, wd_net w')"
    using scan_Set_refines [OF assms(2) d0, of api d] assms(3) by (auto simp: prod_eq_iff)
  have "db (wd_net w') (newPool d0) (visible h) = Some d"
    using assms(1) * unfolding redis_laws_def by blast
  then show ?thesis by (simp add: scan_stored_def d0)
qed

lemma scan_stored_Set:
  assumes "redis_laws api db" "pool_valid heap q w" "scan_Set range_in api q k c w = ret (e, w')"
    "scan_stored db p h d w" "visible k = visible h \<longrightarrow> c = d"
  shows "scan_stored db p h d w'"
proof -
  obtain ro where ro: "scan_Route range_in q k = ret ro"
    using assms(3) by (auto simp: scan_Set_def go_bind_eq_ret)
  consider "scan_Route range_in q k = ret None" | d0 where "scan_Route range_in q k = ret (Some d0)"
    using ro by (cases ro) auto
  then show ?thesis
  proof cases
    case 1
    then show ?thesis using assms(3,4) by (simp add: scan_Set_def)
  next
    case (2 d0)
    have *: "ra_set api (newPool d0) (visible k) c (wd_net w) = (e, wd_net w')"
      using scan_Set_refines [OF assms(2) 2, of api c] assms(3) by (auto simp: prod_eq_iff)
    have "db (wd_net w') rp (visible h) = Some d" if "db (wd_net w) rp (visible h) = Some d" for rp
      using assms(1,5) * that unfolding redis_laws_def by blast
    then show ?thesis using assms(4) by (auto simp: scan_stored_def split: option.splits)
  qed
qed

lemma scan_routable_Get:
  assumes "pool_valid heap p w" "scan_width p \<le> slice_len h" "scan_In range_in p h = ret True"
  shows "\<exists>r w'. scan_Get range_in api p h w = ret (r, w') \<and> r \<noteq> Inl ErrNotRoutable \<and>
    (\<forall>q. pool_valid heap q w \<longrightarrow> pool_valid heap q w')"
proof -
  obtain ds where ds: "scan_Routes range_in p h = ret ds" using scan_Routes_total assms(1,2) by blast
  have "ds \<noteq> []"
    using rules_routes_route [OF ds [unfolded scan_Routes_def]] assms(3)
    by (auto simp: scan_In_def rules_in_route)
  from scan_Get_refines [OF assms(1) ds this, of api] show ?thesis
    using try_dests_error [of api "visible h" ds "wd_net w"] by (fastforce intro: pool_valid_cong)
qed

lemma scan_routable_Set:
  assumes "pool_valid heap p w" "scan_In range_in p h = ret True"
  shows "\<exists>e w'. scan_Set range_in api p h d w = ret (e, w') \<and>
    (\<forall>q. pool_valid heap q w \<longrightarrow> pool_valid heap q w')"
proof -
  obtain d0 where "scan_Route range_in p h = ret (Some d0)" using assms(2) scan_In_routable by blast
  from scan_Set_refines [OF assms(1) this, of api d] show ?thesis by (fastforce intro: pool_valid_cong)
qed

interpretation sp: pool_iface "scan_In range_in" "scan_Get range_in api" "scan_Set range_in api"
  "pool_valid heap" scan_width "scan_stored db" "redis_laws api db"
  for api :: "'k redis_api" and heap :: "nat \<Rightarrow> destination"
    and db :: "'k \<Rightarrow> redis_pool \<Rightarrow> bytes \<Rightarrow> bytes option"
proof (unfold_locales, goal_cases)
  case (1 p w h)
  then show ?case
    using hr.rules_in_matching by (simp add: scan_In_def scan_width_def pool_valid_def)
next
  case 2 then show ?case by (rule scan_Get_unroutable)
next
  case 3 then show ?case by (rule scan_Set_unroutable)
next
  case 4 then show ?case by (rule scan_routable_Get)
next
  case 5 then show ?case by (blast intro: scan_routable_Set)
next
  case 6 then show ?case by (rule scan_stored_Get)
next
  case 7 then show ?case by (rule scan_Set_stored)
next
  case 8 then show ?case by (rule scan_stored_Set)
qed

section \<open>Properties\<close>

text \<open>An in-memory server and a pool with one catch-all rule, for the witnesses.\<close>

definition map_api :: "(redis_pool \<Rightarrow> bytes \<Rightarrow> bytes option) redis_api" where
  "map_api =
     \<lparr>ra_get = (\<lambda>rp k n. (case n rp k of None \<Rightarrow> Inl RedisNil | Some d \<Rightarrow> Inr d, n)),
      ra_set = (\<lambda>rp k d n. (None, n(rp := (n rp)(k \<mapsto> d))))\<rparr>"

definition sample_dest :: "nat \<Rightarrow> destination" where
  "sample_dest a =
     \<lparr>dst_addr = a, dst_url = \<lparr>url_scheme = ''zdb'', url_host = (if a = 0 then ''hub:9900'' else ''local:9900''), url_user = None\<rparr>\<rparr>"

definition sample_pool :: "hash_range scan_pool" where
  "sample_pool = NewScanPool 0 [\<lparr>rule_range = RangeMatch [0] [0xFF], rule_dest = sample_dest 0\<rparr>]"

definition sample_world :: "(redis_pool \<Rightarrow> bytes \<Rightarrow> bytes option) world" where
  "sample_world = \<lparr>wd_conn = (\<lambda>_. Map.empty), wd_net = (\<lambda>_. Map.empty)\<rparr>"

lemma redis_laws_map_api: "redis_laws map_api (\<lambda>n. n)"
  by (simp add: redis_laws_def map_api_def)

lemma sample_pool_valid: "pool_valid sample_dest sample_pool sample_world"
  by (simp add: pool_valid_def sample_pool_def sample_world_def NewScanPool_def rules_valid_def
      dests_ok_def conn_ok_def sample_dest_def)

lemma sample_pool_width: "scan_width sample_pool = 1"
  by (simp add: scan_width_def sample_pool_def NewScanPool_def rules_width_def)

text \<open>Scanning is filtering: for a hash no rule is wider than, \<open>Routes\<close> returns the destinations
  of exactly the matching rules in rule order, \<open>Route\<close> the first of them, and \<open>In\<close> says whether there
  is one.\<close>

theorem scan_pool_matching:
  assumes "rules_valid range_wf (sp_rules p)" "scan_width p \<le> slice_len h"
  defines "ms \<equiv> filter (\<lambda>r. range_matches (rule_range r) (visible h)) (sp_rules p)"
  shows "scan_Routes range_in p h = ret (map rule_dest ms) \<and>
    scan_Route range_in p h = ret (first_dest (map rule_dest ms)) \<and>
    scan_In range_in p h = ret (ms \<noteq> [])"
  using hr.rules_routes_matching [of "sp_rules p" h] hr.rules_route_matching [of "sp_rules p" h]
    hr.rules_in_matching [of "sp_rules p" h] assms(1,2)
  by (simp add: ms_def rules_matching_def scan_Routes_def scan_Route_def scan_In_def scan_width_def)

theorem scan_pool_matching_witness:
  "scan_Route range_in sample_pool (Slice [0xAB] []) = ret (Some (sample_dest 0))"
proof -
  have "rules_valid range_wf (sp_rules sample_pool)" "scan_width sample_pool \<le> slice_len (Slice [0xAB] [])"
    using sample_pool_valid by (simp_all add: pool_valid_def sample_pool_width slice_len_def)
  from scan_pool_matching [OF this] show ?thesis
    by (simp add: sample_pool_def NewScanPool_def be_val_def)
qed



primrec attempt ::
  "'k redis_api \<Rightarrow> redis_pool \<Rightarrow> bytes \<Rightarrow> 'k \<Rightarrow> nat \<Rightarrow> (rerr + bytes) \<times> 'k" where
  "attempt api rp key n 0 = ra_get api rp key n"
| "attempt api rp key n (Suc j) = ra_get api rp key (snd (attempt api rp key n j))"

definition transient :: "rerr + bytes \<Rightarrow> bool" where
  "transient r \<longleftrightarrow> (case r of Inl e \<Rightarrow> e \<noteq> RedisNil | Inr _ \<Rightarrow> False)"

text \<open>C38. Retries: a block is requested at most three times in a row from one server. The result is
  the first reply that is a value or "no such key"; only when two requests in a row failed
  otherwise is the reply of the third one returned as it is. \<open>attempt j\<close> is the reply of request
  \<open>j + 1\<close> with the state of the network after it.\<close>

theorem pool_get_retries:
  "\<exists>j\<le>2. pool_get api rp key n = attempt api rp key n j \<and>
    (\<forall>i<j. transient (fst (attempt api rp key n i))) \<and>
    (j < 2 \<longrightarrow> \<not> transient (fst (attempt api rp key n j)))"
proof -
  obtain r0 n0 where a0: "ra_get api rp key n = (r0, n0)" by fastforce
  obtain r1 n1 where a1: "ra_get api rp key n0 = (r1, n1)" by fastforce
  note sms = pool_get_unfold a0 a1 transient_def less_Suc_eq numeral_2_eq_2
  show ?thesis
  proof (cases "transient r0")
    case False
    then show ?thesis
      by (intro exI [of _ 0]) (auto simp: sms split: sum.splits)
  next
    case t0: True
    show ?thesis
    proof (cases "transient r1")
      case False
      with t0 show ?thesis
        by (intro exI [of _ "Suc 0"]) (auto simp: sms split: sum.splits)
    next
      case True
      with t0 show ?thesis
        by (intro exI [of _ "Suc (Suc 0)"]) (auto simp: sms split: sum.splits)
    qed
  qed
qed

text \<open>A server that answers from a script, one reply per request.\<close>

definition script_api :: "(rerr + bytes) list redis_api" where
  "script_api = \<lparr>ra_get = (\<lambda>rp k n. (hd n, tl n)), ra_set = (\<lambda>rp k d n. (None, n))\<rparr>"

theorem pool_get_retries_witness:
  "pool_get script_api (newPool (sample_dest 0)) [1] [Inl (RedisErr ''eof''), Inl (RedisErr ''eof''), Inr [7], Inr [9]]
    = (Inr [7], [Inr [9]])"
  using pool_get_retries [of script_api "newPool (sample_dest 0)" "[1]"
      "[Inl (RedisErr ''eof''), Inl (RedisErr ''eof''), Inr [7], Inr [9]]"]
  by (auto simp: script_api_def transient_def le_Suc_eq numeral_2_eq_2)

text \<open>What a pool accepts it serves: after a \<open>Set\<close> without error, \<open>Get\<close> of the same key returns
  the block, whatever other rules match the key, as long as the servers keep the documented
  contract of GET and SET.\<close>

theorem pool_read_back:
  assumes "redis_laws api db" "pool_valid heap p w" "scan_width p \<le> slice_len h"
    and "scan_Set range_in api p h d w = ret (None, w')"
  shows "\<exists>w''. scan_Get range_in api p h w' = ret (Inr d, w'')"
  using assms by (rule sp.read_back)

theorem pool_read_back_witness:
  "\<exists>w' w''. scan_Set range_in map_api sample_pool (Slice [0xAB] []) [1, 2] sample_world = ret (None, w') \<and>
    scan_Get range_in map_api sample_pool (Slice [0xAB] []) w' = ret (Inr [1, 2], w'')"
proof -
  have w: "scan_width sample_pool \<le> slice_len (Slice [0xAB] [])"
    by (simp add: sample_pool_width slice_len_def)
  have "\<exists>w'. scan_Set range_in map_api sample_pool (Slice [0xAB] []) [1, 2] sample_world = ret (None, w')"
    by (simp add: scan_Set_def scan_Route_def sample_pool_def NewScanPool_def go_simps slice_len_def
        bytes_compare_val be_val_def getPool_def sample_world_def map_api_def Let_def)
  then show ?thesis
    using pool_read_back [OF redis_laws_map_api sample_pool_valid w] by blast
qed

end
