(* ===== verification/Routers.thy ===== *)
theory Routers
  imports Pools "HOL-Library.Multiset"
begin

text \<open>
  The router: storage/router/router.go. Lookup over the pools in the order of the table, the cache
  update and its commit workers, and the merge of several routers. Everything is over the \<open>Pool\<close>
  interface: the operations \<open>Get\<close> and \<open>Set\<close> of the pools are arguments, and the facts that need
  their contract are proved inside \<open>pool_iface\<close>.
\<close>

section \<open>Lookup\<close>

record 'p router =
  rt_pools :: "string \<rightharpoonup> 'p"
  rt_lookup :: "string list"
  rt_cache :: "string set"

record chunk =
  ck_key :: slice
  ck_data :: bytes

fun lookup_get ::
  "('p \<Rightarrow> slice \<Rightarrow> 'w \<Rightarrow> ((rerr + bytes) \<times> 'w) go) \<Rightarrow> (string \<rightharpoonup> 'p) \<Rightarrow> string list \<Rightarrow> slice \<Rightarrow> 'w
    \<Rightarrow> ((rerr + string \<times> bytes) \<times> 'w) go" where
  "lookup_get Get pools [] key w = ret (Inl (Wrapped ErrNotRoutable ''no pools matches key''), w)"
| "lookup_get Get pools (poolName # names) key w =
     (case pools poolName of
        None \<Rightarrow> ret (Inl ErrPoolNotFound, w)
      | Some pool \<Rightarrow>
          do {
            (r, w1) \<leftarrow> Get pool key w;
            case r of
              Inl err \<Rightarrow>
                if err = ErrNotRoutable \<or> err = RedisNil then lookup_get Get pools names key w1
                else lookup_get Get pools names key w1
            | Inr data \<Rightarrow> ret (Inr (poolName, data), w1)
          })"

definition router_get ::
  "('p \<Rightarrow> slice \<Rightarrow> 'w \<Rightarrow> ((rerr + bytes) \<times> 'w) go) \<Rightarrow> 'p router \<Rightarrow> slice \<Rightarrow> 'w
    \<Rightarrow> ((rerr + string \<times> bytes) \<times> 'w) go" where
  "router_get Get r key w = lookup_get Get (rt_pools r) (rt_lookup r) key w"

text \<open>\<open>updateCache\<close> sends the block to the feed, unless it came from a cache pool.\<close>

definition updateCache :: "'p router \<Rightarrow> string \<Rightarrow> slice \<Rightarrow> bytes \<Rightarrow> chunk option" where
  "updateCache r src key data =
     (if src \<in> rt_cache r then None else Some \<lparr>ck_key = key, ck_data = data\<rparr>)"

definition router_Get ::
  "('p \<Rightarrow> slice \<Rightarrow> 'w \<Rightarrow> ((rerr + bytes) \<times> 'w) go) \<Rightarrow> 'p router \<Rightarrow> slice \<Rightarrow> 'w
    \<Rightarrow> ((rerr + bytes) \<times> chunk option \<times> 'w) go" where
  "router_Get Get r key w =
     do {
       (res, w1) \<leftarrow> router_get Get r key w;
       case res of
         Inl err \<Rightarrow> ret (Inl err, None, w1)
       | Inr (src, data) \<Rightarrow> ret (Inr data, updateCache r src key data, w1)
     }"

text \<open>What the configuration check promises the router.\<close>

definition router_wf :: "'p router \<Rightarrow> bool" where
  "router_wf r \<longleftrightarrow> set (rt_lookup r) \<subseteq> dom (rt_pools r) \<and> rt_cache r \<subseteq> dom (rt_pools r) \<and> finite (rt_cache r)"

text \<open>The state after every pool of a list has failed in turn, if they all do.\<close>

fun all_fail ::
  "('p \<Rightarrow> slice \<Rightarrow> 'w \<Rightarrow> ((rerr + bytes) \<times> 'w) go) \<Rightarrow> (string \<rightharpoonup> 'p) \<Rightarrow> string list \<Rightarrow> slice \<Rightarrow> 'w
    \<Rightarrow> 'w option" where
  "all_fail Get pools [] key w = Some w"
| "all_fail Get pools (n # ns) key w =
     (case pools n of
        None \<Rightarrow> None
      | Some p \<Rightarrow>
          (case Get p key w of
             Some (Inl e, w1) \<Rightarrow> all_fail Get pools ns key w1
           | _ \<Rightarrow> None))"

lemma lookup_get_all_fail:
  "all_fail Get pools ns key w = Some w1 \<Longrightarrow>
    lookup_get Get pools (ns @ ms) key w = lookup_get Get pools ms key w1"
proof (induction ns arbitrary: w)
  case Nil
  then show ?case by simp
next
  case (Cons n ns)
  then show ?case by (auto split: option.splits sum.splits)
qed

lemma lookup_get_hit:
  assumes "all_fail Get pools pre key w = Some w1" "pools n = Some p" "Get p key w1 = ret (Inr d, w2)"
  shows "lookup_get Get pools (pre @ n # post) key w = ret (Inr (n, d), w2)"
  using lookup_get_all_fail [OF assms(1), of "n # post"] assms(2,3) by simp

lemma lookup_get_hitD:
  "lookup_get Get pools ns key w = ret (Inr (n, d), w2) \<Longrightarrow>
    \<exists>pre post p w1. ns = pre @ n # post \<and> all_fail Get pools pre key w = Some w1 \<and>
      pools n = Some p \<and> Get p key w1 = ret (Inr d, w2)"
proof (induction ns arbitrary: w)
  case Nil
  then show ?case by simp
next
  case (Cons m ns)
  from Cons.prems obtain p r w1 where p: "pools m = Some p" "Get p key w = ret (r, w1)"
    by (auto simp: go_bind_eq_ret split: option.splits)
  show ?case
  proof (cases r)
    case (Inl e)
    with Cons.prems p have "lookup_get Get pools ns key w1 = ret (Inr (n, d), w2)" by simp
    from Cons.IH [OF this] obtain pre post p' w' where
      "ns = pre @ n # post" "all_fail Get pools pre key w1 = Some w'"
      "pools n = Some p'" "Get p' key w' = ret (Inr d, w2)" by blast
    then show ?thesis
      using p Inl by (intro exI [of _ "m # pre"] exI [of _ post] exI [of _ p'] exI [of _ w']) simp
  next
    case (Inr data)
    with Cons.prems p have "Get p key w = ret (Inr d, w2)" "m = n" by simp_all
    then show ?thesis
      using p by (intro exI [of _ "[]"] exI [of _ ns] exI [of _ p] exI [of _ w]) simp
  qed
qed

context pool_iface
begin

lemma lookup_get_total:
  assumes "set ns \<subseteq> dom pools" "\<forall>p\<in>ran pools. valid p w \<and> width p \<le> slice_len key"
  shows "\<exists>res w'. lookup_get Get pools ns key w = ret (res, w') \<and>
    (\<forall>q. valid q w \<longrightarrow> valid q w') \<and>
    (case res of Inl e \<Rightarrow> e = Wrapped ErrNotRoutable ''no pools matches key'' \<and> all_fail Get pools ns key w = Some w'
     | Inr (n, d) \<Rightarrow> n \<in> set ns)"
  using assms
proof (induction ns arbitrary: w)
  case Nil
  then show ?case by simp
next
  case (Cons n ns)
  then obtain p where p: "pools n = Some p" "valid p w" "width p \<le> slice_len key"
    by (auto simp: ran_def)
  obtain r w1 where r: "Get p key w = ret (r, w1)" "\<And>q. valid q w \<Longrightarrow> valid q w1"
    using Get_total [OF p(2,3)] by blast
  show ?case
  proof (cases r)
    case (Inl e)
    have "set ns \<subseteq> dom pools" "\<forall>p\<in>ran pools. valid p w1 \<and> width p \<le> slice_len key"
      using Cons.prems r(2) by auto
    from Cons.IH [OF this] show ?thesis
      using p r Inl by (fastforce split: sum.splits)
  next
    case (Inr d)
    then show ?thesis using p r by simp
  qed
qed

end

section \<open>The commit workers\<close>

text \<open>
  One round of a worker: the block goes to every cache pool, in the iteration order \<open>names\<close> of the
  cache set. A pool missing from the table is a nil interface, and the call panics. Errors are only
  logged; the result lists them.
\<close>

fun commit_chunk ::
  "('p \<Rightarrow> slice \<Rightarrow> bytes \<Rightarrow> 'w \<Rightarrow> (rerr option \<times> 'w) go) \<Rightarrow> (string \<rightharpoonup> 'p) \<Rightarrow> string list \<Rightarrow> chunk \<Rightarrow> 'w
    \<Rightarrow> ((string \<times> rerr option) list \<times> 'w) go" where
  "commit_chunk Set pools [] c w = ret ([], w)"
| "commit_chunk Set pools (name # names) c w =
     (case pools name of
        None \<Rightarrow> panic
      | Some pool \<Rightarrow>
          do {
            (err, w1) \<leftarrow> Set pool (ck_key c) (ck_data c) w;
            (errs, w2) \<leftarrow> commit_chunk Set pools names c w1;
            ret ((name, err) # errs, w2)
          })"

lemma commit_chunk_ConsE:
  assumes "commit_chunk Set pools (name # names) c w = ret (errs, w')"
  obtains p err w1 errs' where "pools name = Some p" "Set p (ck_key c) (ck_data c) w = ret (err, w1)"
    "commit_chunk Set pools names c w1 = ret (errs', w')" "errs = (name, err) # errs'"
proof (cases "pools name")
  case None
  then show ?thesis using assms by simp
next
  case (Some p)
  with assms obtain err w1 where s: "Set p (ck_key c) (ck_data c) w = ret (err, w1)"
    "do { (errs, w2) \<leftarrow> commit_chunk Set pools names c w1; ret ((name, err) # errs, w2) } = ret (errs, w')"
    by (auto simp: go_bind_eq_ret)
  then obtain errs' where "commit_chunk Set pools names c w1 = ret (errs', w')" "errs = (name, err) # errs'"
    by (auto simp: go_bind_eq_ret)
  with s Some show ?thesis by (intro that)
qed

lemma router_Get_fed:
  assumes "router_Get Get r key w = ret (Inr d, Some ck, w1)"
  obtains src where "lookup_get Get (rt_pools r) (rt_lookup r) key w = ret (Inr (src, d), w1)"
    "src \<notin> rt_cache r" "ck = \<lparr>ck_key = key, ck_data = d\<rparr>"
proof (cases "router_get Get r key w")
  case None
  with assms show ?thesis by (simp add: router_Get_def)
next
  case (Some rw)
  obtain res w' where rw: "rw = (res, w')" by (cases rw)
  show ?thesis
  proof (cases res)
    case (Inl e)
    then show ?thesis using assms Some rw by (simp add: router_Get_def)
  next
    case (Inr sd)
    obtain src data where "sd = (src, data)" by (cases sd)
    then show ?thesis
      using assms Some rw Inr that [of src]
      by (auto simp: router_Get_def router_get_def updateCache_def split: if_splits)
  qed
qed

context pool_iface
begin

lemma commit_keeps_stored:
  assumes "reliable" "\<forall>p\<in>ran pools. valid p w \<and> width p \<le> slice_len (ck_key c)"
    and "commit_chunk Set pools names c w = ret (errs, w')" "stored p (ck_key c) (ck_data c) w"
  shows "stored p (ck_key c) (ck_data c) w'"
  using assms(2-)
proof (induction names arbitrary: w errs)
  case Nil
  then show ?case by simp
next
  case (Cons name names)
  from Cons.prems(2) obtain q err w1 errs' where
    q: "pools name = Some q" "Set q (ck_key c) (ck_data c) w = ret (err, w1)"
    and rest: "commit_chunk Set pools names c w1 = ret (errs', w')"
    by (rule commit_chunk_ConsE)
  have v: "valid q w" "width q \<le> slice_len (ck_key c)" using Cons.prems(1) q(1) by (auto simp: ran_def)
  have "\<forall>p\<in>ran pools. valid p w1 \<and> width p \<le> slice_len (ck_key c)"
    using Set_keeps [OF v q(2)] Cons.prems(1) by blast
  moreover have "stored p (ck_key c) (ck_data c) w1"
    using stored_Set [OF assms(1) v(1) q(2) Cons.prems(3)] by simp
  ultimately show ?case using Cons.IH rest by blast
qed

lemma commit_stores:
  assumes "reliable" "\<forall>p\<in>ran pools. valid p w \<and> width p \<le> slice_len (ck_key c)"
    and "commit_chunk Set pools names c w = ret (errs, w')" "(name, None) \<in> set errs"
  shows "\<exists>p. pools name = Some p \<and> stored p (ck_key c) (ck_data c) w'"
  using assms(2-)
proof (induction names arbitrary: w errs)
  case Nil
  then show ?case by simp
next
  case (Cons n names)
  from Cons.prems(2) obtain q err w1 errs' where
    q: "pools n = Some q" "Set q (ck_key c) (ck_data c) w = ret (err, w1)"
    and rest: "commit_chunk Set pools names c w1 = ret (errs', w')" "errs = (n, err) # errs'"
    by (rule commit_chunk_ConsE)
  have v: "valid q w" "width q \<le> slice_len (ck_key c)" using Cons.prems(1) q(1) by (auto simp: ran_def)
  have all: "\<forall>p\<in>ran pools. valid p w1 \<and> width p \<le> slice_len (ck_key c)"
    using Set_keeps [OF v q(2)] Cons.prems(1) by blast
  show ?case
  proof (cases "name = n \<and> err = None")
    case True
    then have "stored q (ck_key c) (ck_data c) w1"
      using Set_stored [OF assms(1) v(1)] q(2) by simp
    then show ?thesis using commit_keeps_stored [OF assms(1) all rest(1)] q(1) True by blast
  next
    case False
    then show ?thesis using Cons.IH [OF all rest(1)] Cons.prems(3) rest(2) by auto
  qed
qed

lemma commit_keeps:
  assumes "\<forall>p\<in>ran pools. valid p w \<and> width p \<le> slice_len (ck_key c)"
    and "commit_chunk Set pools names c w = ret (errs, w')" "valid q w"
  shows "valid q w'"
  using assms
proof (induction names arbitrary: w errs)
  case Nil
  then show ?case by simp
next
  case (Cons n names)
  from Cons.prems(2) obtain p err w1 errs' where
    p: "pools n = Some p" "Set p (ck_key c) (ck_data c) w = ret (err, w1)"
    and rest: "commit_chunk Set pools names c w1 = ret (errs', w')"
    by (rule commit_chunk_ConsE)
  have v: "valid p w" "width p \<le> slice_len (ck_key c)" using Cons.prems(1) p(1) by (auto simp: ran_def)
  have "\<forall>p\<in>ran pools. valid p w1 \<and> width p \<le> slice_len (ck_key c)" "valid q w1"
    using Set_keeps [OF v p(2)] Cons.prems(1,3) by blast+
  with Cons.IH rest show ?case by blast
qed

lemma commit_total:
  assumes "set names \<subseteq> dom pools" "\<forall>p\<in>ran pools. valid p w \<and> width p \<le> slice_len (ck_key c)"
  shows "\<exists>errs w'. commit_chunk Set pools names c w = ret (errs, w') \<and>
    (\<forall>q. valid q w \<longrightarrow> valid q w') \<and> map fst errs = names"
  using assms
proof (induction names arbitrary: w)
  case Nil
  then show ?case by simp
next
  case (Cons n names)
  then obtain p where p: "pools n = Some p" "valid p w" "width p \<le> slice_len (ck_key c)"
    by (auto simp: ran_def)
  obtain r w1 where r: "Set p (ck_key c) (ck_data c) w = ret (r, w1)" "\<And>q. valid q w \<Longrightarrow> valid q w1"
    using Set_total [OF p(2,3)] by blast
  have "set names \<subseteq> dom pools" "\<forall>p\<in>ran pools. valid p w1 \<and> width p \<le> slice_len (ck_key c)"
    using Cons.prems r(2) by auto
  from Cons.IH [OF this] show ?case using p r by fastforce
qed

text \<open>
  A block that was found behind the cache and committed is served by the cache from then on: the
  pool \<open>c\<close> heads the table and belongs to the cache.
\<close>

lemma cached_block_served:
  assumes "reliable" "router_wf r" "rt_lookup r = c # rest" "c \<in> rt_cache r"
    and "\<forall>p\<in>ran (rt_pools r). valid p w \<and> width p \<le> slice_len key"
    and "router_Get Get r key w = ret (Inr d, Some ck, w1)"
    and "commit_chunk Set (rt_pools r) names ck w1 = ret (errs, w2)" "(c, None) \<in> set errs"
  shows "\<exists>w3. router_Get Get r key w2 = ret (Inr d, None, w3)"
proof -
  obtain src where src: "lookup_get Get (rt_pools r) (rt_lookup r) key w = ret (Inr (src, d), w1)"
    "ck = \<lparr>ck_key = key, ck_data = d\<rparr>"
    by (rule router_Get_fed [OF assms(6)])
  have keep: "\<forall>q. valid q w \<longrightarrow> valid q w1"
    using lookup_get_total [OF _ assms(5), of "rt_lookup r"] src(1) assms(2) by (auto simp: router_wf_def)
  then have all1: "\<forall>p\<in>ran (rt_pools r). valid p w1 \<and> width p \<le> slice_len (ck_key ck)"
    using assms(5) src(2) by auto
  obtain p where p: "rt_pools r c = Some p" "stored p key d w2"
    using commit_stores [OF assms(1) all1 assms(7,8)] src(2) by auto
  have v: "valid p w1" "width p \<le> slice_len key" using all1 p(1) src(2) by (auto simp: ran_def)
  have "valid p w2" by (rule commit_keeps [OF all1 assms(7) v(1)])
  then obtain w3 where "Get p key w2 = ret (Inr d, w3)"
    using stored_Get [OF assms(1) _ v(2) p(2)] by blast
  then show ?thesis
    using p(1) assms(3,4) by (simp add: router_Get_def router_get_def updateCache_def)
qed

end

section \<open>The commit system\<close>

text \<open>
  The feed is an unbuffered channel: a \<open>Get\<close> that has a block for the cache waits in its send until
  a worker receives it. The workers are started by the first such call (\<open>sync.Once\<close>). A busy worker
  holds its block and the cache pools it has still to write; the map iteration order is not
  determined, so any remaining pool may be next. A step carries a label, so that a run shows which
  blocks were sent and which writes were made.
\<close>

definition commitWorkers :: nat where "commitWorkers = 100"

record 'w commit =
  cm_waiting :: "chunk multiset"
  cm_workers :: "(chunk \<times> string set) option list"
  cm_world :: 'w
  cm_crashed :: bool

datatype label =
    Send chunk
  | Receive nat chunk
  | Write nat chunk string "rerr option"
  | Finish nat
  | Crash nat

definition init_workers :: "(chunk \<times> string set) option list \<Rightarrow> (chunk \<times> string set) option list" where
  "init_workers ws = (if ws = [] then replicate commitWorkers None else ws)"

inductive commit_step ::
  "('p \<Rightarrow> slice \<Rightarrow> bytes \<Rightarrow> 'w \<Rightarrow> (rerr option \<times> 'w) go) \<Rightarrow> 'p router \<Rightarrow> 'w commit \<Rightarrow> label \<Rightarrow> 'w commit \<Rightarrow> bool"
  for Set r where
  send: "\<not> cm_crashed s \<Longrightarrow>
    commit_step Set r s (Send c)
      (s\<lparr>cm_waiting := add_mset c (cm_waiting s), cm_workers := init_workers (cm_workers s)\<rparr>)"
| receive: "\<not> cm_crashed s \<Longrightarrow> i < length (cm_workers s) \<Longrightarrow> cm_workers s ! i = None \<Longrightarrow>
    c \<in># cm_waiting s \<Longrightarrow>
    commit_step Set r s (Receive i c)
      (s\<lparr>cm_waiting := cm_waiting s - {#c#}, cm_workers := (cm_workers s)[i := Some (c, rt_cache r)]\<rparr>)"
| set: "\<not> cm_crashed s \<Longrightarrow> i < length (cm_workers s) \<Longrightarrow> cm_workers s ! i = Some (c, ns) \<Longrightarrow>
    n \<in> ns \<Longrightarrow> rt_pools r n = Some p \<Longrightarrow> Set p (ck_key c) (ck_data c) (cm_world s) = ret (e, w') \<Longrightarrow>
    commit_step Set r s (Write i c n e)
      (s\<lparr>cm_workers := (cm_workers s)[i := Some (c, ns - {n})], cm_world := w'\<rparr>)"
| finish: "\<not> cm_crashed s \<Longrightarrow> i < length (cm_workers s) \<Longrightarrow> cm_workers s ! i = Some (c, {}) \<Longrightarrow>
    commit_step Set r s (Finish i) (s\<lparr>cm_workers := (cm_workers s)[i := None]\<rparr>)"
| crash: "\<not> cm_crashed s \<Longrightarrow> i < length (cm_workers s) \<Longrightarrow> cm_workers s ! i = Some (c, ns) \<Longrightarrow>
    n \<in> ns \<Longrightarrow>
    (case rt_pools r n of None \<Rightarrow> True
     | Some p \<Rightarrow> Set p (ck_key c) (ck_data c) (cm_world s) = panic) \<Longrightarrow>
    commit_step Set r s (Crash i) (s\<lparr>cm_crashed := True\<rparr>)"

inductive_cases commit_stepE: "commit_step Set r s l s'"

inductive commit_run ::
  "('p \<Rightarrow> slice \<Rightarrow> bytes \<Rightarrow> 'w \<Rightarrow> (rerr option \<times> 'w) go) \<Rightarrow> 'p router \<Rightarrow> 'w commit \<Rightarrow> label list \<Rightarrow> 'w commit \<Rightarrow> bool"
  for Set r where
  none: "commit_run Set r s [] s"
| step: "commit_step Set r s l s' \<Longrightarrow> commit_run Set r s' ls s'' \<Longrightarrow> commit_run Set r s (l # ls) s''"

text \<open>The writes of a run, the blocks sent, and the writes still owed in a state.\<close>

definition writes :: "label list \<Rightarrow> (chunk \<times> string) multiset" where
  "writes ls = mset (List.map_filter (\<lambda>l. case l of Write i c n e \<Rightarrow> Some (c, n) | _ \<Rightarrow> None) ls)"

definition sends :: "label list \<Rightarrow> chunk multiset" where
  "sends ls = mset (List.map_filter (\<lambda>l. case l of Send c \<Rightarrow> Some c | _ \<Rightarrow> None) ls)"

definition to_all :: "string set \<Rightarrow> chunk \<Rightarrow> (chunk \<times> string) multiset" where
  "to_all ns c = image_mset (Pair c) (mset_set ns)"

definition owed_by :: "(chunk \<times> string set) option \<Rightarrow> (chunk \<times> string) multiset" where
  "owed_by b = (case b of None \<Rightarrow> {#} | Some (c, ns) \<Rightarrow> to_all ns c)"

definition owed :: "'p router \<Rightarrow> 'w commit \<Rightarrow> (chunk \<times> string) multiset" where
  "owed r s = sum_mset (image_mset (to_all (rt_cache r)) (cm_waiting s)) + sum_list (map owed_by (cm_workers s))"

definition quiescent :: "'w commit \<Rightarrow> bool" where
  "quiescent s \<longleftrightarrow> cm_waiting s = {#} \<and> list_all (\<lambda>b. b = None) (cm_workers s)"

definition initial_commit :: "'w \<Rightarrow> 'w commit" where
  "initial_commit w = \<lparr>cm_waiting = {#}, cm_workers = [], cm_world = w, cm_crashed = False\<rparr>"

text \<open>The cache pools a busy worker still has to write are pools of the cache.\<close>

definition workers_ok :: "'p router \<Rightarrow> 'w commit \<Rightarrow> bool" where
  "workers_ok r s \<longleftrightarrow>
     list_all (\<lambda>b. case b of None \<Rightarrow> True | Some (c, ns) \<Rightarrow> ns \<subseteq> rt_cache r) (cm_workers s)"

lemma sum_list_update_mset:
  fixes f :: "'a \<Rightarrow> 'b multiset"
  assumes "i < length xs"
  shows "sum_list (map f (xs[i := x])) + f (xs ! i) = sum_list (map f xs) + f x"
  using assms
proof (induction xs arbitrary: i)
  case Nil
  then show ?case by simp
next
  case (Cons a xs)
  then show ?case by (cases i) (simp_all add: ac_simps)
qed

lemma sum_list_update_nat:
  fixes f :: "'a \<Rightarrow> nat"
  assumes "i < length xs"
  shows "sum_list (map f (xs[i := x])) + f (xs ! i) = sum_list (map f xs) + f x"
  using assms
proof (induction xs arbitrary: i)
  case Nil
  then show ?case by simp
next
  case (Cons a xs)
  then show ?case by (cases i) (simp_all add: ac_simps)
qed

lemma sum_list_empty: "(\<And>x. x \<in> set xs \<Longrightarrow> f x = {#}) \<Longrightarrow> sum_list (map f xs) = {#}"
  by (induction xs) auto

lemma writes_Cons: "writes (l # ls) = writes [l] + writes ls"
  by (simp add: writes_def List.map_filter_def)

lemma sends_Cons: "sends (l # ls) = sends [l] + sends ls"
  by (simp add: sends_def List.map_filter_def)

lemma owed_by_simps [simp]: "owed_by None = {#}" "owed_by (Some (c, ns)) = to_all ns c" "to_all {} c = {#}"
  by (simp_all add: owed_by_def to_all_def)

lemma to_all_remove: "finite ns \<Longrightarrow> n \<in> ns \<Longrightarrow> to_all ns c = add_mset (c, n) (to_all (ns - {n}) c)"
  by (simp add: to_all_def mset_set.remove)

lemma owed_init_workers: "sum_list (map owed_by (init_workers ws)) = sum_list (map owed_by ws)"
  using sum_list_empty [of "replicate commitWorkers None" owed_by] by (auto simp: init_workers_def)

lemma workers_nth:
  "workers_ok r s \<Longrightarrow> i < length (cm_workers s) \<Longrightarrow> cm_workers s ! i = Some (c, ns) \<Longrightarrow> ns \<subseteq> rt_cache r"
  by (fastforce simp: workers_ok_def list_all_length)

lemma commit_step_workers_ok:
  assumes "commit_step Set r s l s'" "workers_ok r s"
  shows "workers_ok r s'"
  using assms
proof (cases rule: commit_step.cases)
  case (send c)
  then show ?thesis using assms(2) by (auto simp: workers_ok_def init_workers_def list_all_iff)
next
  case (receive i c)
  then show ?thesis using assms(2)
    by (auto simp: workers_ok_def list_all_length nth_list_update)
next
  case (set i c ns n p e w')
  then show ?thesis using assms(2) workers_nth [OF assms(2)]
    by (fastforce simp: workers_ok_def list_all_length nth_list_update)
next
  case (finish i c)
  then show ?thesis using assms(2)
    by (auto simp: workers_ok_def list_all_length nth_list_update)
next
  case (crash i c ns n)
  then show ?thesis using assms(2) by (simp add: workers_ok_def)
qed

lemma commit_step_owed:
  assumes "commit_step Set r s l s'" "workers_ok r s" "finite (rt_cache r)"
  shows "writes [l] + owed r s' = owed r s + sum_mset (image_mset (to_all (rt_cache r)) (sends [l]))"
  using assms(1)
proof (cases rule: commit_step.cases)
  case (send c)
  then show ?thesis
    by (simp add: owed_def writes_def sends_def List.map_filter_def owed_init_workers)
next
  case (receive i c)
  obtain W where W: "cm_waiting s = add_mset c W" using receive by (auto dest: multi_member_split)
  have upd: "sum_list (map owed_by ((cm_workers s)[i := Some (c, rt_cache r)])) =
      sum_list (map owed_by (cm_workers s)) + to_all (rt_cache r) c"
    using receive sum_list_update_mset [of i "cm_workers s" owed_by "Some (c, rt_cache r)"] by simp
  have "owed r s' = sum_mset (image_mset (to_all (rt_cache r)) W) +
      (sum_list (map owed_by (cm_workers s)) + to_all (rt_cache r) c)"
    by (simp add: owed_def receive(2) W upd)
  moreover have "owed r s = to_all (rt_cache r) c + sum_mset (image_mset (to_all (rt_cache r)) W) +
      sum_list (map owed_by (cm_workers s))"
    by (simp add: owed_def W)
  ultimately have "owed r s' = owed r s" by (simp only: ac_simps)
  then show ?thesis using receive(1) by (simp add: writes_def sends_def List.map_filter_def)
next
  case (set i c ns n p e w')
  have "ns \<subseteq> rt_cache r" by (rule workers_nth [OF assms(2) set(4,5)])
  then have "finite ns" using assms(3) by (rule finite_subset)
  then have "to_all ns c = add_mset (c, n) (to_all (ns - {n}) c)" using set(6) by (rule to_all_remove)
  then have "add_mset (c, n) (sum_list (map owed_by ((cm_workers s)[i := Some (c, ns - {n})]))) =
      sum_list (map owed_by (cm_workers s))"
    using set sum_list_update_mset [of i "cm_workers s" owed_by "Some (c, ns - {n})"] by simp
  then show ?thesis
    using set by (simp add: owed_def writes_def sends_def List.map_filter_def)
next
  case (finish i c)
  then show ?thesis
    using sum_list_update_mset [of i "cm_workers s" owed_by None]
    by (simp add: owed_def writes_def sends_def List.map_filter_def)
next
  case (crash i c ns n)
  then show ?thesis by (simp add: owed_def writes_def sends_def List.map_filter_def)
qed

lemma commit_run_owed:
  assumes "commit_run Set r s ls s'" "workers_ok r s" "finite (rt_cache r)"
  shows "workers_ok r s' \<and>
    writes ls + owed r s' = owed r s + sum_mset (image_mset (to_all (rt_cache r)) (sends ls))"
  using assms
proof (induction rule: commit_run.induct)
  case (none s)
  then show ?case by (simp add: writes_def sends_def List.map_filter_def)
next
  case (step s l s' ls s'')
  have ok: "workers_ok r s'" using commit_step_workers_ok step by blast
  have "writes [l] + owed r s' = owed r s + sum_mset (image_mset (to_all (rt_cache r)) (sends [l]))"
    using commit_step_owed step by blast
  moreover have "workers_ok r s'' \<and>
    writes ls + owed r s'' = owed r s' + sum_mset (image_mset (to_all (rt_cache r)) (sends ls))"
    using step ok by blast
  ultimately show ?case
    unfolding writes_Cons [of l ls] sends_Cons [of l ls] image_mset_union sum_mset.union
    by (metis (no_types, lifting) add.assoc add.commute)
qed

lemma quiescent_owed:
  assumes "quiescent s"
  shows "owed r s = {#}"
proof -
  have "sum_list (map owed_by (cm_workers s)) = {#}"
    using assms by (intro sum_list_empty) (auto simp: quiescent_def list_all_iff)
  then show ?thesis using assms by (simp add: quiescent_def owed_def)
qed

text \<open>
  The invariant of a running system over valid pools: no crash, the workers are started before a
  block waits, and every block in flight has a key at least as wide as the pools inspect.
\<close>

definition fits :: "('p \<Rightarrow> nat) \<Rightarrow> 'p router \<Rightarrow> chunk \<Rightarrow> bool" where
  "fits width r c \<longleftrightarrow> (\<forall>p\<in>ran (rt_pools r). width p \<le> slice_len (ck_key c))"

definition commit_inv ::
  "('p \<Rightarrow> 'w \<Rightarrow> bool) \<Rightarrow> ('p \<Rightarrow> nat) \<Rightarrow> 'p router \<Rightarrow> 'w commit \<Rightarrow> bool" where
  "commit_inv valid width r s \<longleftrightarrow>
     \<not> cm_crashed s \<and> workers_ok r s \<and> (cm_waiting s \<noteq> {#} \<longrightarrow> cm_workers s \<noteq> []) \<and>
     (\<forall>p\<in>ran (rt_pools r). valid p (cm_world s)) \<and>
     (\<forall>c\<in>#cm_waiting s. fits width r c) \<and>
     list_all (\<lambda>b. case b of None \<Rightarrow> True | Some (c, ns) \<Rightarrow> fits width r c) (cm_workers s)"

definition work_of :: "(chunk \<times> string set) option \<Rightarrow> nat" where
  "work_of b = (case b of None \<Rightarrow> 0 | Some (c, ns) \<Rightarrow> card ns + 1)"

definition commit_cost :: "'p router \<Rightarrow> 'w commit \<Rightarrow> nat" where
  "commit_cost r s = size (cm_waiting s) * (card (rt_cache r) + 2) + sum_list (map work_of (cm_workers s))"

lemma work_of_simps [simp]: "work_of None = 0" "work_of (Some (c, ns)) = card ns + 1"
  by (simp_all add: work_of_def)

lemma worker_fits:
  "commit_inv valid width r s \<Longrightarrow> i < length (cm_workers s) \<Longrightarrow> cm_workers s ! i = Some (c, ns) \<Longrightarrow>
    fits width r c"
  by (fastforce simp: commit_inv_def list_all_length)

lemma commit_step_cost:
  assumes "commit_step Set r s l s'" "commit_inv valid width r s" "finite (rt_cache r)" "\<not> cm_crashed s'"
  shows "(\<exists>c. l = Send c) \<or> commit_cost r s' < commit_cost r s"
  using assms(1)
proof (cases rule: commit_step.cases)
  case (receive i c)
  obtain W where W: "cm_waiting s = add_mset c W" using receive by (auto dest: multi_member_split)
  have "sum_list (map work_of ((cm_workers s)[i := Some (c, rt_cache r)])) =
      sum_list (map work_of (cm_workers s)) + (card (rt_cache r) + 1)"
    using receive sum_list_update_nat [of i "cm_workers s" work_of "Some (c, rt_cache r)"] by simp
  then show ?thesis by (simp add: commit_cost_def receive(2) W)
next
  case (set i c ns n p e w')
  have "ns \<subseteq> rt_cache r" using assms(2) workers_nth [where r = r, OF _ set(4,5)] by (simp add: commit_inv_def)
  then have "finite ns" using assms(3) by (rule finite_subset)
  then have "card ns = Suc (card (ns - {n}))" using set(6) by (rule card.remove)
  then have "sum_list (map work_of ((cm_workers s)[i := Some (c, ns - {n})])) <
      sum_list (map work_of (cm_workers s))"
    using set(4,5) sum_list_update_nat [of i "cm_workers s" work_of "Some (c, ns - {n})"] by simp
  then show ?thesis by (simp add: commit_cost_def set(2))
next
  case (finish i c)
  then have "sum_list (map work_of ((cm_workers s)[i := None])) < sum_list (map work_of (cm_workers s))"
    using sum_list_update_nat [of i "cm_workers s" work_of None] by simp
  then show ?thesis by (simp add: commit_cost_def finish(2))
qed (use assms(4) in auto)

context pool_iface
begin

lemma Set_in_cache:
  assumes "commit_inv valid width r s" "router_wf r" "i < length (cm_workers s)"
    "cm_workers s ! i = Some (c, ns)" "n \<in> ns"
  shows "\<exists>p e w'. rt_pools r n = Some p \<and> Set p (ck_key c) (ck_data c) (cm_world s) = ret (e, w') \<and>
    (\<forall>q. valid q (cm_world s) \<longrightarrow> valid q w')"
proof -
  have "ns \<subseteq> rt_cache r" using assms(1) workers_nth [where r = r, OF _ assms(3,4)] by (simp add: commit_inv_def)
  then obtain p where p: "rt_pools r n = Some p" using assms(2,5) by (auto simp: router_wf_def)
  then have "p \<in> ran (rt_pools r)" by (auto simp: ran_def)
  then have "valid p (cm_world s)" "width p \<le> slice_len (ck_key c)"
    using assms(1) worker_fits [OF assms(1,3,4)] by (auto simp: commit_inv_def fits_def)
  then have "\<exists>e w'. Set p (ck_key c) (ck_data c) (cm_world s) = ret (e, w') \<and>
      (\<forall>q. valid q (cm_world s) \<longrightarrow> valid q w')"
    using Set_total [of p "cm_world s" "ck_key c" "ck_data c"] by metis
  with p show ?thesis by blast
qed

lemma commit_inv_step:
  assumes "commit_step Set r s l s'" "commit_inv valid width r s" "router_wf r"
    "\<And>c. l = Send c \<Longrightarrow> fits width r c"
  shows "commit_inv valid width r s'"
  using assms(1)
proof (cases rule: commit_step.cases)
  case (send c)
  then show ?thesis
    using assms(2,4) by (auto simp: commit_inv_def workers_ok_def init_workers_def list_all_iff commitWorkers_def)
next
  case (receive i c)
  then have "fits width r c" using assms(2) by (simp add: commit_inv_def)
  moreover have "workers_ok r s'" using commit_step_workers_ok [OF assms(1)] assms(2) by (simp add: commit_inv_def)
  ultimately show ?thesis
    using receive assms(2)
    by (auto simp: commit_inv_def list_all_length nth_list_update dest: in_diffD)
next
  case (set i c ns n p e w')
  have "\<And>q. valid q (cm_world s) \<Longrightarrow> valid q w'"
    using Set_in_cache [OF assms(2,3) set(4-6)] set(7,8) by auto
  moreover have "workers_ok r s'" using commit_step_workers_ok [OF assms(1)] assms(2) by (simp add: commit_inv_def)
  ultimately show ?thesis
    using set worker_fits [OF assms(2) set(4,5)] assms(2)
    by (auto simp: commit_inv_def list_all_length nth_list_update)
next
  case (finish i c)
  moreover have "workers_ok r s'" using commit_step_workers_ok [OF assms(1)] assms(2) by (simp add: commit_inv_def)
  ultimately show ?thesis
    using assms(2) by (auto simp: commit_inv_def list_all_length nth_list_update)
next
  case (crash i c ns n)
  then have False using Set_in_cache [OF assms(2,3) crash(4-6)] by auto
  then show ?thesis ..
qed

lemma commit_inv_run:
  assumes "commit_run Set r s ls s'" "commit_inv valid width r s" "router_wf r"
    "\<And>c. Send c \<in> set ls \<Longrightarrow> fits width r c"
  shows "commit_inv valid width r s'"
  using assms
proof (induction rule: commit_run.induct)
  case (step s l s' ls s'')
  have "commit_inv valid width r s'" using step.hyps(1) step.prems(1,2)
    by (rule commit_inv_step) (simp add: step.prems(3))
  then show ?case using step.IH step.prems by simp
qed

lemma commit_progress:
  assumes "commit_inv valid width r s" "router_wf r" "\<not> quiescent s"
  shows "\<exists>l s'. commit_step Set r s l s' \<and> (\<forall>c. l \<noteq> Send c)"
proof (cases "list_all (\<lambda>b. b = None) (cm_workers s)")
  case True
  then obtain c where c: "c \<in># cm_waiting s" using assms(3) by (auto simp: quiescent_def)
  then have "cm_workers s \<noteq> []" using assms(1) by (auto simp: commit_inv_def)
  then have "0 < length (cm_workers s)" "cm_workers s ! 0 = None"
    using True by (auto simp: list_all_length)
  then show ?thesis using receive [of s 0 c Set r] c assms(1) by (auto simp: commit_inv_def)
next
  case False
  then obtain i c ns where i: "i < length (cm_workers s)" "cm_workers s ! i = Some (c, ns)"
    by (auto simp: list_all_length)
  show ?thesis
  proof (cases "ns = {}")
    case True
    then show ?thesis using finish [of s i c Set r] i assms(1) by (auto simp: commit_inv_def)
  next
    case False
    then obtain n where n: "n \<in> ns" by auto
    obtain p e w' where p: "rt_pools r n = Some p"
      "Set p (ck_key c) (ck_data c) (cm_world s) = ret (e, w')"
      using Set_in_cache [OF assms(1,2) i n] by blast
    have "\<not> cm_crashed s" using assms(1) by (simp add: commit_inv_def)
    from set [where Set = Set, OF this i n p] show ?thesis by blast
  qed
qed

lemma commit_drains:
  assumes "commit_inv valid width r s" "router_wf r"
  shows "\<exists>ls s'. commit_run Set r s ls s' \<and> sends ls = {#} \<and> quiescent s'"
  using assms(1)
proof (induction "commit_cost r s" arbitrary: s rule: less_induct)
  case less
  show ?case
  proof (cases "quiescent s")
    case True
    moreover have "sends [] = {#}" by (simp add: sends_def List.map_filter_def)
    ultimately show ?thesis using commit_run.none [of Set r s] by blast
  next
    case False
    then obtain l s1 where l: "commit_step Set r s l s1" "\<forall>c. l \<noteq> Send c"
      using commit_progress [OF less.prems assms(2)] by blast
    have inv: "commit_inv valid width r s1"
      using l(1) less.prems assms(2) by (rule commit_inv_step) (use l(2) in simp)
    then have "commit_cost r s1 < commit_cost r s"
      using commit_step_cost [OF l(1) less.prems] l(2) assms(2)
      by (auto simp: commit_inv_def router_wf_def)
    then obtain ls s' where "commit_run Set r s1 ls s'" "sends ls = {#}" "quiescent s'"
      using less.hyps inv by blast
    moreover have "sends [l] = {#}" using l(2) by (simp add: sends_def List.map_filter_def split: label.split)
    ultimately have "commit_run Set r s (l # ls) s'" "sends (l # ls) = {#}"
      using commit_run.step [OF l(1)] sends_Cons [of l ls] by simp_all
    then show ?thesis using \<open>quiescent s'\<close> by blast
  qed
qed

end

section \<open>Merging routers\<close>

text \<open>\<open>fmt.Sprintf("%d.%s", i, name)\<close>: pools of router \<open>i\<close> are renamed with its index.\<close>

definition merge_name :: "nat \<Rightarrow> string \<Rightarrow> string" where
  "merge_name i name = show_nat i @ ''.'' @ name"

text \<open>The map whose keys are those of \<open>m\<close> behind the prefix \<open>pre\<close>.\<close>

definition prefix_map :: "string \<Rightarrow> (string \<rightharpoonup> 'p) \<Rightarrow> (string \<rightharpoonup> 'p)" where
  "prefix_map pre m = (\<lambda>k. if take (length pre) k = pre then m (drop (length pre) k) else None)"

definition empty_router :: "'p router" where
  "empty_router = \<lparr>rt_pools = Map.empty, rt_lookup = [], rt_cache = {}\<rparr>"

definition merge_one :: "nat \<Rightarrow> 'p router \<Rightarrow> 'p router \<Rightarrow> 'p router" where
  "merge_one i merged r =
     \<lparr>rt_pools = rt_pools merged ++ prefix_map (merge_name i []) (rt_pools r),
      rt_lookup = rt_lookup merged @ map (merge_name i) (rt_lookup r),
      rt_cache = rt_cache merged \<union> merge_name i ` rt_cache r\<rparr>"

fun merge_from :: "nat \<Rightarrow> 'p router \<Rightarrow> 'p router option list \<Rightarrow> 'p router" where
  "merge_from i merged [] = merged"
| "merge_from i merged (r # rs) =
     merge_from (Suc i) (case r of None \<Rightarrow> merged | Some r' \<Rightarrow> merge_one i merged r') rs"

definition Merge :: "'p router option list \<Rightarrow> 'p router go" where
  "Merge routers = (if length routers = 0 then panic else ret (merge_from 0 empty_router routers))"

lemma dot_not_digit: "\<not> is_digit (CHR ''.'')"
  by (simp add: is_digit_def)

lemma merge_name_index: "takeWhile is_digit (merge_name i n) = show_nat i"
  unfolding merge_name_def append.simps
  by (rule takeWhile_all_append) (auto simp: list_all_iff dot_not_digit intro: show_nat_digits)

lemma merge_name_inject [simp]: "merge_name i n = merge_name j m \<longleftrightarrow> i = j \<and> n = m"
proof
  assume eq: "merge_name i n = merge_name j m"
  then have "show_nat i = show_nat j" by (metis merge_name_index)
  then show "i = j \<and> n = m" using eq by (simp add: merge_name_def)
qed simp

lemma merge_name_split: "merge_name i n = merge_name i [] @ n"
  by (simp add: merge_name_def)

lemma prefix_map_same [simp]: "prefix_map (merge_name i []) m (merge_name i n) = m n"
  by (simp add: prefix_map_def merge_name_split [of i n])

lemma prefix_map_Some:
  assumes "prefix_map (merge_name i []) m k = Some p"
  shows "\<exists>n. k = merge_name i n \<and> m n = Some p"
proof -
  let ?d = "drop (length (merge_name i [])) k"
  have "take (length (merge_name i [])) k = merge_name i []" and m: "m ?d = Some p"
    using assms by (auto simp: prefix_map_def split: if_splits)
  then have "k = merge_name i [] @ ?d" by (metis append_take_drop_id)
  then have "k = merge_name i ?d" by (metis merge_name_split)
  with m show ?thesis by blast
qed

lemma prefix_map_other: "i \<noteq> j \<Longrightarrow> prefix_map (merge_name i []) m (merge_name j n) = None"
  by (cases "prefix_map (merge_name i []) m (merge_name j n)") (auto dest: prefix_map_Some)

lemma merge_one_pools:
  "rt_pools (merge_one i merged r) (merge_name j n) =
    (if i = j then (case rt_pools r n of None \<Rightarrow> rt_pools merged (merge_name j n) | Some p \<Rightarrow> Some p)
     else rt_pools merged (merge_name j n))"
  by (simp add: merge_one_def map_add_def prefix_map_other)

text \<open>What the merged table holds so far: only names with an index below \<open>i\<close>.\<close>

definition below :: "nat \<Rightarrow> 'p router \<Rightarrow> bool" where
  "below i merged \<longleftrightarrow> (\<forall>j n. i \<le> j \<longrightarrow> rt_pools merged (merge_name j n) = None)"

lemma below_step: "below i merged \<Longrightarrow> below (Suc i) (case r of None \<Rightarrow> merged | Some r' \<Rightarrow> merge_one i merged r')"
  by (auto simp: below_def merge_one_pools split: option.split)

lemma merge_from_old:
  "j < i \<Longrightarrow> rt_pools (merge_from i merged rs) (merge_name j n) = rt_pools merged (merge_name j n)"
  by (induction rs arbitrary: i merged) (simp_all add: merge_one_pools split: option.split)

lemma merge_from_pools:
  "below i merged \<Longrightarrow>
    rt_pools (merge_from i merged rs) (merge_name (i + j) n) =
      (if j < length rs then (case rs ! j of None \<Rightarrow> None | Some r \<Rightarrow> rt_pools r n) else None)"
proof (induction rs arbitrary: i merged j)
  case Nil
  then show ?case by (simp add: below_def)
next
  case (Cons r rs)
  let ?m = "case r of None \<Rightarrow> merged | Some r' \<Rightarrow> merge_one i merged r'"
  show ?case
  proof (cases j)
    case 0
    have "rt_pools merged (merge_name i n) = None" using Cons.prems by (simp add: below_def)
    then show ?thesis
      using 0 by (simp add: merge_from_old merge_one_pools split: option.split)
  next
    case (Suc k)
    then show ?thesis using Cons.IH [OF below_step [OF Cons.prems, of r], of k] by simp
  qed
qed

lemma Merge_pools:
  assumes "Merge rs = ret m"
  shows "rt_pools m (merge_name j n) =
    (if j < length rs then (case rs ! j of None \<Rightarrow> None | Some r \<Rightarrow> rt_pools r n) else None)"
proof -
  have "m = merge_from 0 empty_router rs" using assms by (simp add: Merge_def split: if_splits)
  then show ?thesis
    using merge_from_pools [of 0 empty_router rs j n] by (simp add: below_def empty_router_def)
qed

text \<open>The merged lookup table and cache, router by router.\<close>

fun merged_lookup :: "nat \<Rightarrow> 'p router option list \<Rightarrow> string list" where
  "merged_lookup i [] = []"
| "merged_lookup i (r # rs) =
     (case r of None \<Rightarrow> [] | Some r' \<Rightarrow> map (merge_name i) (rt_lookup r')) @ merged_lookup (Suc i) rs"

lemma merge_from_lookup:
  "rt_lookup (merge_from i merged rs) = rt_lookup merged @ merged_lookup i rs"
  by (induction rs arbitrary: i merged) (auto simp: merge_one_def split: option.split)

lemma merge_from_cache:
  "x \<in> rt_cache (merge_from i merged rs) \<longleftrightarrow>
    x \<in> rt_cache merged \<or>
    (\<exists>j n r. j < length rs \<and> rs ! j = Some r \<and> n \<in> rt_cache r \<and> x = merge_name (i + j) n)"
proof (induction rs arbitrary: i merged)
  case Nil
  then show ?case by simp
next
  case (Cons r rs)
  have "(\<exists>j n r'. j < length (r # rs) \<and> (r # rs) ! j = Some r' \<and> n \<in> rt_cache r' \<and> x = merge_name (i + j) n)
    \<longleftrightarrow> (\<exists>n r'. r = Some r' \<and> n \<in> rt_cache r' \<and> x = merge_name i n) \<or>
        (\<exists>j n r'. j < length rs \<and> rs ! j = Some r' \<and> n \<in> rt_cache r' \<and> x = merge_name (Suc i + j) n)"
    (is "?L = (?A \<or> ?B)")
  proof
    assume ?L
    then obtain j n r' where j: "j < length (r # rs)" "(r # rs) ! j = Some r'" "n \<in> rt_cache r'"
      "x = merge_name (i + j) n" by blast
    then show "?A \<or> ?B" by (cases j) (simp, fastforce)
  next
    assume "?A \<or> ?B"
    then show ?L
    proof
      assume ?A
      then show ?L by (intro exI [of _ 0]) auto
    next
      assume ?B
      then obtain j n r' where "j < length rs" "rs ! j = Some r'" "n \<in> rt_cache r'"
        "x = merge_name (Suc i + j) n" by blast
      then show ?L by (intro exI [of _ "Suc j"] exI [of _ n] exI [of _ r']) simp
    qed
  qed
  then show ?case
    by (simp add: Cons.IH merge_one_def image_iff split: option.split) blast
qed

lemma finite_merge_from:
  "finite (rt_cache merged) \<Longrightarrow> (\<forall>r. Some r \<in> set rs \<longrightarrow> finite (rt_cache r)) \<Longrightarrow>
    finite (rt_cache (merge_from i merged rs))"
  by (induction rs arbitrary: i merged) (auto simp: merge_one_def split: option.split)

lemma merged_lookup_set:
  "x \<in> set (merged_lookup i rs) \<longleftrightarrow>
    (\<exists>j n r. j < length rs \<and> rs ! j = Some r \<and> n \<in> set (rt_lookup r) \<and> x = merge_name (i + j) n)"
proof (induction rs arbitrary: i)
  case Nil
  then show ?case by simp
next
  case (Cons r rs)
  show ?case
  proof
    assume "x \<in> set (merged_lookup i (r # rs))"
    then consider (head) n r' where "r = Some r'" "n \<in> set (rt_lookup r')" "x = merge_name i n"
      | (tail) "x \<in> set (merged_lookup (Suc i) rs)" by (auto split: option.splits)
    then show "\<exists>j n r'. j < length (r # rs) \<and> (r # rs) ! j = Some r' \<and> n \<in> set (rt_lookup r') \<and> x = merge_name (i + j) n"
    proof cases
      case head
      then show ?thesis by (intro exI [of _ 0] exI [of _ n] exI [of _ r']) simp
    next
      case tail
      then obtain j n r' where "j < length rs" "rs ! j = Some r'" "n \<in> set (rt_lookup r')"
        "x = merge_name (Suc i + j) n" using Cons.IH by blast
      then show ?thesis by (intro exI [of _ "Suc j"] exI [of _ n] exI [of _ r']) simp
    qed
  next
    assume "\<exists>j n r'. j < length (r # rs) \<and> (r # rs) ! j = Some r' \<and> n \<in> set (rt_lookup r') \<and> x = merge_name (i + j) n"
    then obtain j n r' where j: "j < length (r # rs)" "(r # rs) ! j = Some r'" "n \<in> set (rt_lookup r')"
      "x = merge_name (i + j) n" by blast
    show "x \<in> set (merged_lookup i (r # rs))"
    proof (cases j)
      case 0
      then show ?thesis using j by auto
    next
      case (Suc k)
      then have "x \<in> set (merged_lookup (Suc i) rs)"
        using j by (subst Cons.IH) (intro exI [of _ k] exI [of _ n] exI [of _ r'], simp)
      then show ?thesis by simp
    qed
  qed
qed

lemma Merge_parts:
  assumes "Merge rs = ret m"
  shows "rt_lookup m = merged_lookup 0 rs"
    and "x \<in> rt_cache m \<longleftrightarrow> (\<exists>j n r. j < length rs \<and> rs ! j = Some r \<and> n \<in> rt_cache r \<and> x = merge_name j n)"
proof -
  have m: "m = merge_from 0 empty_router rs" using assms by (simp add: Merge_def split: if_splits)
  show "rt_lookup m = merged_lookup 0 rs" by (simp add: m merge_from_lookup empty_router_def)
  show "x \<in> rt_cache m \<longleftrightarrow> (\<exists>j n r. j < length rs \<and> rs ! j = Some r \<and> n \<in> rt_cache r \<and> x = merge_name j n)"
    by (simp add: m merge_from_cache empty_router_def)
qed

text \<open>The specification of a merged lookup: the routers are asked one after the other.\<close>

fun chain_get ::
  "('p \<Rightarrow> slice \<Rightarrow> 'w \<Rightarrow> ((rerr + bytes) \<times> 'w) go) \<Rightarrow> nat \<Rightarrow> 'p router option list \<Rightarrow> slice \<Rightarrow> 'w
    \<Rightarrow> ((rerr + string \<times> bytes) \<times> 'w) go" where
  "chain_get Get i [] key w = ret (Inl (Wrapped ErrNotRoutable ''no pools matches key''), w)"
| "chain_get Get i (r # rs) key w =
     (case r of
        None \<Rightarrow> chain_get Get (Suc i) rs key w
      | Some r' \<Rightarrow>
          do {
            (res, w1) \<leftarrow> router_get Get r' key w;
            case res of
              Inl e \<Rightarrow> chain_get Get (Suc i) rs key w1
            | Inr (n, d) \<Rightarrow> ret (Inr (merge_name i n, d), w1)
          })"

lemma lookup_get_renamed:
  assumes "\<And>n. pools' (merge_name i n) = pools n" "set ns \<subseteq> dom pools"
  shows "lookup_get Get pools' (map (merge_name i) ns @ rest) key w =
    do {
      (res, w1) \<leftarrow> lookup_get Get pools ns key w;
      case res of
        Inl e \<Rightarrow> lookup_get Get pools' rest key w1
      | Inr (n, d) \<Rightarrow> ret (Inr (merge_name i n, d), w1)
    }"
  using assms(2)
proof (induction ns arbitrary: w)
  case Nil
  then show ?case by simp
next
  case (Cons n ns)
  then obtain p where p: "pools n = Some p" by auto
  have IH: "lookup_get Get pools' (map (merge_name i) ns @ rest) key w1 =
    do {
      (res, w1) \<leftarrow> lookup_get Get pools ns key w1;
      case res of
        Inl e \<Rightarrow> lookup_get Get pools' rest key w1
      | Inr (n, d) \<Rightarrow> ret (Inr (merge_name i n, d), w1)
    }" for w1
    using Cons by simp
  show ?case
  proof (cases "Get p key w")
    case None
    then show ?thesis by (simp add: assms(1) p)
  next
    case (Some rw)
    obtain res w1 where "rw = (res, w1)" by (cases rw)
    then show ?thesis by (cases res) (simp_all add: assms(1) p Some IH)
  qed
qed

lemma merged_lookup_chain:
  assumes "\<And>j n r. j < length rs \<Longrightarrow> rs ! j = Some r \<Longrightarrow> pools' (merge_name (i + j) n) = rt_pools r n"
    and "\<And>r. Some r \<in> set rs \<Longrightarrow> set (rt_lookup r) \<subseteq> dom (rt_pools r)"
  shows "lookup_get Get pools' (merged_lookup i rs) key w = chain_get Get i rs key w"
  using assms
proof (induction rs arbitrary: i w)
  case Nil
  then show ?case by simp
next
  case (Cons r rs)
  have IH: "lookup_get Get pools' (merged_lookup (Suc i) rs) key w1 = chain_get Get (Suc i) rs key w1" for w1
  proof (rule Cons.IH)
    fix j n r'
    assume "j < length rs" "rs ! j = Some r'"
    then show "pools' (merge_name (Suc i + j) n) = rt_pools r' n"
      using Cons.prems(1) [of "Suc j" r' n] by simp
  qed (simp add: Cons.prems(2))
  show ?case
  proof (cases r)
    case None
    then show ?thesis using IH by simp
  next
    case (Some r')
    have "\<And>n. pools' (merge_name i n) = rt_pools r' n" using Cons.prems(1) [of 0 r'] Some by simp
    then have step: "lookup_get Get pools' (merged_lookup i (r # rs)) key w =
      do {
        (res, w1) \<leftarrow> lookup_get Get (rt_pools r') (rt_lookup r') key w;
        case res of
          Inl e \<Rightarrow> lookup_get Get pools' (merged_lookup (Suc i) rs) key w1
        | Inr (n, d) \<Rightarrow> ret (Inr (merge_name i n, d), w1)
      }"
      using lookup_get_renamed [of pools' i "rt_pools r'" "rt_lookup r'" Get "merged_lookup (Suc i) rs" key w]
        Cons.prems(2) Some by simp
    show ?thesis unfolding step IH by (simp add: Some router_get_def)
  qed
qed


text \<open>\<open>Router.String\<close>: \<open>names\<close> and \<open>cached\<close> are the iteration orders of the two maps. The last loop
  ranges over the values of the cache map, empty structs, which print as braces.\<close>

definition router_String :: "('p \<Rightarrow> string) \<Rightarrow> string list \<Rightarrow> string list \<Rightarrow> 'p router \<Rightarrow> string" where
  "router_String show_pool names cached r =
     concat (map (\<lambda>n. case rt_pools r n of
               None \<Rightarrow> []
             | Some p \<Rightarrow> n @ '' '' @ show_pool p @ [CHR 0x0A, CHR 0x0A]) names)
       @ ''lookup:'' @ [CHR 0x0A]
       @ concat (map (\<lambda>n. ''- '' @ n @ [CHR 0x0A]) (rt_lookup r))
       @ ''cache:'' @ [CHR 0x0A]
       @ concat (map (\<lambda>n. ''- '' @ ''{}'' @ [CHR 0x0A]) cached)"

section \<open>Properties\<close>

text \<open>A router whose only pool is the sample pool, which is also its cache.\<close>

definition sample_router :: "hash_range scan_pool router" where
  "sample_router = \<lparr>rt_pools = [''hub'' \<mapsto> sample_pool], rt_lookup = [''hub''], rt_cache = {}\<rparr>"

definition local_pool :: "hash_range scan_pool" where
  "local_pool = NewScanPool 1 [\<lparr>rule_range = RangeMatch [0] [0xFF], rule_dest = sample_dest 1\<rparr>]"

definition cached_router :: "hash_range scan_pool router" where
  "cached_router = \<lparr>rt_pools = [''local'' \<mapsto> local_pool, ''hub'' \<mapsto> sample_pool],
     rt_lookup = [''local'', ''hub''], rt_cache = {''local''}\<rparr>"

lemma sample_router_wf: "router_wf sample_router" "router_wf cached_router"
  by (auto simp: router_wf_def sample_router_def cached_router_def)

lemma local_pool_valid: "pool_valid sample_dest local_pool sample_world" "scan_width local_pool = 1"
  by (simp_all add: pool_valid_def local_pool_def sample_world_def NewScanPool_def rules_valid_def
      dests_ok_def conn_ok_def sample_dest_def scan_width_def rules_width_def)

definition any_key :: slice where "any_key = Slice [0xAB] []"

lemma any_key_len: "slice_len any_key = 1"
  by (simp add: any_key_def slice_len_def)

text \<open>C6. A router over scan pools never panics on a key as long as its widest rule, and its answer is
  that of the first pool of the table that has the block: every pool before it was asked and failed.
  When all pools fail, whatever the reasons, the error is "no pools matches key". A block is fed
  to the cache exactly when the pool that had it is not a cache pool.\<close>

theorem router_Get_first_hit:
  fixes api :: "'k redis_api"
  assumes "router_wf r" "\<forall>p\<in>ran (rt_pools r). pool_valid heap p w \<and> scan_width p \<le> slice_len key"
  defines "get \<equiv> scan_Get range_in api"
  shows "\<exists>res fed w'. router_Get get r key w = ret (res, fed, w') \<and>
    (\<forall>q. pool_valid heap q w \<longrightarrow> pool_valid heap q w') \<and>
    (case res of
       Inl e \<Rightarrow> e = Wrapped ErrNotRoutable ''no pools matches key'' \<and> fed = None \<and>
         all_fail get (rt_pools r) (rt_lookup r) key w = Some w'
     | Inr d \<Rightarrow> \<exists>pre n post p w1. rt_lookup r = pre @ n # post \<and> rt_pools r n = Some p \<and>
         all_fail get (rt_pools r) pre key w = Some w1 \<and> get p key w1 = ret (Inr d, w') \<and>
         fed = (if n \<in> rt_cache r then None else Some \<lparr>ck_key = key, ck_data = d\<rparr>))"
proof -
  obtain res w' where g: "lookup_get get (rt_pools r) (rt_lookup r) key w = ret (res, w')"
    "\<forall>q. pool_valid heap q w \<longrightarrow> pool_valid heap q w'"
    and c: "case res of Inl e \<Rightarrow> e = Wrapped ErrNotRoutable ''no pools matches key'' \<and>
        all_fail get (rt_pools r) (rt_lookup r) key w = Some w' | Inr (n, d) \<Rightarrow> n \<in> set (rt_lookup r)"
    using sp.lookup_get_total [of "rt_lookup r" "rt_pools r" heap w key api] assms(1,2)
    unfolding get_def by (auto simp: router_wf_def)
  show ?thesis
  proof (cases res)
    case (Inl err)
    then show ?thesis using g c by (simp add: router_Get_def router_get_def)
  next
    case (Inr sd)
    obtain n d where sd: "sd = (n, d)" by fastforce
    have "lookup_get get (rt_pools r) (rt_lookup r) key w = ret (Inr (n, d), w')" using g(1) Inr sd by simp
    from lookup_get_hitD [OF this] obtain pre post p w1 where "rt_lookup r = pre @ n # post"
      "all_fail get (rt_pools r) pre key w = Some w1" "rt_pools r n = Some p" "get p key w1 = ret (Inr d, w')"
      by blast
    then show ?thesis using g Inr sd by (auto simp: router_Get_def router_get_def updateCache_def)
  qed
qed

theorem router_Get_first_hit_witness:
  "\<exists>w'. router_Get (scan_Get range_in map_api) sample_router any_key sample_world =
     ret (Inl (Wrapped ErrNotRoutable ''no pools matches key''), None, w')"
proof -
  have v: "\<forall>p\<in>ran (rt_pools sample_router). pool_valid sample_dest p sample_world \<and> scan_width p \<le> slice_len any_key"
    using sample_pool_valid by (simp add: sample_router_def sample_pool_width any_key_len)
  have miss: "\<exists>e w'. scan_Get range_in map_api sample_pool any_key sample_world = ret (Inl e, w')"
    by (simp add: any_key_def scan_Get_def scan_Routes_def sample_pool_def NewScanPool_def go_simps slice_len_def
        bytes_compare_val be_val_def getPool_def sample_world_def map_api_def Let_def pool_get_unfold)
  then obtain e w' where "router_Get (scan_Get range_in map_api) sample_router any_key sample_world =
      ret (Inl e, None, w')"
    by (auto simp: router_Get_def router_get_def sample_router_def)
  then show ?thesis
    using router_Get_first_hit [OF sample_router_wf(1) v, of map_api] by (auto split: sum.splits)
qed

text \<open>C25. Every block sent to the cache is written exactly once to every cache pool: over a run from
  the start to a state where no block waits and every worker is idle, the writes made are, with
  multiplicity, those of each sent block to each cache pool, whatever the interleaving of the
  workers and the iteration order of the cache map.\<close>

theorem commit_exactly_once:
  assumes "commit_run Set r (initial_commit w) ls s" "quiescent s" "finite (rt_cache r)"
  shows "writes ls = (\<Sum>c\<in>#sends ls. image_mset (Pair c) (mset_set (rt_cache r)))"
proof -
  have ok: "workers_ok r (initial_commit w)" and none: "owed r (initial_commit w) = {#}"
    by (simp_all add: workers_ok_def initial_commit_def owed_def)
  have "to_all (rt_cache r) = (\<lambda>c. image_mset (Pair c) (mset_set (rt_cache r)))"
    by (simp add: fun_eq_iff to_all_def)
  then show ?thesis
    using commit_run_owed [OF assms(1) ok assms(3)] none quiescent_owed [OF assms(2), of r] by simp
qed

text \<open>One block, one worker of the hundred, one cache pool.\<close>

definition demo_chunk :: chunk where "demo_chunk = \<lparr>ck_key = any_key, ck_data = [7]\<rparr>"

definition demo_labels :: "label list" where
  "demo_labels = [Send demo_chunk, Receive 0 demo_chunk, Write 0 demo_chunk ''local'' None, Finish 0]"

lemma demo_set: "\<exists>w'. scan_Set range_in map_api local_pool any_key [7] sample_world = ret (None, w')"
  by (simp add: any_key_def scan_Set_def scan_Route_def local_pool_def NewScanPool_def go_simps slice_len_def
      bytes_compare_val be_val_def getPool_def sample_world_def map_api_def Let_def)

lemma demo_run:
  "\<exists>s. commit_run (scan_Set range_in map_api) cached_router (initial_commit sample_world) demo_labels s \<and> quiescent s"
proof -
  let ?Set = "scan_Set range_in map_api"
  let ?r = cached_router
  obtain w' where w': "?Set local_pool any_key [7] sample_world = ret (None, w')" using demo_set by blast
  define s0 where "s0 = initial_commit sample_world"
  define s1 where "s1 = s0\<lparr>cm_waiting := {#demo_chunk#}, cm_workers := replicate commitWorkers None\<rparr>"
  define s2 where "s2 = s1\<lparr>cm_waiting := {#}, cm_workers := (cm_workers s1)[0 := Some (demo_chunk, {''local''})]\<rparr>"
  define s3 where "s3 = s2\<lparr>cm_workers := (cm_workers s2)[0 := Some (demo_chunk, {})], cm_world := w'\<rparr>"
  define s4 where "s4 = s3\<lparr>cm_workers := (cm_workers s3)[0 := None]\<rparr>"
  note ss = s0_def s1_def s2_def s3_def s4_def initial_commit_def commitWorkers_def
  have "commit_step ?Set ?r s0 (Send demo_chunk) s1"
    using commit_step.send [of s0 ?Set ?r demo_chunk] by (simp add: ss init_workers_def)
  moreover have "commit_step ?Set ?r s1 (Receive 0 demo_chunk) s2"
    using commit_step.receive [of s1 0 demo_chunk ?Set ?r] by (simp add: ss cached_router_def)
  moreover have "commit_step ?Set ?r s2 (Write 0 demo_chunk ''local'' None) s3"
    using commit_step.set [of s2 0 demo_chunk "{''local''}" "''local''" ?r local_pool ?Set None w'] w'
    by (simp add: ss cached_router_def demo_chunk_def)
  moreover have "commit_step ?Set ?r s3 (Finish 0) s4"
    using commit_step.finish [of s3 0 demo_chunk ?Set ?r] by (simp add: ss)
  ultimately have "commit_run ?Set ?r s0 demo_labels s4"
    unfolding demo_labels_def by (meson commit_run.intros)
  moreover have "quiescent s4" by (simp add: ss quiescent_def list_all_length nth_list_update)
  ultimately show ?thesis unfolding s0_def by blast
qed

lemma cached_router_valid:
  "\<forall>p\<in>ran (rt_pools cached_router). pool_valid sample_dest p sample_world \<and> scan_width p \<le> 1"
  using sample_pool_valid local_pool_valid by (auto simp: cached_router_def ran_def sample_pool_width)

theorem commit_exactly_once_witness:
  "writes demo_labels = {#(demo_chunk, ''local'')#}"
proof -
  obtain s where s: "commit_run (scan_Set range_in map_api) cached_router (initial_commit sample_world) demo_labels s"
    "quiescent s" using demo_run by blast
  have f: "finite (rt_cache cached_router)" by (simp add: cached_router_def)
  show ?thesis
    using commit_exactly_once [OF s f]
    by (simp add: demo_labels_def sends_def List.map_filter_def cached_router_def)
qed

text \<open>C26. The commit workers cannot get stuck or crash over valid scan pools: whatever happened since
  the start, as long as the blocks sent have keys as long as the pools' widest rule, the process
  has not panicked, and the workers can go on, with no further block sent, until nothing waits.\<close>

theorem commit_always_drains:
  assumes "router_wf r" "\<forall>p\<in>ran (rt_pools r). pool_valid heap p w"
    and "commit_run (scan_Set range_in api) r (initial_commit w) ls s"
    and "\<forall>c. Send c \<in> set ls \<longrightarrow> (\<forall>p\<in>ran (rt_pools r). scan_width p \<le> slice_len (ck_key c))"
  shows "\<not> cm_crashed s \<and>
    (\<exists>ls' s'. commit_run (scan_Set range_in api) r s ls' s' \<and> sends ls' = {#} \<and> quiescent s')"
proof -
  have "commit_inv (pool_valid heap) scan_width r (initial_commit w)"
    using assms(2) by (simp add: commit_inv_def initial_commit_def workers_ok_def)
  then have inv: "commit_inv (pool_valid heap) scan_width r s"
    using sp.commit_inv_run [OF assms(3) _ assms(1)] assms(4) by (simp add: fits_def)
  then have "\<not> cm_crashed s" by (simp add: commit_inv_def)
  with sp.commit_drains [OF inv assms(1)] show ?thesis by blast
qed

theorem commit_always_drains_witness:
  "\<exists>s. commit_run (scan_Set range_in map_api) cached_router (initial_commit sample_world) [Send demo_chunk] s \<and>
    \<not> cm_crashed s \<and> cm_waiting s = {#demo_chunk#} \<and>
    (\<exists>ls' s'. commit_run (scan_Set range_in map_api) cached_router s ls' s' \<and> quiescent s')"
proof -
  let ?Set = "scan_Set range_in map_api"
  let ?s = "(initial_commit sample_world)\<lparr>cm_waiting := {#demo_chunk#}, cm_workers := init_workers []\<rparr>"
  have "commit_step ?Set cached_router (initial_commit sample_world) (Send demo_chunk) ?s"
    using commit_step.send [of "initial_commit sample_world" ?Set cached_router demo_chunk]
    by (simp add: initial_commit_def)
  then have run: "commit_run ?Set cached_router (initial_commit sample_world) [Send demo_chunk] ?s"
    by (rule commit_run.step) (rule commit_run.none)
  have v: "\<forall>p\<in>ran (rt_pools cached_router). pool_valid sample_dest p sample_world"
    and k: "\<forall>c. Send c \<in> set [Send demo_chunk] \<longrightarrow>
      (\<forall>p\<in>ran (rt_pools cached_router). scan_width p \<le> slice_len (ck_key c))"
    using cached_router_valid by (auto simp: demo_chunk_def any_key_len)
  show ?thesis
    using commit_always_drains [OF sample_router_wf(2) v run k] run
    by (intro exI [of _ ?s]) (auto simp: initial_commit_def)
qed

text \<open>A block found behind the cache and committed is served by the cache from then on: the next
  request for the same key returns the same bytes and feeds nothing, as long as the cache pool
  heads the lookup table and the servers keep the contract of GET and SET.\<close>

theorem router_cache_serves:
  assumes "redis_laws api db" "router_wf r" "rt_lookup r = c # rest" "c \<in> rt_cache r"
    and "\<forall>p\<in>ran (rt_pools r). pool_valid heap p w \<and> scan_width p \<le> slice_len key"
    and "router_Get (scan_Get range_in api) r key w = ret (Inr d, Some ck, w1)"
    and "commit_chunk (scan_Set range_in api) (rt_pools r) names ck w1 = ret (errs, w2)"
    and "(c, None) \<in> set errs"
  shows "\<exists>w3. router_Get (scan_Get range_in api) r key w2 = ret (Inr d, None, w3)"
  using assms by (rule sp.cached_block_served)

definition hub_world :: "(redis_pool \<Rightarrow> bytes \<Rightarrow> bytes option) world" where
  "hub_world = sample_world\<lparr>wd_net := (\<lambda>rp. if rp = newPool (sample_dest 0) then [[0xAB] \<mapsto> [7]] else Map.empty)\<rparr>"

lemma hub_world_get:
  "\<exists>w1. router_Get (scan_Get range_in map_api) cached_router any_key hub_world = ret (Inr [7], Some demo_chunk, w1) \<and>
    (\<exists>w2. scan_Set range_in map_api local_pool any_key [7] w1 = ret (None, w2))"
  by (simp add: any_key_def router_Get_def router_get_def cached_router_def updateCache_def demo_chunk_def
      scan_Get_def scan_Routes_def local_pool_def sample_pool_def NewScanPool_def go_simps slice_len_def
      bytes_compare_val be_val_def getPool_def hub_world_def sample_world_def map_api_def Let_def
      pool_get_unfold newPool_def sample_dest_def scan_Set_def scan_Route_def)

theorem router_cache_serves_witness:
  "\<exists>w1 w2 w3. router_Get (scan_Get range_in map_api) cached_router any_key hub_world
      = ret (Inr [7], Some demo_chunk, w1) \<and>
    scan_Set range_in map_api local_pool any_key [7] w1 = ret (None, w2) \<and>
    router_Get (scan_Get range_in map_api) cached_router any_key w2 = ret (Inr [7], None, w3)"
proof -
  obtain w1 w2 where g: "router_Get (scan_Get range_in map_api) cached_router any_key hub_world
      = ret (Inr [7], Some demo_chunk, w1)"
    and st: "scan_Set range_in map_api local_pool any_key [7] w1 = ret (None, w2)"
    using hub_world_get by blast
  have c: "commit_chunk (scan_Set range_in map_api) (rt_pools cached_router) [''local''] demo_chunk w1
      = ret ([(''local'', None)], w2)"
    using st by (simp add: cached_router_def demo_chunk_def)
  have v: "\<forall>p\<in>ran (rt_pools cached_router). pool_valid sample_dest p hub_world \<and> scan_width p \<le> slice_len any_key"
    using cached_router_valid by (simp add: hub_world_def any_key_len pool_valid_def)
  have l: "rt_lookup cached_router = ''local'' # [''hub'']" "''local'' \<in> rt_cache cached_router"
    by (simp_all add: cached_router_def)
  have e: "(''local'', None) \<in> set [(''local'', None :: rerr option)]" by simp
  show ?thesis
    using router_cache_serves [OF redis_laws_map_api sample_router_wf(2) l v g c e] g st by blast
qed

text \<open>Merging keeps routers well-formed and asks them in order.\<close>

lemma merge_chain:
  assumes "Merge rs = ret m" "\<forall>r. Some r \<in> set rs \<longrightarrow> router_wf r"
  shows "router_get Get m key w = chain_get Get 0 rs key w \<and> router_wf m \<and>
    (\<forall>j<length rs. \<forall>r. rs ! j = Some r \<longrightarrow>
       (\<forall>n. merge_name j n \<in> rt_cache m \<longleftrightarrow> n \<in> rt_cache r))"
proof (intro conjI)
  have pools: "rt_pools m (merge_name (0 + j) n) = rt_pools r n" if "j < length rs" "rs ! j = Some r" for j n r
    using Merge_pools [OF assms(1), of j n] that by simp
  have "lookup_get Get (rt_pools m) (merged_lookup 0 rs) key w = chain_get Get 0 rs key w"
    using merged_lookup_chain [of rs "rt_pools m" 0 Get key w] pools assms(2) by (auto simp: router_wf_def)
  then show "router_get Get m key w = chain_get Get 0 rs key w"
    by (simp add: router_get_def Merge_parts(1) [OF assms(1)])
  have look: "set (rt_lookup m) \<subseteq> dom (rt_pools m)"
  proof
    fix x assume "x \<in> set (rt_lookup m)"
    then obtain j n r where j: "j < length rs" "rs ! j = Some r" "n \<in> set (rt_lookup r)" "x = merge_name j n"
      by (auto simp: Merge_parts(1) [OF assms(1)] merged_lookup_set)
    moreover have "router_wf r" using assms(2) j(1,2) nth_mem by metis
    ultimately show "x \<in> dom (rt_pools m)" using pools [OF j(1,2), of n] by (auto simp: router_wf_def)
  qed
  have cache: "rt_cache m \<subseteq> dom (rt_pools m)"
  proof
    fix x assume "x \<in> rt_cache m"
    then obtain j n r where j: "j < length rs" "rs ! j = Some r" "n \<in> rt_cache r" "x = merge_name j n"
      using Merge_parts(2) [OF assms(1)] by blast
    moreover have "router_wf r" using assms(2) j(1,2) nth_mem by metis
    ultimately show "x \<in> dom (rt_pools m)" using pools [OF j(1,2), of n] by (auto simp: router_wf_def)
  qed
  have "m = merge_from 0 empty_router rs" using assms(1) by (simp add: Merge_def split: if_splits)
  then have "finite (rt_cache m)"
    using finite_merge_from [of empty_router rs 0] assms(2) by (simp add: empty_router_def router_wf_def)
  with look cache show "router_wf m" by (simp add: router_wf_def)
  show "\<forall>j<length rs. \<forall>r. rs ! j = Some r \<longrightarrow> (\<forall>n. merge_name j n \<in> rt_cache m \<longleftrightarrow> n \<in> rt_cache r)"
    using Merge_parts(2) [OF assms(1)] by auto
qed

text \<open>C27. A merged router behaves like its parts asked one after the other: \<open>get\<close> of the merge of
  well-formed routers is \<open>get\<close> of the first part that has the block, the pool name carrying the
  part's index; nil parts are skipped but keep their index. The caches of the parts stay caches.\<close>

theorem Merge_get_chain:
  assumes "Merge rs = ret m" "\<forall>r. Some r \<in> set rs \<longrightarrow> router_wf r"
  shows "router_get Get m key w = chain_get Get 0 rs key w \<and> router_wf m \<and>
    (\<forall>j<length rs. \<forall>r. rs ! j = Some r \<longrightarrow>
       (\<forall>n. merge_name j n \<in> rt_cache m \<longleftrightarrow> n \<in> rt_cache r))"
  by (rule merge_chain [OF assms])

theorem Merge_get_chain_witness:
  "\<exists>m. Merge [None, Some sample_router] = ret m \<and>
    router_get (\<lambda>p k w. ret (Inr [7], w)) m any_key () = ret (Inr (merge_name 1 ''hub'', [7]), ())"
proof -
  obtain m where m: "Merge [None, Some sample_router] = ret m" by (simp add: Merge_def)
  have "\<forall>r. Some r \<in> set [None, Some sample_router] \<longrightarrow> router_wf r" by (simp add: sample_router_wf)
  from Merge_get_chain [OF m this, of "\<lambda>p k w. ret (Inr [7], w)" any_key "()"] m show ?thesis
    by (simp add: router_get_def sample_router_def)
qed

end
