(* ===== verification/Configs.thy ===== *)
theory Configs
  imports Routers
begin

text \<open>
  Configuration of a router: storage/router/config.go, and the constructors of storage/storage.go.
  A Go map is an association list in the order its iteration happens to take, with distinct keys.
  The YAML decoder is the parameter \<open>yaml\<close>; \<open>url.Parse\<close> is \<open>parse\<close>. Every destination and every
  pool is a fresh allocation: the address counter is threaded through the construction.
\<close>

section \<open>The configuration and its check\<close>

type_synonym pool_config = "(string \<times> string) list"

record config =
  cf_Pools :: "(string \<times> pool_config) list"
  cf_Lookup :: "string list"
  cf_Cache :: "string list"

fun check_names :: "(string \<times> pool_config) list \<Rightarrow> string list \<Rightarrow> errors \<Rightarrow> errors" where
  "check_names pools [] err = err"
| "check_names pools (lookup # names) err =
     check_names pools names
       (case map_of pools lookup of None \<Rightarrow> errors_Add err (NoPoolNamed lookup) | Some _ \<Rightarrow> err)"

fun check_rules :: "(string \<Rightarrow> string + url) \<Rightarrow> pool_config \<Rightarrow> errors \<Rightarrow> errors go" where
  "check_rules parse [] err = ret err"
| "check_rules parse ((r, d) # pool) err =
     do {
       range \<leftarrow> NewRange r;
       let err1 = (case range of Inl rangeErr \<Rightarrow> errors_Add err (Wrapped rangeErr r) | Inr _ \<Rightarrow> err);
       let err2 = (case NewDestination parse 0 d of
                     Inl destErr \<Rightarrow> errors_Add err1 (Wrapped destErr d)
                   | Inr _ \<Rightarrow> err1);
       check_rules parse pool err2
     }"

fun check_pools :: "(string \<Rightarrow> string + url) \<Rightarrow> (string \<times> pool_config) list \<Rightarrow> errors \<Rightarrow> errors go" where
  "check_pools parse [] err = ret err"
| "check_pools parse ((name, pool) # pools) err =
     do { err1 \<leftarrow> check_rules parse pool err; check_pools parse pools err1 }"

definition Valid :: "(string \<Rightarrow> string + url) \<Rightarrow> config \<Rightarrow> rerr option go" where
  "Valid parse c =
     (let err0 = (if length (cf_Lookup c) = 0 then errors_Add [] NoLookupTable else []);
          err1 = check_names (cf_Pools c) (cf_Lookup c) err0;
          err2 = check_names (cf_Pools c) (cf_Cache c) err1
      in do {
           err \<leftarrow> check_pools parse (cf_Pools c) err2;
           ret (if errors_HasErrors err then Some (ManyErrors err) else None)
         })"

section \<open>Building the router\<close>

fun build_rules :: "(string \<Rightarrow> string + url) \<Rightarrow> nat \<Rightarrow> pool_config \<Rightarrow> (rerr + hash_range rule list \<times> nat) go" where
  "build_rules parse a [] = ret (Inr ([], a))"
| "build_rules parse a ((rangeStr, destStr) # cfg) =
     do {
       range \<leftarrow> NewRange rangeStr;
       case range of
         Inl err \<Rightarrow> ret (Inl (Wrapped err rangeStr))
       | Inr hashRange \<Rightarrow>
           (case NewDestination parse a destStr of
              Inl err \<Rightarrow> ret (Inl (Wrapped err destStr))
            | Inr dest \<Rightarrow>
                do {
                  rest \<leftarrow> build_rules parse (Suc a) cfg;
                  ret (case rest of
                         Inl err \<Rightarrow> Inl err
                       | Inr (rules, a') \<Rightarrow> Inr (\<lparr>rule_range = hashRange, rule_dest = dest\<rparr> # rules, a'))
                })
     }"

fun build_pools ::
  "(string \<Rightarrow> string + url) \<Rightarrow> (nat \<Rightarrow> hash_range rule list \<Rightarrow> 'p) \<Rightarrow> nat \<Rightarrow> (string \<rightharpoonup> 'p)
    \<Rightarrow> (string \<times> pool_config) list \<Rightarrow> (rerr + (string \<rightharpoonup> 'p) \<times> nat) go" where
  "build_pools parse factory a pools [] = ret (Inr (pools, a))"
| "build_pools parse factory a pools ((name, cfg) # rest) =
     do {
       rules \<leftarrow> build_rules parse a cfg;
       case rules of
         Inl err \<Rightarrow> ret (Inl err)
       | Inr (rs, a') \<Rightarrow> build_pools parse factory (Suc a') (pools(name \<mapsto> factory a' rs)) rest
     }"

text \<open>\<open>Config.Router\<close> with a factory; a nil factory is replaced by \<open>NewScanPool\<close>.\<close>

definition config_Router_with ::
  "(string \<Rightarrow> string + url) \<Rightarrow> (nat \<Rightarrow> hash_range rule list \<Rightarrow> 'p) \<Rightarrow> nat \<Rightarrow> config
    \<Rightarrow> (rerr + 'p router \<times> nat) go" where
  "config_Router_with parse factory a c =
     do {
       pools \<leftarrow> build_pools parse factory a Map.empty (cf_Pools c);
       ret (case pools of
              Inl err \<Rightarrow> Inl err
            | Inr (ps, a') \<Rightarrow>
                Inr (\<lparr>rt_pools = ps, rt_lookup = cf_Lookup c, rt_cache = set (cf_Cache c)\<rparr>, a'))
     }"

definition DefaultPoolFactory :: "nat \<Rightarrow> hash_range rule list \<Rightarrow> hash_range scan_pool" where
  "DefaultPoolFactory = NewScanPool"

definition config_Router ::
  "(string \<Rightarrow> string + url) \<Rightarrow> (nat \<Rightarrow> hash_range rule list \<Rightarrow> hash_range scan_pool) option \<Rightarrow> nat
    \<Rightarrow> config \<Rightarrow> (rerr + hash_range scan_pool router \<times> nat) go" where
  "config_Router parse factory a c =
     config_Router_with parse (case factory of None \<Rightarrow> DefaultPoolFactory | Some f \<Rightarrow> f) a c"

text \<open>\<open>NewConfig\<close> returns the decoded configuration beside the verdict of its check; \<open>input\<close> is
  what reading gave.\<close>

definition NewConfig ::
  "(string \<Rightarrow> string + url) \<Rightarrow> (bytes \<Rightarrow> rerr + config) \<Rightarrow> rerr + bytes
    \<Rightarrow> (config option \<times> rerr option) go" where
  "NewConfig parse yaml input =
     (case input of
        Inl err \<Rightarrow> ret (None, Some err)
      | Inr buf \<Rightarrow>
          (case yaml buf of
             Inl err \<Rightarrow> ret (None, Some err)
           | Inr config \<Rightarrow> do { err \<leftarrow> Valid parse config; ret (Some config, err) }))"

definition NewConfigFromFile ::
  "(string \<Rightarrow> string + url) \<Rightarrow> (bytes \<Rightarrow> rerr + config) \<Rightarrow> (string \<Rightarrow> rerr + (rerr + bytes)) \<Rightarrow> string
    \<Rightarrow> (config option \<times> rerr option) go" where
  "NewConfigFromFile parse yaml open_file name =
     (case open_file name of
        Inl err \<Rightarrow> ret (None, Some err)
      | Inr file \<Rightarrow> NewConfig parse yaml file)"

section \<open>Storage constructors\<close>

definition DefaultConfig :: config where
  "DefaultConfig =
     \<lparr>cf_Pools = [(''hub.gig.tech'', [(''00:FF'', ''ardb://hub.gig.tech:16379'')])],
      cf_Lookup = [''hub.gig.tech''], cf_Cache = []\<rparr>"

definition simple_config :: "string \<Rightarrow> config" where
  "simple_config u =
     \<lparr>cf_Pools = [(''simple'', [(''00:FF'', u)])], cf_Lookup = [''simple''], cf_Cache = []\<rparr>"

definition NewSimpleStorage ::
  "(string \<Rightarrow> string + url) \<Rightarrow> nat \<Rightarrow> string \<Rightarrow> (rerr + hash_range scan_pool router \<times> nat) go" where
  "NewSimpleStorage parse a u =
     (if length u = 0 then ret (Inl ErrEmptyUrl) else config_Router parse None a (simple_config u))"

definition NewStorage ::
  "(string \<Rightarrow> string + url) \<Rightarrow> (bytes \<Rightarrow> rerr + config) \<Rightarrow> nat \<Rightarrow> rerr + bytes
    \<Rightarrow> (rerr + hash_range scan_pool router \<times> nat) go" where
  "NewStorage parse yaml a input =
     do {
       (conf, err) \<leftarrow> NewConfig parse yaml input;
       case err of
         Some e \<Rightarrow> ret (Inl e)
       | None \<Rightarrow> (case conf of None \<Rightarrow> panic | Some c \<Rightarrow> config_Router parse None a c)
     }"

section \<open>The check\<close>

text \<open>What an acceptable configuration is, rule by rule.\<close>

definition rule_ok :: "(string \<Rightarrow> string + url) \<Rightarrow> string \<times> string \<Rightarrow> bool" where
  "rule_ok parse rd \<longleftrightarrow> (\<exists>g. NewRange (fst rd) = ret (Inr g)) \<and> dest_ok parse (snd rd)"

definition config_ok :: "(string \<Rightarrow> string + url) \<Rightarrow> config \<Rightarrow> bool" where
  "config_ok parse c \<longleftrightarrow>
     cf_Lookup c \<noteq> [] \<and> set (cf_Lookup c) \<subseteq> fst ` set (cf_Pools c) \<and>
     set (cf_Cache c) \<subseteq> fst ` set (cf_Pools c) \<and>
     (\<forall>(name, pool)\<in>set (cf_Pools c). \<forall>rd\<in>set pool. rule_ok parse rd)"

definition missing_names :: "(string \<times> pool_config) list \<Rightarrow> string list \<Rightarrow> errors" where
  "missing_names pools names = map NoPoolNamed (filter (\<lambda>n. n \<notin> fst ` set pools) names)"

definition rule_errors :: "(string \<Rightarrow> string + url) \<Rightarrow> string \<times> string \<Rightarrow> errors" where
  "rule_errors parse rd =
     (case NewRange (fst rd) of
        Some (Inl e) \<Rightarrow> [Wrapped e (fst rd)]
      | _ \<Rightarrow> []) @
     (case NewDestination parse 0 (snd rd) of
        Inl e \<Rightarrow> [Wrapped e (snd rd)]
      | Inr _ \<Rightarrow> [])"

definition config_errors :: "(string \<Rightarrow> string + url) \<Rightarrow> config \<Rightarrow> errors" where
  "config_errors parse c =
     (if cf_Lookup c = [] then [NoLookupTable] else []) @
     missing_names (cf_Pools c) (cf_Lookup c) @ missing_names (cf_Pools c) (cf_Cache c) @
     concat (map (\<lambda>p. concat (map (rule_errors parse) (snd p))) (cf_Pools c))"

lemma check_names_missing: "check_names pools names err = err @ missing_names pools names"
proof (induction names arbitrary: err)
  case Nil
  then show ?case by (simp add: missing_names_def)
next
  case (Cons n names)
  have "map_of pools n = None \<longleftrightarrow> n \<notin> fst ` set pools" by (rule map_of_eq_None_iff)
  then show ?case
    by (cases "map_of pools n") (auto simp: Cons.IH missing_names_def errors_Add_def)
qed

lemma NewRange_ret: "\<exists>res. NewRange r = ret res"
  by (cases r rule: NewRange_cases) auto

lemma check_rules_errors: "check_rules parse pool err = ret (err @ concat (map (rule_errors parse) pool))"
proof (induction pool arbitrary: err)
  case Nil
  then show ?case by simp
next
  case (Cons rd pool)
  obtain r d where rd: "rd = (r, d)" by fastforce
  obtain res where res: "NewRange r = ret res" using NewRange_ret by blast
  show ?case
    by (cases res; cases "NewDestination parse 0 d")
      (simp_all add: rd res Cons.IH rule_errors_def errors_Add_def Let_def)
qed

lemma check_pools_errors:
  "check_pools parse pools err = ret (err @ concat (map (\<lambda>p. concat (map (rule_errors parse) (snd p))) pools))"
proof (induction pools arbitrary: err)
  case Nil
  then show ?case by simp
next
  case (Cons p pools)
  then show ?case by (cases p) (simp add: check_rules_errors)
qed

lemma Valid_errors:
  "Valid parse c = ret (if config_errors parse c = [] then None else Some (ManyErrors (config_errors parse c)))"
  by (simp add: Valid_def Let_def check_names_missing check_pools_errors config_errors_def
      errors_HasErrors_def errors_Add_def)

lemma rule_errors_none: "rule_errors parse rd = [] \<longleftrightarrow> rule_ok parse rd"
proof -
  obtain res where res: "NewRange (fst rd) = ret res" using NewRange_ret by blast
  show ?thesis
    by (cases res; cases rule: NewDestination_cases [of parse 0 "snd rd"])
      (simp_all add: rule_errors_def rule_ok_def res)
qed

lemma config_errors_none: "config_errors parse c = [] \<longleftrightarrow> config_ok parse c"
  by (auto simp: config_errors_def config_ok_def missing_names_def filter_empty_conv rule_errors_none)

section \<open>The router built\<close>

definition rule_made :: "(string \<Rightarrow> string + url) \<Rightarrow> nat \<Rightarrow> string \<times> string \<Rightarrow> hash_range rule \<Rightarrow> bool" where
  "rule_made parse a rd r \<longleftrightarrow>
     NewRange (fst rd) = ret (Inr (rule_range r)) \<and> parse (snd rd) = Inr (dst_url (rule_dest r)) \<and>
     url_scheme (dst_url (rule_dest r)) \<in> set SupportedScheme \<and> dst_addr (rule_dest r) = a"

lemma build_rules_ok:
  assumes "list_all (rule_ok parse) cfg"
  shows "\<exists>rules. build_rules parse a cfg = ret (Inr (rules, a + length cfg)) \<and>
    length rules = length cfg \<and> (\<forall>i<length cfg. rule_made parse (a + i) (cfg ! i) (rules ! i))"
  using assms
proof (induction cfg arbitrary: a)
  case Nil
  then show ?case by simp
next
  case (Cons rd cfg)
  obtain r d where rd: "rd = (r, d)" by fastforce
  obtain g where g: "NewRange r = ret (Inr g)" and ok: "dest_ok parse d"
    using Cons.prems by (auto simp: rd rule_ok_def)
  obtain u where u: "parse d = Inr u" "url_scheme u \<in> set SupportedScheme"
    "NewDestination parse a d = Inr \<lparr>dst_addr = a, dst_url = u\<rparr>"
    using ok by (cases rule: NewDestination_cases [of parse a d]) (auto simp: dest_ok_def)
  obtain rules where rules: "build_rules parse (Suc a) cfg = ret (Inr (rules, Suc a + length cfg))"
    "length rules = length cfg" "\<forall>i<length cfg. rule_made parse (Suc a + i) (cfg ! i) (rules ! i)"
    using Cons.IH [of "Suc a"] Cons.prems by auto
  have "\<forall>i<length (rd # cfg). rule_made parse (a + i) ((rd # cfg) ! i)
      ((\<lparr>rule_range = g, rule_dest = \<lparr>dst_addr = a, dst_url = u\<rparr>\<rparr> # rules) ! i)"
    using rules(3) g u by (auto simp: less_Suc_eq_0_disj rule_made_def rd)
  then show ?case using rules(1,2) g u by (simp add: rd)
qed

lemma build_rules_bad:
  assumes "\<not> list_all (rule_ok parse) cfg"
  shows "\<exists>e. build_rules parse a cfg = ret (Inl e)"
  using assms
proof (induction cfg arbitrary: a)
  case Nil
  then show ?case by simp
next
  case (Cons rd cfg)
  obtain r d where rd: "rd = (r, d)" by fastforce
  obtain res where res: "NewRange r = ret res" using NewRange_ret by blast
  show ?case
  proof (cases res)
    case (Inl e)
    then show ?thesis by (simp add: rd res)
  next
    case (Inr g)
    show ?thesis
    proof (cases rule: NewDestination_cases [of parse a d])
      case (bad e)
      then show ?thesis by (simp add: rd res Inr)
    next
      case (good u)
      then have "rule_ok parse rd" using res Inr by (simp add: rd rule_ok_def)
      then have "\<not> list_all (rule_ok parse) cfg" using Cons.prems by simp
      then obtain e where "build_rules parse (Suc a) cfg = ret (Inl e)" using Cons.IH by blast
      then show ?thesis using good by (simp add: rd res Inr)
    qed
  qed
qed


text \<open>The pool a pool configuration turns into: its rules in iteration order, their destinations at
  consecutive fresh addresses from \<open>a\<close>.\<close>

definition pool_made ::
  "(string \<Rightarrow> string + url) \<Rightarrow> nat \<Rightarrow> pool_config \<Rightarrow> hash_range scan_pool \<Rightarrow> bool" where
  "pool_made parse a cfg p \<longleftrightarrow>
     sp_addr p = a + length cfg \<and> length (sp_rules p) = length cfg \<and>
     (\<forall>i<length cfg. rule_made parse (a + i) (cfg ! i) (sp_rules p ! i))"

lemma pool_made_wf: "pool_made parse a cfg p \<Longrightarrow> rules_valid range_wf (sp_rules p)"
  by (auto simp: pool_made_def rules_valid_def list_all_length rule_made_def dest: NewRange_wf)

lemma pool_made_addr:
  assumes "pool_made parse a cfg p" "d \<in> rule_dest ` set (sp_rules p)"
  shows "\<exists>i<length cfg. dst_addr d = a + i \<and> d = rule_dest (sp_rules p ! i)"
proof -
  obtain i where i: "i < length (sp_rules p)" "d = rule_dest (sp_rules p ! i)"
    using assms(2) by (auto simp: in_set_conv_nth)
  then have "i < length cfg" "dst_addr d = a + i"
    using assms(1) by (auto simp: pool_made_def rule_made_def)
  with i show ?thesis by blast
qed

definition heap_with :: "(nat \<Rightarrow> destination) \<Rightarrow> nat \<Rightarrow> hash_range scan_pool \<Rightarrow> nat \<Rightarrow> destination" where
  "heap_with heap a p x =
     (if a \<le> x \<and> x < a + length (sp_rules p) then rule_dest (sp_rules p ! (x - a)) else heap x)"

lemma heap_with_dests:
  assumes "pool_made parse a cfg p" "\<forall>x<a + length cfg. heap' x = heap_with heap a p x"
  shows "dests_ok heap' (map rule_dest (sp_rules p))"
proof -
  have "heap' (dst_addr d) = d" if d: "d \<in> rule_dest ` set (sp_rules p)" for d
  proof -
    obtain i where i: "i < length cfg" "dst_addr d = a + i" "d = rule_dest (sp_rules p ! i)"
      using pool_made_addr [OF assms(1) d] by blast
    then have "heap' (a + i) = heap_with heap a p (a + i)" using assms(2) by simp
    with i show ?thesis using assms(1) by (simp add: heap_with_def pool_made_def)
  qed
  then show ?thesis by (simp add: dests_ok_def list_all_iff)
qed

definition rules_ok :: "(string \<Rightarrow> string + url) \<Rightarrow> (string \<times> pool_config) list \<Rightarrow> bool" where
  "rules_ok parse pools \<longleftrightarrow> list_all (\<lambda>p. list_all (rule_ok parse) (snd p)) pools"

lemma build_pools_ok:
  assumes "rules_ok parse pools" "distinct (map fst pools)"
  shows "\<exists>ps' a' heap'. build_pools parse NewScanPool a ps pools = ret (Inr (ps', a')) \<and>
    (\<forall>n. n \<notin> fst ` set pools \<longrightarrow> ps' n = ps n) \<and> (\<forall>x<a. heap' x = heap x) \<and>
    (\<forall>(n, cfg)\<in>set pools. \<exists>p a0. ps' n = Some p \<and> a \<le> a0 \<and> pool_made parse a0 cfg p \<and>
       dests_ok heap' (map rule_dest (sp_rules p)))"
  using assms
proof (induction pools arbitrary: a ps heap)
  case Nil
  then show ?case by auto
next
  case (Cons nc pools)
  obtain n cfg where nc: "nc = (n, cfg)" by fastforce
  have "list_all (rule_ok parse) cfg" using Cons.prems by (simp add: nc rules_ok_def)
  then obtain rules where rules: "build_rules parse a cfg = ret (Inr (rules, a + length cfg))"
    "length rules = length cfg" "\<forall>i<length cfg. rule_made parse (a + i) (cfg ! i) (rules ! i)"
    using build_rules_ok by blast
  define p where "p = NewScanPool (a + length cfg) rules"
  have made: "pool_made parse a cfg p" using rules by (simp add: p_def NewScanPool_def pool_made_def)
  let ?a1 = "Suc (a + length cfg)"
  have prems: "rules_ok parse pools" "distinct (map fst pools)"
    using Cons.prems by (simp_all add: rules_ok_def)
  obtain ps' a' heap' where IH: "build_pools parse NewScanPool ?a1 (ps(n \<mapsto> p)) pools = ret (Inr (ps', a'))"
    "\<forall>m. m \<notin> fst ` set pools \<longrightarrow> ps' m = (ps(n \<mapsto> p)) m"
    "\<forall>x<?a1. heap' x = heap_with heap a p x"
    "\<forall>(m, cfg)\<in>set pools. \<exists>p a0. ps' m = Some p \<and> ?a1 \<le> a0 \<and> pool_made parse a0 cfg p \<and>
       dests_ok heap' (map rule_dest (sp_rules p))"
    using Cons.IH [OF prems, of ?a1 "ps(n \<mapsto> p)" "heap_with heap a p"] by (elim exE conjE) (rule that)
  have head: "ps' n = Some p" using IH(2) Cons.prems(2) nc by simp
  have dests: "dests_ok heap' (map rule_dest (sp_rules p))"
    by (rule heap_with_dests [OF made, of _ heap]) (use IH(3) in simp)
  have old: "\<forall>x<a. heap' x = heap x" using IH(3) by (simp add: heap_with_def)
  have tail: "\<exists>p a0. ps' m = Some p \<and> a \<le> a0 \<and> pool_made parse a0 c p \<and>
       dests_ok heap' (map rule_dest (sp_rules p))" if mc: "(m, c) \<in> set pools" for m c
  proof -
    obtain p a0 where "ps' m = Some p" "?a1 \<le> a0" "pool_made parse a0 c p"
      "dests_ok heap' (map rule_dest (sp_rules p))"
      using IH(4) mc by fastforce
    then show ?thesis by (intro exI [of _ p] exI [of _ a0]) simp
  qed
  have build: "build_pools parse NewScanPool a ps (nc # pools) = ret (Inr (ps', a'))"
    using rules(1) IH(1) by (simp add: nc p_def)
  have rest: "\<forall>m. m \<notin> fst ` set (nc # pools) \<longrightarrow> ps' m = ps m" using IH(2) by (simp add: nc)
  have first: "\<exists>p a0. ps' n = Some p \<and> a \<le> a0 \<and> pool_made parse a0 cfg p \<and>
       dests_ok heap' (map rule_dest (sp_rules p))"
    using head made dests by blast
  have all: "\<forall>(m, c)\<in>set (nc # pools). \<exists>p a0. ps' m = Some p \<and> a \<le> a0 \<and> pool_made parse a0 c p \<and>
       dests_ok heap' (map rule_dest (sp_rules p))"
    unfolding nc list.set ball_simps split_paired_Ball_Sigma using first tail by blast
  show ?case using build rest old all by blast
qed

lemma build_pools_bad:
  assumes "\<not> rules_ok parse pools"
  shows "\<exists>e. build_pools parse factory a ps pools = ret (Inl e)"
  using assms
proof (induction pools arbitrary: a ps)
  case Nil
  then show ?case by (simp add: rules_ok_def)
next
  case (Cons nc pools)
  obtain n cfg where nc: "nc = (n, cfg)" by fastforce
  show ?case
  proof (cases "list_all (rule_ok parse) cfg")
    case True
    then obtain rules where "build_rules parse a cfg = ret (Inr (rules, a + length cfg))"
      using build_rules_ok by blast
    moreover have "\<not> rules_ok parse pools" using Cons.prems True by (simp add: nc rules_ok_def)
    ultimately show ?thesis using Cons.IH by (simp add: nc)
  next
    case False
    then obtain e where "build_rules parse a cfg = ret (Inl e)" using build_rules_bad by blast
    then show ?thesis by (simp add: nc)
  qed
qed

lemma config_ok_rules: "config_ok parse c \<Longrightarrow> rules_ok parse (cf_Pools c)"
  by (auto simp: config_ok_def rules_ok_def list_all_iff)

text \<open>The router made of good rules: every pool is valid over a heap that keeps the old objects.\<close>

lemma config_Router_ok:
  assumes "rules_ok parse (cf_Pools c)" "distinct (map fst (cf_Pools c))"
    and "conn_ok heap w" "\<forall>pa x rp. wd_conn w pa x = Some rp \<longrightarrow> x < a"
  shows "\<exists>r a' heap'. config_Router parse None a c = ret (Inr (r, a')) \<and>
    rt_lookup r = cf_Lookup c \<and> rt_cache r = set (cf_Cache c) \<and> dom (rt_pools r) = fst ` set (cf_Pools c) \<and>
    (\<forall>x<a. heap' x = heap x) \<and> (\<forall>p\<in>ran (rt_pools r). pool_valid heap' p w) \<and>
    (\<forall>(n, cfg)\<in>set (cf_Pools c). \<exists>p a0. rt_pools r n = Some p \<and> pool_made parse a0 cfg p)"
proof -
  obtain ps a' heap' where b: "build_pools parse NewScanPool a Map.empty (cf_Pools c) = ret (Inr (ps, a'))"
    "\<forall>n. n \<notin> fst ` set (cf_Pools c) \<longrightarrow> ps n = None" "\<forall>x<a. heap' x = heap x"
    "\<forall>(n, cfg)\<in>set (cf_Pools c). \<exists>p a0. ps n = Some p \<and> a \<le> a0 \<and> pool_made parse a0 cfg p \<and>
       dests_ok heap' (map rule_dest (sp_rules p))"
    using build_pools_ok [OF assms(1,2), of a Map.empty heap] by auto
  let ?r = "\<lparr>rt_pools = ps, rt_lookup = cf_Lookup c, rt_cache = set (cf_Cache c)\<rparr>"
  have r: "config_Router parse None a c = ret (Inr (?r, a'))"
    using b(1) by (simp add: config_Router_def config_Router_with_def DefaultPoolFactory_def)
  have each: "\<exists>p a0. ps n = Some p \<and> pool_made parse a0 cfg p \<and> dests_ok heap' (map rule_dest (sp_rules p))"
    if "(n, cfg) \<in> set (cf_Pools c)" for n cfg
    using b(4) that by fastforce
  have "dom ps = fst ` set (cf_Pools c)"
  proof (rule set_eqI)
    fix n show "n \<in> dom ps \<longleftrightarrow> n \<in> fst ` set (cf_Pools c)"
      using b(2) each by (cases "n \<in> fst ` set (cf_Pools c)") force+
  qed
  moreover have "conn_ok heap' w" using assms(3,4) b(3) by (simp add: conn_ok_def) metis
  then have "pool_valid heap' p w" if "p \<in> ran ps" for p
  proof -
    obtain n where n: "ps n = Some p" using \<open>p \<in> ran ps\<close> by (auto simp: ran_def)
    then obtain cfg where "(n, cfg) \<in> set (cf_Pools c)" using b(2) by (cases "n \<in> fst ` set (cf_Pools c)") auto
    with each n \<open>conn_ok heap' w\<close> show ?thesis by (fastforce simp: pool_valid_def dest: pool_made_wf)
  qed
  ultimately show ?thesis using r b(3) each
    by (intro exI [of _ ?r] exI [of _ a'] exI [of _ heap']) fastforce
qed


section \<open>Properties\<close>

text \<open>A URL parser for the witnesses: scheme and host around "://", no user.\<close>

definition plain_url :: "string \<Rightarrow> string + url" where
  "plain_url s =
     (let sch = takeWhile (\<lambda>c. c \<noteq> CHR '':'') s; rest = drop (length sch) s
      in if take 3 rest = ''://'' then Inr \<lparr>url_scheme = sch, url_host = drop 3 rest, url_user = None\<rparr>
         else Inl ''missing scheme'')"

definition demo_config :: config where
  "demo_config =
     \<lparr>cf_Pools = [(''local'', [(''00:FF'', ''zdb://l:1'')]), (''hub'', [(''8'', ''ardb://h:2'')])],
      cf_Lookup = [''local'', ''hub''], cf_Cache = [''local'']\<rparr>"

lemma NewRange_all: "NewRange ''00:FF'' = ret (Inr (RangeMatch [0] [0xFF]))"
  by code_simp

lemma NewRange_8: "NewRange ''8'' = ret (Inr (ExactMatch [0x80]))"
  by code_simp

lemma demo_config_ok: "config_ok plain_url demo_config"
  by (simp add: config_ok_def demo_config_def rule_ok_def NewRange_all NewRange_8 dest_ok_def
      plain_url_def Let_def SupportedScheme_def)

text \<open>C28. The configuration check is exact and total: it never panics, it reports no error just when a
  lookup table is given, every looked-up and every cache name is a pool, and every rule has a valid
  range and destination; and what it reports is the complete list of errors, one per offence,
  so the verdict does not depend on the iteration order of the maps.\<close>

theorem Valid_complete:
  "(\<exists>v. Valid parse c = ret v \<and>
     (v = None \<longleftrightarrow> cf_Lookup c \<noteq> [] \<and>
        (\<forall>n\<in>set (cf_Lookup c) \<union> set (cf_Cache c). map_of (cf_Pools c) n \<noteq> None) \<and>
        (\<forall>(name, pool)\<in>set (cf_Pools c). \<forall>(rg, d)\<in>set pool.
           (\<exists>g. NewRange rg = ret (Inr g)) \<and> (\<exists>x. NewDestination parse 0 d = Inr x))) \<and>
     (v = None \<longleftrightarrow> config_errors parse c = []) \<and>
     (\<forall>err. v = Some err \<longrightarrow> err = ManyErrors (config_errors parse c)))"
proof -
  have dest: "dest_ok parse d \<longleftrightarrow> (\<exists>x. NewDestination parse 0 d = Inr x)" for d
    by (cases rule: NewDestination_cases [of parse 0 d]) auto
  have "config_ok parse c \<longleftrightarrow> cf_Lookup c \<noteq> [] \<and>
        (\<forall>n\<in>set (cf_Lookup c) \<union> set (cf_Cache c). map_of (cf_Pools c) n \<noteq> None) \<and>
        (\<forall>(name, pool)\<in>set (cf_Pools c). \<forall>(rg, d)\<in>set pool.
           (\<exists>g. NewRange rg = ret (Inr g)) \<and> (\<exists>x. NewDestination parse 0 d = Inr x))"
    unfolding config_ok_def rule_ok_def dest map_of_eq_None_iff by fastforce
  then show ?thesis by (simp add: Valid_errors config_errors_none)
qed

theorem Valid_complete_witness:
  "Valid plain_url (demo_config\<lparr>cf_Cache := [''disk'']\<rparr>) = ret (Some (ManyErrors [NoPoolNamed ''disk'']))"
proof -
  have "config_errors plain_url (demo_config\<lparr>cf_Cache := [''disk'']\<rparr>) = [NoPoolNamed ''disk'']"
    by (simp add: config_errors_def demo_config_def missing_names_def rule_errors_def NewRange_all NewRange_8
        NewDestination_def plain_url_def Let_def SupportedScheme_def)
  then show ?thesis
    using Valid_complete [of plain_url "demo_config\<lparr>cf_Cache := [''disk'']\<rparr>"] by auto
qed

text \<open>C29. A configuration that passes the check always yields a router, and a good one: the lookup
  table and the cache name existing pools, every pool has the rules of its configuration in order,
  and every pool is valid over a heap in which the objects that existed before are unchanged, so
  the guarantees about pools and routers apply to it.\<close>

theorem valid_config_routes:
  assumes "Valid parse c = ret None" "distinct (map fst (cf_Pools c))"
    and "conn_ok heap w" "\<forall>pa x rp. wd_conn w pa x = Some rp \<longrightarrow> x < a"
  shows "\<exists>r a' heap'. config_Router parse None a c = ret (Inr (r, a')) \<and> router_wf r \<and>
    rt_lookup r = cf_Lookup c \<and> rt_cache r = set (cf_Cache c) \<and>
    (\<forall>x<a. heap' x = heap x) \<and> (\<forall>p\<in>ran (rt_pools r). pool_valid heap' p w) \<and>
    (\<forall>(n, cfg)\<in>set (cf_Pools c). \<exists>p a0. rt_pools r n = Some p \<and> pool_made parse a0 cfg p)"
proof -
  have ok: "config_ok parse c"
    using assms(1) by (simp add: Valid_errors config_errors_none split: if_splits)
  then have names: "set (cf_Lookup c) \<subseteq> fst ` set (cf_Pools c)" "set (cf_Cache c) \<subseteq> fst ` set (cf_Pools c)"
    by (simp_all add: config_ok_def)
  obtain r a' heap' where r: "config_Router parse None a c = ret (Inr (r, a'))"
    "rt_lookup r = cf_Lookup c" "rt_cache r = set (cf_Cache c)" "dom (rt_pools r) = fst ` set (cf_Pools c)"
    "\<forall>x<a. heap' x = heap x" "\<forall>p\<in>ran (rt_pools r). pool_valid heap' p w"
    "\<forall>(n, cfg)\<in>set (cf_Pools c). \<exists>p a0. rt_pools r n = Some p \<and> pool_made parse a0 cfg p"
    using config_Router_ok [OF config_ok_rules [OF ok] assms(2-4)] by blast
  then have "router_wf r" using names by (simp add: router_wf_def)
  with r show ?thesis by blast
qed

theorem valid_config_routes_witness:
  "\<exists>r a'. config_Router plain_url None 0 demo_config = ret (Inr (r, a')) \<and> router_wf r \<and>
    rt_lookup r = [''local'', ''hub'']"
proof -
  have v: "Valid plain_url demo_config = ret None"
    using demo_config_ok by (simp add: Valid_errors config_errors_none)
  have d: "distinct (map fst (cf_Pools demo_config))" by (simp add: demo_config_def)
  have w: "conn_ok sample_dest sample_world" "\<forall>pa x rp. wd_conn sample_world pa x = Some rp \<longrightarrow> x < 0"
    by (simp_all add: conn_ok_def sample_world_def)
  from valid_config_routes [OF v d w] show ?thesis by (auto simp: demo_config_def)
qed

lemma range_all_in: "0 < slice_len key \<Longrightarrow> range_in (RangeMatch [0] [0xFF]) key = ret True"
proof -
  assume "0 < slice_len key"
  moreover have "be_val [b] \<le> be_val [0xFF]" for b :: byte
    using unsigned_less [of b, where ?'a = nat] by (simp add: be_val_def)
  ultimately show ?thesis
    using hr.In_matches [of "RangeMatch [0] [0xFF]" key] by (cases "visible key") (auto simp: slice_len_def be_val_def)
qed

lemma simple_router:
  assumes "u \<noteq> []" "parse u = Inr x" "url_scheme x \<in> set SupportedScheme"
  shows "NewSimpleStorage parse a u =
    ret (Inr (\<lparr>rt_pools = [''simple'' \<mapsto> NewScanPool (Suc a) [\<lparr>rule_range = RangeMatch [0] [0xFF], rule_dest = \<lparr>dst_addr = a, dst_url = x\<rparr>\<rparr>]],
               rt_lookup = [''simple''], rt_cache = {}\<rparr>, Suc (Suc a)))"
  using assms(1-3)
  by (simp add: NewSimpleStorage_def simple_config_def config_Router_def config_Router_with_def NewRange_all
      NewDestination_def DefaultPoolFactory_def)

text \<open>A single-endpoint storage serves every non-empty key from its one server: the answer is the
  server's, every failure becomes "no pools matches key", and the block is sent to the (empty)
  cache. Looking up an empty key panics.\<close>

theorem NewSimpleStorage_serves:
  assumes "u \<noteq> []" "parse u = Inr x" "url_scheme x \<in> set SupportedScheme" "0 < slice_len key"
    and "\<forall>pa. wd_conn w pa a = None"
  shows "\<exists>r a' w'. NewSimpleStorage parse a u = ret (Inr (r, a')) \<and>
    router_Get (scan_Get range_in api) r key w =
      ret (case fst (pool_get api (newPool \<lparr>dst_addr = a, dst_url = x\<rparr>) (visible key) (wd_net w)) of
             Inl e \<Rightarrow> (Inl (Wrapped ErrNotRoutable ''no pools matches key''), None, w')
           | Inr data \<Rightarrow> (Inr data, Some \<lparr>ck_key = key, ck_data = data\<rparr>, w')) \<and>
    router_Get (scan_Get range_in api) r (Slice [] []) w = panic"
proof -
  let ?d = "\<lparr>dst_addr = a, dst_url = x\<rparr>"
  obtain res n where g: "pool_get api (newPool ?d) (visible key) (wd_net w) = (res, n)" by fastforce
  show ?thesis
    using simple_router [where u = u and parse = parse and x = x and a = a, OF assms(1-3)] assms(5) range_all_in [OF assms(4)] g
    by (cases res)
      (simp_all add: router_Get_def router_get_def scan_Get_def scan_Routes_def NewScanPool_def getPool_def
        Let_def updateCache_def slice_cap_def reslice_def)
qed

theorem NewSimpleStorage_serves_witness:
  "\<exists>r a' w'. NewSimpleStorage plain_url 0 ''zdb://hub:9900'' = ret (Inr (r, a')) \<and>
    router_Get (scan_Get range_in map_api) r any_key hub_world
      = ret (Inr [7], Some \<lparr>ck_key = any_key, ck_data = [7]\<rparr>, w')"
proof -
  let ?u = "\<lparr>url_scheme = ''zdb'', url_host = ''hub:9900'', url_user = None\<rparr>"
  have u: "''zdb://hub:9900'' \<noteq> []" "plain_url ''zdb://hub:9900'' = Inr ?u" "url_scheme ?u \<in> set SupportedScheme"
    by (simp_all add: plain_url_def Let_def SupportedScheme_def)
  have k: "0 < slice_len any_key" by (simp add: any_key_len)
  have w: "\<forall>pa. wd_conn hub_world pa 0 = None" by (simp add: hub_world_def sample_world_def)
  have "fst (pool_get map_api (newPool \<lparr>dst_addr = 0, dst_url = ?u\<rparr>) (visible any_key) (wd_net hub_world)) = Inr [7]"
    by (simp add: pool_get_unfold map_api_def hub_world_def any_key_def newPool_def sample_dest_def)
  then show ?thesis using NewSimpleStorage_serves [where u = "''zdb://hub:9900''" and parse = plain_url and x = ?u and a = 0, OF u k w, of map_api] by auto
qed

end
