(* ===== verification/Archives.thy ===== *)
theory Archives
  imports Caches
begin

text \<open>
  Unpacking an flist archive: meta/unpack.go. What gzip and tar make of the input is a parameter:
  the list of what \<open>tr.Next()\<close> returns, each entry with the bytes and the error of copying its body.
  Files of the system are those of theory Caches; permission bits are left out.
\<close>

datatype tar_event =
    TarEntry string bytes "string option"    \<comment> \<open>name, body, error of the copy\<close>
  | TarError string                          \<comment> \<open>\<open>tr.Next()\<close> fails\<close>

datatype uerr = UOs oserr | UArchive string

text \<open>\<open>os.OpenFile(name, O_CREATE|O_TRUNC|O_WRONLY, mode)\<close>.\<close>

definition os_create :: "os_faults \<Rightarrow> string \<Rightarrow> fsys \<Rightarrow> oserr + nat \<times> fsys" where
  "os_create fl name fs =
     (case os_open fl name fs of
        Inl e \<Rightarrow> Inl e
      | Inr (i, fs') \<Rightarrow> Inr (i, fs'\<lparr>fy_data := (fy_data fs')(i := [])\<rparr>))"

definition os_append :: "nat \<Rightarrow> bytes \<Rightarrow> fsys \<Rightarrow> fsys" where
  "os_append i body fs = fs\<lparr>fy_data := (fy_data fs)(i := fy_data fs i @ body)\<rparr>"

fun unpack_entries :: "os_faults \<Rightarrow> string \<Rightarrow> tar_event list \<Rightarrow> fsys \<Rightarrow> uerr option \<times> fsys" where
  "unpack_entries fl dest [] fs = (None, fs)"
| "unpack_entries fl dest (TarError m # evs) fs = (Some (UArchive m), fs)"
| "unpack_entries fl dest (TarEntry name body copy_err # evs) fs =
     (if name = ''/'' \<or> name = ''./'' then unpack_entries fl dest evs fs
      else
        case os_create fl (path_Join [dest, name]) fs of
          Inl e \<Rightarrow> (Some (UOs e), fs)
        | Inr (i, fs1) \<Rightarrow>
            (case copy_err of
               Some m \<Rightarrow> (Some (UArchive m), os_append i body fs1)
             | None \<Rightarrow> unpack_entries fl dest evs (os_append i body fs1)))"

definition Unpack :: "os_faults \<Rightarrow> string + tar_event list \<Rightarrow> string \<Rightarrow> fsys \<Rightarrow> uerr option \<times> fsys" where
  "Unpack fl r dest fs =
     (case os_mkdir_all fl dest fs of
        (Some e, fs1) \<Rightarrow> (Some (UOs e), fs1)
      | (None, fs1) \<Rightarrow>
          (case r of
             Inl m \<Rightarrow> (Some (UArchive m), fs1)
           | Inr evs \<Rightarrow> unpack_entries fl dest evs fs1))"

section \<open>The files of the system\<close>

definition fs_file :: "fsys \<Rightarrow> string \<Rightarrow> bytes option" where
  "fs_file fs p = map_option (fy_data fs) (fy_names fs p)"

lemma same_files_file: "same_files fs fs' \<Longrightarrow> fs_file fs' = fs_file fs"
  by (auto simp: same_files_def fs_file_def)

text \<open>Creating a file writes this file and no other.\<close>

lemma os_create_writes:
  assumes "os_create fl name fs = Inr (i, fs1)" "fs_wf fs"
  shows "fs_wf (os_append i body fs1) \<and> fs_file (os_append i body fs1) = (fs_file fs)(name \<mapsto> body) \<and>
    fy_dirs (os_append i body fs1) = fy_dirs fs"
proof -
  obtain fs0 where o: "os_open fl name fs = Inr (i, fs0)" "fs1 = fs0\<lparr>fy_data := (fy_data fs0)(i := [])\<rparr>"
    using assms(1) by (auto simp: os_create_def split: sum.splits)
  note op = os_open_opened [OF o(1)]
  have wf: "fs_wf fs0" by (rule opened_wf [OF op assms(2)])
  have app: "os_append i body fs1 = fs0\<lparr>fy_data := (fy_data fs0)(i := body)\<rparr>" by (simp add: os_append_def o(2))
  have i: "fy_names fs0 name = Some i" using op by (simp add: opened_def)
  have "fs_file (os_append i body fs1) p = ((fs_file fs)(name \<mapsto> body)) p" for p
  proof (cases "p = name")
    case True
    then show ?thesis using i by (simp add: fs_file_def app)
  next
    case False
    have n: "fy_names fs0 p = fy_names fs p" using op False by (simp add: opened_def)
    have "fy_data fs0 j = fy_data fs j \<and> j \<noteq> i" if "fy_names fs p = Some j" for j
    proof
      show "j \<noteq> i" using fs_wf_inj [OF wf, of p j name] i n that False by auto
      then show "fy_data fs0 j = fy_data fs j" using op by (auto simp: opened_def split: option.splits)
    qed
    then show ?thesis using n False by (cases "fy_names fs p") (auto simp: fs_file_def app)
  qed
  moreover have "fy_dirs fs0 = fy_dirs fs" using o(1) by (auto simp: os_open_def split: option.splits if_splits)
  ultimately show ?thesis using wf by (auto simp: app data_wf)
qed

text \<open>Destinations whose files have the names one expects: every relative and every absolute path made
  of plain names.\<close>

definition clean_dest :: "string \<Rightarrow> bool" where
  "clean_dest dest \<longleftrightarrow> (\<forall>n. plain_name n \<longrightarrow> path_Dir (path_Join [dest, n]) = dest \<and> path_Base (path_Join [dest, n]) = n)"

lemma clean_dest_relative:
  assumes "xs \<noteq> []" "list_all plain_name xs"
  shows "clean_dest (path_of xs)"
  using assms path_Join_snoc path_Dir_snoc path_Base_snoc by (simp add: clean_dest_def)

text \<open>An archive of flat files.\<close>

fun flat_entry :: "tar_event \<Rightarrow> bool" where
  "flat_entry (TarEntry n b e) \<longleftrightarrow> (n = ''/'' \<or> n = ''./'' \<or> plain_name n) \<and> e = None"
| "flat_entry (TarError m) \<longleftrightarrow> False"

fun entry_file :: "string \<Rightarrow> tar_event \<Rightarrow> (string \<times> bytes) option" where
  "entry_file dest (TarEntry n b e) = (if n = ''/'' \<or> n = ''./'' then None else Some (path_Join [dest, n], b))"
| "entry_file dest (TarError m) = None"

lemma os_create_flat:
  assumes "clean_dest dest" "plain_name n" "is_dir fs dest" "fy_names fs dest = None"
    and "fl_open fl (path_Join [dest, n]) = None" "\<not> is_dir fs (path_Join [dest, n])"
  shows "\<exists>i fs1. os_create fl (path_Join [dest, n]) fs = Inr (i, fs1)"
  using assms by (auto simp: os_create_def os_open_def clean_dest_def split: option.splits)

lemma unpack_entries_flat:
  assumes "clean_dest dest" "list_all flat_entry evs" "\<forall>p. fl_open fl p = None"
    and "\<forall>n. plain_name n \<longrightarrow> \<not> is_dir fs (path_Join [dest, n])"
    and "is_dir fs dest" "fy_names fs dest = None" "fs_wf fs"
  shows "fst (unpack_entries fl dest evs fs) = None \<and>
    fs_file (snd (unpack_entries fl dest evs fs)) = fs_file fs ++ map_of (rev (List.map_filter (entry_file dest) evs))"
  using assms(2,4-7)
proof (induction evs arbitrary: fs)
  case Nil
  then show ?case by simp
next
  case (Cons ev evs)
  then obtain n b where ev: "ev = TarEntry n b None" by (cases ev) auto
  show ?case
  proof (cases "n = ''/'' \<or> n = ''./''")
    case True
    then show ?thesis using Cons ev by (auto simp: List.map_filter_def)
  next
    case False
    then have n: "plain_name n" using Cons.prems(1) ev by auto
    obtain i fs1 where c: "os_create fl (path_Join [dest, n]) fs = Inr (i, fs1)"
      using os_create_flat [OF assms(1) n Cons.prems(3,4)] assms(3) Cons.prems(2) n by blast
    let ?fs = "os_append i b fs1"
    note w = os_create_writes [OF c Cons.prems(5), of b]
    have "path_Join [dest, n] \<noteq> dest" using Cons.prems(2,3) n by metis
    then have "fs_file ?fs dest = fs_file fs dest" using w by simp
    then have d: "fy_names ?fs dest = None" using Cons.prems(4) by (simp add: fs_file_def)
    have dirs: "is_dir ?fs p = is_dir fs p" for p using w by (simp add: is_dir_def)
    have IH: "fst (unpack_entries fl dest evs ?fs) = None \<and>
        fs_file (snd (unpack_entries fl dest evs ?fs)) = fs_file ?fs ++ map_of (rev (List.map_filter (entry_file dest) evs))"
      by (rule Cons.IH) (use Cons.prems dirs d w in simp_all)
    have f: "fs_file ?fs = (fs_file fs)(path_Join [dest, n] \<mapsto> b)" using w by blast
    have u: "unpack_entries fl dest (ev # evs) fs = unpack_entries fl dest evs ?fs" using c ev False by simp
    have eq: "fs_file fs ++ map_of (rev (List.map_filter (entry_file dest) (ev # evs))) =
        (fs_file fs)(path_Join [dest, n] \<mapsto> b) ++ map_of (rev (List.map_filter (entry_file dest) evs))"
      using False ev by (simp add: List.map_filter_simps map_add_assoc)
    show ?thesis unfolding u eq using IH unfolding f by blast
  qed
qed

section \<open>Properties\<close>



lemma demo_mkdir: "os_mkdir_all no_faults ''a'' empty_fs = (None, empty_fs\<lparr>fy_dirs := [''a'']\<rparr>)"
proof -
  have "path_Dir ''a'' = ''.''" by code_simp
  then show ?thesis by (simp add: os_mkdir_all.simps is_dir_def empty_fs_def no_faults_def)
qed

lemma demo_dest: "clean_dest ''a''"
  using clean_dest_relative [of "[''a'']"] by (simp add: path_of_def plain_name_def)


text \<open>The names of an archive are trusted: an entry with dots in its name is written outside the
  destination, and an entry for a directory becomes a file, below which nothing can be unpacked.\<close>

lemma unpack_escapes:
  "fs_file (snd (Unpack no_faults (Inr [TarEntry ''../evil'' [1] None]) ''a/b'' empty_fs)) ''a/evil'' = Some [1]"
  by code_simp

lemma unpack_directory:
  "fst (Unpack no_faults (Inr [TarEntry ''d/'' [] None, TarEntry ''d/f'' [1] None]) ''a'' empty_fs) = Some (UOs NotDirectory)"
  by code_simp

end
