(* ===== verification/Rofs.thy ===== *)
theory Rofs
  imports Caches
begin

text \<open>
  The filesystem that FUSE calls: rofs/rofs.go. A configuration holds the metadata store, which can
  be replaced while the filesystem is mounted, and the cache directory; the state is the system's
  files. The node trees of go-fuse and its read-only wrapper are not under src/; its constant
  \<open>O_ANYWRITE\<close> is a parameter.
\<close>

section \<open>Configuration\<close>

record 'm rofs =
  ro_store :: "'m layer"
  ro_cache :: string

definition NewCache :: "string \<Rightarrow> string" where
  "NewCache path = path"

definition rofs_NewConfig :: "'m layer \<Rightarrow> string \<Rightarrow> 'm rofs" where
  "rofs_NewConfig store cache = \<lparr>ro_store = store, ro_cache = NewCache cache\<rparr>"

definition SetMetaStore :: "'m layer \<Rightarrow> 'm rofs \<Rightarrow> 'm rofs" where
  "SetMetaStore store c = c\<lparr>ro_store := store\<rparr>"

datatype status = OK | ENOENT | EIO | EPERM | ENOSYS

section \<open>Attributes\<close>

record fattr =
  fa_Ino :: u64
  fa_Size :: u64
  fa_Atime :: u64
  fa_Mtime :: u64
  fa_Ctime :: u64
  fa_Mode :: u32
  fa_Blocks :: u64
  fa_Uid :: u32
  fa_Gid :: u32
  fa_Rdev :: u32
  fa_Blksize :: u32

text \<open>\<open>fmt.Sscanf(data, "%d,%d", &major, &minor)\<close> into two zeroed \<open>uint32\<close>s: each number is a run of
  digits behind blanks, and what does not fit or does not match leaves the rest unset.\<close>

definition scan_uint32 :: "string \<Rightarrow> (u32 \<times> string) option" where
  "scan_uint32 s =
     (case skip_space s of
        Inl e \<Rightarrow> None
      | Inr r \<Rightarrow>
          (let ds = takeWhile is_digit r; n = read_digits ds
           in if ds = [] \<or> 2 ^ 32 \<le> n then None else Some (word_of_nat n, dropWhile is_digit r)))"

definition scan_dev :: "string \<Rightarrow> u32 \<times> u32" where
  "scan_dev s =
     (case scan_uint32 s of
        None \<Rightarrow> (0, 0)
      | Some (major, r) \<Rightarrow>
          (case r of
             [] \<Rightarrow> (major, 0)
           | c # r' \<Rightarrow>
               (if c \<noteq> CHR '','' then (major, 0)
                else case scan_uint32 r' of None \<Rightarrow> (major, 0) | Some (minor, _) \<Rightarrow> (major, minor))))"

definition blkSize :: u64 where "blkSize = 4 * 1024"

text \<open>The quotient is below 2 to the 52, so the detour of \<open>Blocks\<close> through a \<open>float64\<close> is exact.\<close>

definition attr_of :: "info \<Rightarrow> u64 \<Rightarrow> fattr" where
  "attr_of info ino =
     (let nodeType = in_Type info;
          access = in_Access info;
          blocks = in_Size info div blkSize;
          (major, minor) = (if in_SpecialData info \<noteq> [] then scan_dev (in_SpecialData info) else (0, 0));
          sz = (if nodeType = LinkType then word_of_nat (length (in_LinkTarget info)) else in_Size info)
      in \<lparr>fa_Ino = ino, fa_Size = sz,
          fa_Atime = ucast (in_ModificationTime info), fa_Mtime = ucast (in_ModificationTime info),
          fa_Ctime = ucast (in_CreationTime info), fa_Mode = nodeType OR ac_Mode access,
          fa_Blocks = blocks, fa_Uid = ac_UID access, fa_Gid = ac_GID access,
          fa_Rdev = push_bit 8 major OR minor, fa_Blksize = ucast blkSize\<rparr>)"

definition GetAttr ::
  "'m meta_ops \<Rightarrow> os_faults \<Rightarrow> 'm rofs \<Rightarrow> string \<Rightarrow> fsys \<Rightarrow> ((fattr option \<times> status) \<times> fsys) go option" where
  "GetAttr ops fl c name fs =
     (case ro_store c name of
        None \<Rightarrow> Some panic
      | Some None \<Rightarrow> Some (ret ((None, ENOENT), fs))
      | Some (Some m) \<Rightarrow>
          (case node_Info ops m of
             None \<Rightarrow> Some panic
           | Some info \<Rightarrow>
               (if in_Type info = UnknownType then Some (ret ((None, EIO), fs))
                else if in_Type info = RegularType then
                  (case check ops fl (ro_cache c) m fs of
                     None \<Rightarrow> None
                   | Some (Inl err, fs') \<Rightarrow> Some (ret ((None, EIO), fs'))
                   | Some (Inr stat, fs') \<Rightarrow> Some (ret ((Some (attr_of info (word_of_nat (sa_Ino stat))), OK), fs')))
                else Some (ret ((Some (attr_of info 0), OK), fs)))))"

section \<open>Files and directories\<close>

text \<open>An open file: the inode behind the loopback file, if there is one, under the stored attributes.\<close>

record with_attr =
  wa_File :: "nat option"
  wa_Source :: fattr

definition WithAttr_GetAttr :: "with_attr \<Rightarrow> fattr \<times> status" where
  "WithAttr_GetAttr w = (wa_Source w, OK)"

definition Open ::
  "u32 \<Rightarrow> 'm meta_ops \<Rightarrow> os_faults \<Rightarrow> download_fn \<Rightarrow> 'm rofs \<Rightarrow> string \<Rightarrow> u32 \<Rightarrow> fsys
    \<Rightarrow> ((with_attr option \<times> status) \<times> fsys) go option" where
  "Open O_ANYWRITE ops fl dl c name flags fs =
     (if flags AND O_ANYWRITE \<noteq> 0 then Some (ret ((None, EPERM), fs))
      else
        case ro_store c name of
          None \<Rightarrow> Some panic
        | Some None \<Rightarrow> Some (ret ((None, ENOENT), fs))
        | Some (Some m) \<Rightarrow>
            (case CheckAndGet ops fl dl (ro_cache c) m fs of
               None \<Rightarrow> None
             | Some None \<Rightarrow> Some panic
             | Some (Some (r, fs1)) \<Rightarrow>
                 (let f = (case r of Inl err \<Rightarrow> None | Inr i \<Rightarrow> Some i)
                  in case GetAttr ops fl c name fs1 of
                       None \<Rightarrow> None
                     | Some None \<Rightarrow> Some panic
                     | Some (Some ((attr, ferr), fs2)) \<Rightarrow>
                         (case attr of
                            Some a \<Rightarrow> if ferr = OK then Some (ret ((Some \<lparr>wa_File = f, wa_Source = a\<rparr>, OK), fs2))
                              else Some (ret ((None, ferr), fs2))
                          | None \<Rightarrow> Some (ret ((None, ferr), fs2))))))"

fun dir_entries :: "'m meta_ops \<Rightarrow> 'm node list \<Rightarrow> (u32 \<times> string) list go" where
  "dir_entries ops [] = ret []"
| "dir_entries ops (child # children) =
     do {
       info \<leftarrow> node_Info ops child;
       name \<leftarrow> node_Name ops child;
       entries \<leftarrow> dir_entries ops children;
       ret ((in_Type info, name) # entries)
     }"

definition OpenDir :: "'m meta_ops \<Rightarrow> 'm rofs \<Rightarrow> string \<Rightarrow> ((u32 \<times> string) list \<times> status) go" where
  "OpenDir ops c name =
     do {
       m \<leftarrow> ro_store c name;
       case m of
         None \<Rightarrow> ret ([], ENOENT)
       | Some d \<Rightarrow>
           do {
             children \<leftarrow> node_Children ops d;
             entries \<leftarrow> dir_entries ops children;
             ret (entries, OK)
           }
     }"

definition Readlink :: "'m meta_ops \<Rightarrow> 'm rofs \<Rightarrow> string \<Rightarrow> (string \<times> status) go" where
  "Readlink ops c name =
     do {
       m \<leftarrow> ro_store c name;
       case m of
         None \<Rightarrow> ret ([], ENOENT)
       | Some l \<Rightarrow> do { info \<leftarrow> node_Info ops l; ret (in_LinkTarget info, OK) }
     }"

definition fs_String :: string where "fs_String = ''G8UFS''"

definition fs_Access :: "string \<Rightarrow> u32 \<Rightarrow> status" where "fs_Access name mode = OK"

text \<open>\<open>StatFs\<close> answers with the zero value of the library's record.\<close>

definition StatFs :: "'o \<Rightarrow> string \<Rightarrow> 'o" where "StatFs zero name = zero"

definition GetXAttr :: "string \<Rightarrow> string \<Rightarrow> bytes \<times> status" where "GetXAttr name a = ([], ENOSYS)"

definition ListXAttr :: "string \<Rightarrow> string list \<times> status" where "ListXAttr name = ([], ENOSYS)"

section \<open>Numbers of devices\<close>

lemma skip_space_digit: "is_digit c \<Longrightarrow> skip_space (c # cs) = Inr (c # cs)"
  by (auto simp: is_digit_def)

lemma show_nat_ne [simp]: "show_nat n \<noteq> []"
  by (subst show_nat.simps) simp

lemma digits_all: "list_all is_digit (show_nat n)"
  by (auto simp: list_all_iff show_nat_digits)

lemma scan_uint32_show:
  assumes "n < 2 ^ 32" "r = [] \<or> \<not> is_digit (hd r)"
  shows "scan_uint32 (show_nat n @ r) = Some (word_of_nat n, r)"
proof -
  have tw: "takeWhile is_digit (show_nat n @ r) = show_nat n" "dropWhile is_digit (show_nat n @ r) = r"
    using assms(2) takeWhile_all_append [OF digits_all, of "hd r" n "tl r"] dropWhile_all_append [OF digits_all, of "hd r" n "tl r"]
      takeWhile_all [OF digits_all, of n] dropWhile_all [OF digits_all, of n]
    by (cases r; simp)+
  obtain c cs where c: "show_nat n = c # cs" using show_nat_ne by (meson neq_Nil_conv)
  then have "is_digit c" using show_nat_digits [of c n] by simp
  then have "skip_space (show_nat n @ r) = Inr (show_nat n @ r)" using c skip_space_digit by simp
  then show ?thesis using assms(1) tw by (simp add: scan_uint32_def Let_def read_digits_show_nat)
qed

lemma comma_no_digit: "\<not> is_digit (CHR '','')"
  by (simp add: is_digit_def)

lemma scan_dev_show:
  assumes "major < 2 ^ 32" "minor < 2 ^ 32"
  shows "scan_dev (show_nat major @ CHR '','' # show_nat minor) = (word_of_nat major, word_of_nat minor)"
  using scan_uint32_show [OF assms(1), of "CHR '','' # show_nat minor"] scan_uint32_show [OF assms(2), of "[]"] comma_no_digit
  by (simp add: scan_dev_def)


lemma unat_rdev:
  assumes "major < 2 ^ 24" "minor < 256"
  shows "unat (push_bit 8 (word_of_nat major) OR word_of_nat minor :: u32) = push_bit 8 major OR minor"
proof -
  have "push_bit 8 major < 2 ^ 32" using assms(1) by (simp add: push_bit_eq_mult)
  then show ?thesis using assms by (simp add: unsigned_or_eq unsigned_push_bit_eq unsigned_of_nat take_bit_nat_eq_self)
qed

lemma rdev_fields:
  assumes "major < 2 ^ 24" "minor < 256"
  shows "unat (drop_bit 8 (push_bit 8 (word_of_nat major) OR word_of_nat minor :: u32)) = major"
    and "unat (take_bit 8 (push_bit 8 (word_of_nat major) OR word_of_nat minor :: u32)) = minor"
proof -
  have bound: "push_bit 8 major OR minor < 2 ^ 32"
    using unsigned_less [of "push_bit 8 (word_of_nat major) OR word_of_nat minor :: u32", where ?'a = nat]
    unfolding unat_rdev [OF assms] by simp
  have len: "LENGTH(32) = 32" by simp
  have d: "drop_bit 8 minor = 0" "take_bit 8 minor = minor"
    using assms(2) by (simp_all add: drop_bit_eq_div take_bit_eq_mod)
  moreover have "drop_bit 8 (push_bit 8 major) = major" by (simp add: push_bit_eq_mult drop_bit_eq_div)
  ultimately have "drop_bit 8 (push_bit 8 major OR minor) = major" by (simp add: drop_bit_or)
  then show "unat (drop_bit 8 (push_bit 8 (word_of_nat major) OR word_of_nat minor :: u32)) = major"
    unfolding unsigned_drop_bit_eq unat_rdev [OF assms] by (simp only: len take_bit_nat_eq_self [OF bound])
  have "take_bit 8 (push_bit 8 major OR minor) = minor" using d by (simp add: take_bit_push_bit)
  then show "unat (take_bit 8 (push_bit 8 (word_of_nat major) OR word_of_nat minor :: u32)) = minor"
    unfolding unsigned_take_bit_eq unat_rdev [OF assms] by simp
qed

section \<open>The type bits of a mode\<close>

lemma mode_parts:
  fixes t p m :: "'a::len word"
  assumes "t AND m = t" "p AND m = 0"
  shows "(t OR p) AND m = t" "(t OR p) AND NOT m = p"
proof -
  have t: "bit t k \<Longrightarrow> bit m k" for k using arg_cong [OF assms(1), of "\<lambda>x. bit x k"] by (simp add: bit_and_iff)
  have p: "bit p k \<Longrightarrow> \<not> bit m k" for k using arg_cong [OF assms(2), of "\<lambda>x. bit x k"] by (simp add: bit_and_iff)
  show "(t OR p) AND m = t"
    by (rule bit_word_eqI) (use t p in \<open>auto simp: bit_and_iff bit_or_iff\<close>)
  show "(t OR p) AND NOT m = p"
    by (rule bit_word_eqI) (use t p in \<open>auto simp: bit_and_iff bit_or_iff bit_not_iff\<close>)
qed

text \<open>Every node type of the program is within the mask of the type bits.\<close>

lemma meta_type_bits: "meta_Info m = ret i \<Longrightarrow> in_Type i AND 0xF000 = in_Type i"
  by (cases m) (auto simp: dir_Info_def file_Info_def link_Info_def special_Info_def special_type_def)

section \<open>What the operations return\<close>

lemma GetAttr_found:
  assumes "ro_store c name = ret (Some m)" "node_Info ops m = ret info"
  shows "GetAttr ops fl c name fs =
    (if in_Type info = UnknownType then Some (ret ((None, EIO), fs))
     else if in_Type info = RegularType then
       (case check ops fl (ro_cache c) m fs of
          None \<Rightarrow> None
        | Some (Inl err, fs') \<Rightarrow> Some (ret ((None, EIO), fs'))
        | Some (Inr st, fs') \<Rightarrow> Some (ret ((Some (attr_of info (word_of_nat (sa_Ino st))), OK), fs')))
     else Some (ret ((Some (attr_of info 0), OK), fs)))"
  using assms by (simp add: GetAttr_def)

lemma attr_of_simps [simp]: "fa_Ino (attr_of i ino) = ino"
  "fa_Size (attr_of i ino) = (if in_Type i = LinkType then word_of_nat (length (in_LinkTarget i)) else in_Size i)"
  "fa_Mode (attr_of i ino) = in_Type i OR ac_Mode (in_Access i)"
  "fa_Uid (attr_of i ino) = ac_UID (in_Access i)" "fa_Gid (attr_of i ino) = ac_GID (in_Access i)"
  by (simp_all add: attr_of_def Let_def split: prod.split)

text \<open>A successful \<open>check\<close> leaves the data of the file alone.\<close>

lemma check_opened:
  assumes "check ops fl cache m fs = Some (r, fs')"
  shows "case r of Inl e \<Rightarrow> same_files fs fs' \<or> (\<exists>i. opened (cache_path cache (node_ID ops m)) fs i fs')
    | Inr st \<Rightarrow> opened (cache_path cache (node_ID ops m)) fs (sa_Ino st) fs' \<and> sa_Size st = length (fy_data fs' (sa_Ino st))"
proof -
  obtain x fs1 where x: "ensure fl (cache_path cache (node_ID ops m)) fs = Some (x, fs1)"
    using assms by (auto simp: check_def split: option.splits)
  then show ?thesis
    using assms ensure_opened [OF x]
    by (cases x) (auto simp: check_def ensured_def f_stat_def split: option.splits sum.splits)
qed

lemma opened_again: "fy_names fs name = Some i \<Longrightarrow> opened name fs j fs' \<Longrightarrow> j = i \<and> fy_data fs' = fy_data fs"
  by (simp add: opened_def)

lemma dir_entries_ok:
  assumes "dir_entries ops cs = ret es"
  shows "(mode, n) \<in> set es \<longleftrightarrow> (\<exists>c\<in>set cs. \<exists>i. node_Info ops c = ret i \<and> in_Type i = mode \<and> node_Name ops c = ret n)"
    and "c \<in> set cs \<Longrightarrow> \<exists>i. node_Info ops c = ret i"
  using assms by (induction cs arbitrary: es) (auto simp: go_bind_eq_ret)


section \<open>Properties\<close>

lemma dir_entries_names:
  assumes "dir_entries ops ms = ret entries"
  shows "snd ` set entries = {n. \<exists>x\<in>set ms. node_Name ops x = ret n}"
proof (intro equalityI subsetI)
  fix n assume "n \<in> snd ` set entries"
  then obtain mode where "(mode, n) \<in> set entries" by auto
  then show "n \<in> {n. \<exists>x\<in>set ms. node_Name ops x = ret n}" using dir_entries_ok(1) [OF assms] by blast
next
  fix n assume "n \<in> {n. \<exists>x\<in>set ms. node_Name ops x = ret n}"
  then obtain x where x: "x \<in> set ms" "node_Name ops x = ret n" by blast
  then obtain i where "node_Info ops x = ret i" using dir_entries_ok(2) [OF assms] by blast
  then have "(in_Type i, n) \<in> set entries" using x dir_entries_ok(1) [OF assms] by blast
  then show "n \<in> snd ` set entries" by force
qed


definition demo_rofs :: "(((string \<times> meta) list, (string \<times> np_aci) list) entry) rofs" where
  "demo_rofs = rofs_NewConfig (stores_Get (sql_ops id) [sql_layer SqlStore.demo_env]) ''/c''"

lemma demo_stack: "stack_ok (sql_ops id) [sql_layer SqlStore.demo_env]"
  by (simp add: stack_ok_def no_shadow_single sql_layer_ok demo_flist_ok)

lemma demo_rofs_sels: "ro_store demo_rofs = stores_Get (sql_ops id) [sql_layer SqlStore.demo_env]" "ro_cache demo_rofs = ''/c''"
  by (simp_all add: demo_rofs_def rofs_NewConfig_def NewCache_def)


lemma demo_listing: "OpenDir (sql_ops id) demo_rofs [] = ret ([(RegularType, ''f''), (DirType, ''d'')], OK)"
  by code_simp


lemma opened_kept:
  assumes "same_files fs fs' \<or> (\<exists>k. opened p fs k fs')"
  shows "fs_wf fs \<longrightarrow> (\<forall>n j. fy_names fs n = Some j \<longrightarrow> fy_names fs' n = Some j \<and> fy_data fs' j = fy_data fs j)"
proof (intro impI allI)
  fix n j assume wf: "fs_wf fs" and n: "fy_names fs n = Some j"
  then have "j < fy_next fs" by (rule fs_wfD)
  then show "fy_names fs' n = Some j \<and> fy_data fs' j = fy_data fs j"
    using assms n by (auto simp: opened_def same_files_def split: option.splits)
qed

text \<open>A regular file is looked up in the cache, which fails or gives the number of its inode.\<close>

lemma GetAttr_regular:
  assumes "GetAttr ops fl c name fs = Some (ret ((r, st), fs'))"
    and "ro_store c name = ret (Some m)" "node_Info ops m = ret i" "in_Type i = RegularType"
  shows "(r = None \<and> st = EIO \<and> (same_files fs fs' \<or> (\<exists>k. opened (cache_path (ro_cache c) (node_ID ops m)) fs k fs'))) \<or>
    (\<exists>k. r = Some (attr_of i (word_of_nat k)) \<and> st = OK \<and> opened (cache_path (ro_cache c) (node_ID ops m)) fs k fs')"
proof -
  note eq = GetAttr_found [where ops = ops and fl = fl and c = c and name = name and m = m and info = i and fs = fs, OF assms(2,3)]
  obtain y fs1 where y: "check ops fl (ro_cache c) m fs = Some (y, fs1)" "fs1 = fs'"
    using assms(1,4) eq by (auto split: option.splits sum.splits)
  note op = check_opened [OF y(1)]
  show ?thesis
  proof (cases y)
    case (Inl e)
    then show ?thesis using assms(1,4) eq y op by simp
  next
    case (Inr sa)
    then have "r = Some (attr_of i (word_of_nat (sa_Ino sa)))" "st = OK" using assms(1,4) eq y by simp_all
    moreover have "opened (cache_path (ro_cache c) (node_ID ops m)) fs (sa_Ino sa) fs'" using op Inr y(2) by simp
    ultimately show ?thesis by blast
  qed
qed

text \<open>C33. \<open>GetAttr\<close> answers \<open>ENOENT\<close> just for paths the store does not have, and attributes just when
  it answers \<open>OK\<close>. The mode splits into the type and the permissions, the size of a link is the
  length of its target, a file has the number of the inode that the cache holds under its name, and
  no cached contents change.\<close>

theorem GetAttr_spec:
  assumes "GetAttr ops fl c name fs = Some (ret ((r, st), fs'))"
  shows "(st = ENOENT \<longleftrightarrow> ro_store c name = ret None) \<and> (st = OK \<longleftrightarrow> r \<noteq> None) \<and> st \<in> {OK, ENOENT, EIO} \<and>
    (fs_wf fs \<longrightarrow> (\<forall>n i. fy_names fs n = Some i \<longrightarrow> fy_names fs' n = Some i \<and> fy_data fs' i = fy_data fs i)) \<and>
    (\<forall>a. r = Some a \<longrightarrow> (\<exists>m i. ro_store c name = ret (Some m) \<and> node_Info ops m = ret i \<and> in_Type i \<noteq> UnknownType \<and>
       (in_Type i AND 0xF000 = in_Type i \<and> ac_Mode (in_Access i) AND 0xF000 = 0 \<longrightarrow>
          fa_Mode a AND 0xF000 = in_Type i \<and> fa_Mode a AND NOT 0xF000 = ac_Mode (in_Access i)) \<and>
       fa_Size a = (if in_Type i = LinkType then word_of_nat (length (in_LinkTarget i)) else in_Size i) \<and>
       (in_Type i = RegularType \<longrightarrow>
          (\<exists>k. fy_names fs' (cache_path (ro_cache c) (node_ID ops m)) = Some k \<and> fa_Ino a = word_of_nat k))))"
proof (cases "ro_store c name")
  case None
  then show ?thesis using assms by (simp add: GetAttr_def)
next
  case (Some x)
  show ?thesis
  proof (cases x)
    case None
    then show ?thesis using assms Some by (auto simp: GetAttr_def)
  next
    case m: (Some m)
    note found = Some [unfolded m]
    obtain i where i: "node_Info ops m = ret i" using assms found by (auto simp: GetAttr_def split: option.splits)
    note eq = GetAttr_found [where ops = ops and fl = fl and c = c and name = name and m = m and info = i and fs = fs, OF found i]
    note kept = opened_kept [of fs fs' "cache_path (ro_cache c) (node_ID ops m)"]
    consider (unknown) "in_Type i = UnknownType" | (regular) "in_Type i = RegularType"
      | (other) "in_Type i \<noteq> UnknownType" "in_Type i \<noteq> RegularType" by blast
    then show ?thesis
    proof cases
      case unknown
      then show ?thesis using assms eq found by simp
    next
      case other
      then have "r = Some (attr_of i 0)" "st = OK" "fs' = fs" using assms eq by simp_all
      then show ?thesis using other found i mode_parts [of "in_Type i" "0xF000" "ac_Mode (in_Access i)"] by simp
    next
      case regular
      from GetAttr_regular [OF assms found i this] show ?thesis
      proof
        assume e: "r = None \<and> st = EIO \<and> (same_files fs fs' \<or> (\<exists>k. opened (cache_path (ro_cache c) (node_ID ops m)) fs k fs'))"
        then show ?thesis using found kept by simp
      next
        assume "\<exists>k. r = Some (attr_of i (word_of_nat k)) \<and> st = OK \<and>
          opened (cache_path (ro_cache c) (node_ID ops m)) fs k fs'"
        then obtain k where k: "r = Some (attr_of i (word_of_nat k))" "st = OK"
          "opened (cache_path (ro_cache c) (node_ID ops m)) fs k fs'" by blast
        then have "fy_names fs' (cache_path (ro_cache c) (node_ID ops m)) = Some k" by (simp add: opened_def)
        moreover have "fs_wf fs \<longrightarrow> (\<forall>n j. fy_names fs n = Some j \<longrightarrow> fy_names fs' n = Some j \<and> fy_data fs' j = fy_data fs j)"
          using kept k(3) by blast
        ultimately show ?thesis using k(1,2) found i regular mode_parts [of "in_Type i" "0xF000" "ac_Mode (in_Access i)"] by simp
      qed
    qed
  qed
qed


text \<open>One file at every path, and the flags of \<open>open(2)\<close> that ask for writing.\<close>

definition file_rofs :: "unit rofs" where
  "file_rofs = rofs_NewConfig (\<lambda>p. ret (Some (Plain ()))) ''/c''"

definition any_write :: u32 where "any_write = 0x643"

definition first_answer :: "('a \<times> fsys) go option \<Rightarrow> 'a option" where
  "first_answer r = (case r of Some (Some x) \<Rightarrow> Some (fst x) | _ \<Rightarrow> None)"

lemma first_answerD: "first_answer r = Some x \<Longrightarrow> \<exists>fs'. r = Some (ret (x, fs'))"
  by (auto simp: first_answer_def split: option.splits)

lemma first_attr: "first_answer (GetAttr file_ops no_faults file_rofs ''f'' empty_fs) = Some (Some (attr_of plain_file 0), OK)"
  by code_simp

theorem GetAttr_spec_witness:
  "\<exists>fs'. GetAttr file_ops no_faults file_rofs ''f'' empty_fs = Some (ret ((Some (attr_of plain_file 0), OK), fs')) \<and>
    fa_Mode (attr_of plain_file 0) AND 0xF000 = RegularType"
proof -
  obtain fs' where a: "GetAttr file_ops no_faults file_rofs ''f'' empty_fs = Some (ret ((Some (attr_of plain_file 0), OK), fs'))"
    using first_answerD [OF first_attr] by blast
  from GetAttr_spec [OF a] have "\<exists>i. node_Info file_ops (Plain ()) = ret i \<and>
      (in_Type i AND 0xF000 = in_Type i \<and> ac_Mode (in_Access i) AND 0xF000 = 0 \<longrightarrow>
         fa_Mode (attr_of plain_file 0) AND 0xF000 = in_Type i)"
    by (auto simp: file_rofs_def rofs_NewConfig_def)
  then show ?thesis using a by (auto simp: node_Info_def file_ops_def plain_file_def)
qed

text \<open>Device numbers survive: for a special inode with the data \<open>major,minor\<close> in decimal, the
  device of its attributes has the major number above its low eight bits and the minor number in
  them, as long as they fit into 24 and 8 bits. Beyond that devices collide: \<open>0,256\<close> is \<open>1,0\<close>.\<close>

theorem rdev_roundtrip:
  assumes "in_SpecialData i = show_nat major @ CHR '','' # show_nat minor" "major < 2 ^ 24" "minor < 256"
  shows "unat (drop_bit 8 (fa_Rdev (attr_of i ino))) = major \<and> unat (take_bit 8 (fa_Rdev (attr_of i ino))) = minor \<and>
    fa_Rdev (attr_of (i\<lparr>in_SpecialData := ''0,256''\<rparr>) ino) = fa_Rdev (attr_of (i\<lparr>in_SpecialData := ''1,0''\<rparr>) ino)"
proof -
  have "scan_dev (in_SpecialData i) = (word_of_nat major, word_of_nat minor)"
    using scan_dev_show [of major minor] assms by simp
  moreover have "in_SpecialData i \<noteq> []" using assms(1) by simp
  ultimately have "fa_Rdev (attr_of i ino) = push_bit 8 (word_of_nat major) OR word_of_nat minor"
    by (simp add: attr_of_def Let_def)
  moreover have "show_nat 0 = ''0''" "show_nat 1 = ''1''" "show_nat 256 = ''256''"
    by (simp_all add: show_nat.simps digit_chars)
  then have "scan_dev ''0,256'' = (0, 256)" "scan_dev ''1,0'' = (1, 0)"
    using scan_dev_show [of 0 256] scan_dev_show [of 1 0] by simp_all
  then have "fa_Rdev (attr_of (i\<lparr>in_SpecialData := ''0,256''\<rparr>) ino) = fa_Rdev (attr_of (i\<lparr>in_SpecialData := ''1,0''\<rparr>) ino)"
    by (simp add: attr_of_def Let_def)
  ultimately show ?thesis using rdev_fields [OF assms(2,3)] by simp
qed

theorem rdev_roundtrip_witness:
  "unat (drop_bit 8 (fa_Rdev (attr_of (plain_file\<lparr>in_SpecialData := show_nat 8 @ CHR '','' # show_nat 1\<rparr>) 0))) = 8"
  using rdev_roundtrip [of "plain_file\<lparr>in_SpecialData := show_nat 8 @ CHR '','' # show_nat 1\<rparr>" 8 1 0] by simp

text \<open>What is behind the handle of an opened file.\<close>

lemma open_content:
  assumes "Open W ops fl dl c name flags fs = Some (ret ((Some h, OK), fs'))" "wa_File h = Some i"
    and "ro_store c name = ret (Some m)" "node_Info ops m = ret info" "in_Type info = RegularType"
    and "describes ops m cr may d data" "downloads_by cr may d dl" "fs_wf fs" "cache_holds want fs"
    and "want (cache_path (ro_cache c) (node_ID ops m)) = Some data"
    and "fl_remove fl (cache_path (ro_cache c) (node_ID ops m)) = None"
  shows "flags AND W = 0 \<and> fy_names fs' (cache_path (ro_cache c) (node_ID ops m)) = Some i \<and> fy_data fs' i = data \<and>
    fa_Size (fst (WithAttr_GetAttr h)) = word_of_nat (length data) \<and> fa_Ino (fst (WithAttr_GetAttr h)) = word_of_nat i"
proof -
  let ?name = "cache_path (ro_cache c) (node_ID ops m)"
  have W: "flags AND W = 0" using assms(1) by (auto simp: Open_def split: if_splits)
  obtain r fs1 where get: "CheckAndGet ops fl dl (ro_cache c) m fs = Some (ret (r, fs1))"
    using assms(1,3) W by (auto simp: Open_def split: option.splits)
  have opn: "Open W ops fl dl c name flags fs =
      (case GetAttr ops fl c name fs1 of
         None \<Rightarrow> None
       | Some None \<Rightarrow> Some panic
       | Some (Some ((attr, ferr), fs2)) \<Rightarrow>
           (case attr of
              Some a \<Rightarrow> if ferr = OK then Some (ret ((Some \<lparr>wa_File = (case r of Inl err \<Rightarrow> None | Inr i \<Rightarrow> Some i), wa_Source = a\<rparr>, OK), fs2))
                else Some (ret ((None, ferr), fs2))
            | None \<Rightarrow> Some (ret ((None, ferr), fs2))))"
    using W assms(3) get by (simp add: Open_def)
  obtain a where a: "GetAttr ops fl c name fs1 = Some (ret ((Some a, OK), fs'))"
    "h = \<lparr>wa_File = (case r of Inl err \<Rightarrow> None | Inr i \<Rightarrow> Some i), wa_Source = a\<rparr>"
    using assms(1) unfolding opn by (auto split: option.splits prod.splits if_splits)
  have r: "r = Inr i" using a(2) assms(2) by (auto split: sum.splits)
  have i: "fy_names fs1 ?name = Some i" "fy_data fs1 i = data"
    using CheckAndGet_sound_aux [OF get assms(6-11)] r by auto
  obtain y where y: "check ops fl (ro_cache c) m fs1 = Some (Inr y, fs')" "a = attr_of info (word_of_nat (sa_Ino y))"
    using a(1) assms(5) unfolding GetAttr_found [OF assms(3,4)] by (auto split: option.splits sum.splits)
  then have "opened ?name fs1 (sa_Ino y) fs'" using check_opened [OF y(1)] by simp
  then have same: "sa_Ino y = i" "fy_data fs' = fy_data fs1" "fy_names fs' ?name = Some i"
    using opened_again [OF i(1)] by (auto simp: opened_def)
  have "sint (in_Size info) = int (length data)" using assms(4,6) by (simp add: describes_def)
  then have "in_Size info = word_of_nat (length data)" by (metis of_int_of_nat_eq of_int_sint scast_id)
  then show ?thesis using W same i a(2) y(2) assms(5) by (simp add: WithAttr_GetAttr_def)
qed


lemma first_open:
  "first_answer (Open any_write file_ops no_faults write_seven file_rofs ''f'' 0 empty_fs) =
    Some (Some \<lparr>wa_File = Some 0, wa_Source = attr_of plain_file 0\<rparr>, OK)"
  by code_simp


text \<open>A download that fails does not show: \<open>Open\<close> answers \<open>OK\<close> with a handle that has no file.\<close>

definition fail_download :: download_fn where
  "fail_download d f = (Some (DStorage ''down''), f)"

lemma failed_download_opens:
  "first_answer (Open any_write file_ops no_faults fail_download file_rofs ''f'' 0 empty_fs) =
    Some (Some \<lparr>wa_File = None, wa_Source = attr_of plain_file 1\<rparr>, OK)"
  by code_simp

end
