(* ===== verification/Stores.thy ===== *)
theory Stores
  imports Configs Archives Rofs
begin

text \<open>
  Assembling the stores of a mount from the command line: cmd/stores.go, with the flags of
  cmd/main.go. The decoders of archives, of YAML and of the databases are fields of \<open>cmd_env\<close>; the
  state is the system's files, which unpacking changes. The list of metadata paths is updated in
  place, so the functions return it.
\<close>

section \<open>The command line\<close>

record cmd =
  cm_Meta :: "string list"
  cm_Backend :: string
  cm_Cache :: string
  cm_URL :: string
  cm_Router :: string
  cm_Reset :: bool
  cm_Debug :: bool
  cm_Daemon :: bool
  cm_PidPath :: string
  cm_LogPath :: string
  cm_ReadOnly :: bool

text \<open>\<open>Validate\<close> builds the error about a missing \<open>--meta\<close>, drops it and returns no errors.\<close>

definition Validate :: "cmd \<Rightarrow> string list" where
  "Validate c = (let dropped = (if length (cm_Meta c) = 0 then [''--meta is require''] else []) in [])"

datatype flags = Flags
  (fg_string: "string \<Rightarrow> string") (fg_bool: "string \<Rightarrow> bool") (fg_slice: "string \<Rightarrow> string list")

text \<open>The command that \<open>action\<close> builds from the flags; it leaves \<open>Debug\<close> unset.\<close>

definition action_cmd :: "flags \<Rightarrow> cmd" where
  "action_cmd ctx =
     \<lparr>cm_Meta = fg_slice ctx ''meta'', cm_Backend = fg_string ctx ''backend'', cm_Cache = fg_string ctx ''cache'',
      cm_URL = fg_string ctx ''storage-url'', cm_Router = fg_string ctx ''local-router'',
      cm_Reset = fg_bool ctx ''reset'', cm_Debug = False, cm_Daemon = fg_bool ctx ''daemon'',
      cm_PidPath = fg_string ctx ''pid'', cm_LogPath = fg_string ctx ''log'', cm_ReadOnly = fg_bool ctx ''ro''\<rparr>"

definition action :: "(cmd \<Rightarrow> string \<Rightarrow> string option) \<Rightarrow> flags \<Rightarrow> string list \<Rightarrow> string option" where
  "action mount ctx args =
     (if length args \<noteq> 1 then Some ''expecting a single mount point argument''
      else
        let cmd = action_cmd ctx;
            errs = Validate cmd;
            buf = concat (map (\<lambda>err. err @ ''\<newline>'') errs)
        in if length buf \<noteq> 0 then Some buf else mount cmd (hd args))"

section \<open>Metadata stores\<close>

datatype cmd_err = CeOs oserr | CeUnpack uerr | CeMeta merr | CeRouter rerr

record ('c, 'a) cmd_env =
  ce_faults :: os_faults
  ce_untar :: "bytes \<Rightarrow> string + tar_event list"            \<comment> \<open>gzip and tar\<close>
  ce_flist :: "fsys \<Rightarrow> string \<Rightarrow> merr + ('c, 'a) env"         \<comment> \<open>SQLite, by its data source name\<close>
  ce_dirs :: 'c                                            \<comment> \<open>new LRU caches\<close>
  ce_acis :: 'a
  ce_parse :: "string \<Rightarrow> string + url"
  ce_yaml :: "bytes \<Rightarrow> rerr + config"

definition getDB :: "('c, 'a) cmd_env \<Rightarrow> string \<Rightarrow> fsys \<Rightarrow> (string \<times> cmd_err option) \<times> fsys" where
  "getDB e db fs =
     (case fl_open (ce_faults e) db of
        Some err \<Rightarrow> ((db, Some (CeOs err)), fs)
      | None \<Rightarrow>
          (if \<not> is_dir fs db \<and> fy_names fs db = None then ((db, Some (CeOs NotExist)), fs)
           else
             case fl_stat (ce_faults e) of
               Some err \<Rightarrow> ((db, Some (CeOs err)), fs)
             | None \<Rightarrow>
                 (if is_dir fs db then ((db, None), fs)
                  else
                    let db' = db @ ''.d''
                    in case Unpack (ce_faults e) (ce_untar e (the (fs_file fs db))) db' fs of
                         (Some err, fs') \<Rightarrow> ((db', Some (CeUnpack err)), fs')
                       | (None, fs') \<Rightarrow> ((db', None), fs'))))"

text \<open>\<open>meta.NewStore\<close>, as the layer that its lookups are.\<close>

definition open_store :: "('c, 'a) cmd_env \<Rightarrow> fsys \<Rightarrow> string \<Rightarrow> merr + ('c, 'a) entry layer" where
  "open_store e fs db =
     (case NewStore (ce_flist e fs) (ce_dirs e) (ce_acis e) db of
        Inl err \<Rightarrow> Inl err
      | Inr (ev, st) \<Rightarrow> Inr (sql_layer ev))"

fun open_stores ::
  "('c, 'a) cmd_env \<Rightarrow> string list \<Rightarrow> fsys \<Rightarrow> (string list \<times> (cmd_err + ('c, 'a) entry layer list)) \<times> fsys" where
  "open_stores e [] fs = (([], Inr []), fs)"
| "open_stores e (db # dbs) fs =
     (if length db = 0 then (case open_stores e dbs fs of ((dbs', r), fs') \<Rightarrow> ((db # dbs', r), fs'))
      else
        case getDB e db fs of
          ((db1, Some err), fs1) \<Rightarrow> ((db # dbs, Inl err), fs1)
        | ((db1, None), fs1) \<Rightarrow>
            (case open_store e fs1 db1 of
               Inl err \<Rightarrow> ((db1 # dbs, Inl (CeMeta err)), fs1)
             | Inr store \<Rightarrow>
                 (case open_stores e dbs fs1 of
                    ((dbs', r), fs') \<Rightarrow> ((db1 # dbs', map_sum id (\<lambda>stores. store # stores) r), fs'))))"

definition getMetaStore ::
  "('c, 'a) entry meta_ops \<Rightarrow> ('c, 'a) cmd_env \<Rightarrow> string list \<Rightarrow> fsys
    \<Rightarrow> (string list \<times> (cmd_err + ('c, 'a) entry layer option)) \<times> fsys" where
  "getMetaStore ops e dbs fs =
     (case open_stores e dbs fs of
        ((dbs', r), fs') \<Rightarrow> ((dbs', map_sum id (\<lambda>stores. Layered ops (map Some stores)) r), fs'))"

section \<open>Data stores\<close>

definition read_file :: "('c, 'a) cmd_env \<Rightarrow> fsys \<Rightarrow> string \<Rightarrow> rerr + (rerr + bytes)" where
  "read_file e fs name =
     (case fl_open (ce_faults e) name of
        Some err \<Rightarrow> Inl (if err = NotExist then ErrNotExist else ErrYaml ''open'')
      | None \<Rightarrow>
          (if is_dir fs name then Inr (Inl (ErrYaml ''is a directory''))
           else case fs_file fs name of None \<Rightarrow> Inl ErrNotExist | Some buf \<Rightarrow> Inr (Inr buf)))"

definition read_config :: "('c, 'a) cmd_env \<Rightarrow> fsys \<Rightarrow> string \<Rightarrow> (config option \<times> rerr option) go" where
  "read_config e fs name = NewConfigFromFile (ce_parse e) (ce_yaml e) (read_file e fs) name"

type_synonym data_router = "hash_range scan_pool router"

fun flist_routers :: "('c, 'a) cmd_env \<Rightarrow> fsys \<Rightarrow> string list \<Rightarrow> nat \<Rightarrow> (rerr + data_router list \<times> nat) go" where
  "flist_routers e fs [] a = ret (Inr ([], a))"
| "flist_routers e fs (db # dbs) a =
     do {
       (conf, err) \<leftarrow> read_config e fs (path_Join [db, ''router.yaml'']);
       case err of
         Some x \<Rightarrow> if x = ErrNotExist then flist_routers e fs dbs a else ret (Inl x)
       | None \<Rightarrow>
           (case conf of
              None \<Rightarrow> panic
            | Some c \<Rightarrow>
                do {
                  built \<leftarrow> config_Router (ce_parse e) None a c;
                  case built of
                    Inl x \<Rightarrow> ret (Inl x)
                  | Inr (r, a1) \<Rightarrow>
                      do {
                        rest \<leftarrow> flist_routers e fs dbs a1;
                        ret (map_sum id (\<lambda>(rs, a2). (r # rs, a2)) rest)
                      }
                })
     }"

definition getDataStore ::
  "('c, 'a) cmd_env \<Rightarrow> fsys \<Rightarrow> string list \<Rightarrow> data_router option \<Rightarrow> nat \<Rightarrow> (rerr + data_router \<times> nat) go" where
  "getDataStore e fs dbs fb a =
     do {
       found \<leftarrow> flist_routers e fs dbs a;
       case found of
         Inl x \<Rightarrow> ret (Inl x)
       | Inr (routers, a1) \<Rightarrow>
           do {
             m \<leftarrow> Merge (map Some routers @ (case fb of None \<Rightarrow> [] | Some f \<Rightarrow> [Some f]));
             ret (Inr (m, a1))
           }
     }"

definition layerLocalStore ::
  "('c, 'a) cmd_env \<Rightarrow> fsys \<Rightarrow> string \<Rightarrow> data_router \<Rightarrow> nat \<Rightarrow> (rerr + data_router \<times> nat) go" where
  "layerLocalStore e fs local store a =
     (if length local = 0 then ret (Inr (store, a))
      else
        do {
          (conf, err) \<leftarrow> read_config e fs local;
          case err of
            Some x \<Rightarrow> ret (Inl x)
          | None \<Rightarrow>
              (case conf of
                 None \<Rightarrow> panic
               | Some c \<Rightarrow>
                   do {
                     built \<leftarrow> config_Router (ce_parse e) None a c;
                     case built of
                       Inl x \<Rightarrow> ret (Inl x)
                     | Inr (r, a1) \<Rightarrow> do { m \<leftarrow> Merge [Some r, Some store]; ret (Inr (m, a1)) }
                   })
        })"

text \<open>The data half of \<open>getStoresFromCmd\<close>, once the metadata stores are open.\<close>

definition data_store_of_cmd ::
  "('c, 'a) cmd_env \<Rightarrow> fsys \<Rightarrow> cmd \<Rightarrow> nat \<Rightarrow> (rerr + data_router \<times> nat) go" where
  "data_store_of_cmd e fs c a =
     do {
       fb \<leftarrow> (if length (cm_URL c) \<noteq> 0
              then map_option (map_sum id (map_prod Some id)) (NewSimpleStorage (ce_parse e) a (cm_URL c))
              else ret (Inr (None, a)));
       case fb of
         Inl x \<Rightarrow> ret (Inl x)
       | Inr (f, a1) \<Rightarrow>
           do {
             merged \<leftarrow> getDataStore e fs (cm_Meta c) f a1;
             case merged of
               Inl x \<Rightarrow> ret (Inl x)
             | Inr (r, a2) \<Rightarrow> layerLocalStore e fs (cm_Router c) r a2
           }
     }"

definition getStoresFromCmd ::
  "('c, 'a) entry meta_ops \<Rightarrow> ('c, 'a) cmd_env \<Rightarrow> cmd \<Rightarrow> nat \<Rightarrow> fsys
    \<Rightarrow> (cmd \<times> (cmd_err + ('c, 'a) entry layer option \<times> data_router \<times> nat) \<times> fsys) go" where
  "getStoresFromCmd ops e c a fs =
     (case getMetaStore ops e (cm_Meta c) fs of
        ((dbs, Inl err), fs1) \<Rightarrow> ret (c\<lparr>cm_Meta := dbs\<rparr>, Inl err, fs1)
      | ((dbs, Inr meta), fs1) \<Rightarrow>
          (let c1 = c\<lparr>cm_Meta := dbs\<rparr>
           in do {
                data \<leftarrow> data_store_of_cmd e fs1 c1 a;
                ret (c1, (case data of Inl x \<Rightarrow> Inl (CeRouter x) | Inr (r, a1) \<Rightarrow> Inr (meta, r, a1)), fs1)
              }))"


section \<open>Routers in order\<close>

text \<open>The specification: routers are asked one after the other until one has the block.\<close>

fun ask_in_order ::
  "('p \<Rightarrow> slice \<Rightarrow> 'w \<Rightarrow> ((rerr + bytes) \<times> 'w) go) \<Rightarrow> 'p router list \<Rightarrow> slice \<Rightarrow> 'w \<Rightarrow> (bytes option \<times> 'w) go" where
  "ask_in_order Get [] key w = ret (None, w)"
| "ask_in_order Get (r # rs) key w =
     do {
       (res, w1) \<leftarrow> router_get Get r key w;
       case res of Inl e \<Rightarrow> ask_in_order Get rs key w1 | Inr (n, d) \<Rightarrow> ret (Some d, w1)
     }"

definition answer :: "((rerr + string \<times> bytes) \<times> 'w) go \<Rightarrow> (bytes option \<times> 'w) go" where
  "answer = map_option (\<lambda>(res, w). (case res of Inl e \<Rightarrow> None | Inr (n, d) \<Rightarrow> Some d, w))"

lemma answer_simps [simp]: "answer None = None" "answer (ret (Inl e, w)) = ret (None, w)" "answer (ret (Inr (n, d), w)) = ret (Some d, w)"
  by (simp_all add: answer_def)

lemma chain_answer: "answer (chain_get Get i (map Some rs) key w) = ask_in_order Get rs key w"
proof (induction rs arbitrary: i w)
  case (Cons r rs)
  then show ?case by (cases "router_get Get r key w") (auto split: sum.split prod.split)
qed simp

lemma ask_single: "ask_in_order Get [r] key w = answer (router_get Get r key w)"
  by (cases "router_get Get r key w") (auto split: sum.split prod.split)

lemma ask_append_single:
  assumes "\<And>w. answer (router_get Get m key w) = ask_in_order Get rs key w"
  shows "ask_in_order Get (ls @ [m]) key w = ask_in_order Get (ls @ rs) key w"
proof (induction ls arbitrary: w)
  case Nil
  then show ?case using assms by (simp add: ask_single del: ask_in_order.simps)
next
  case (Cons l ls)
  then show ?case by (cases "router_get Get l key w") (auto split: sum.split prod.split)
qed

lemma merged_answer:
  assumes "Merge (map Some rs) = ret m" "list_all router_wf rs"
  shows "answer (router_get Get m key w) = ask_in_order Get rs key w" "router_wf m"
proof -
  have "\<forall>r. Some r \<in> set (map Some rs) \<longrightarrow> router_wf r" using assms(2) by (auto simp: list_all_iff)
  from merge_chain [OF assms(1) this, of Get key w]
  show "answer (router_get Get m key w) = ask_in_order Get rs key w" "router_wf m" by (simp_all add: chain_answer)
qed

section \<open>Routers from files\<close>

lemma go_bind_result:
  "Option.bind m (\<lambda>x. case x of Inl e \<Rightarrow> ret (Inl e) | Inr (a, b) \<Rightarrow> g a b) = ret (Inr y) \<longleftrightarrow>
    (\<exists>a b. m = ret (Inr (a, b)) \<and> g a b = ret (Inr y))"
  by (cases m) (auto split: sum.split)

lemma build_pools_dom:
  "build_pools parse factory a ps pools = ret (Inr (ps', a')) \<Longrightarrow> dom ps' = dom ps \<union> fst ` set pools"
proof (induction pools arbitrary: a ps)
  case (Cons p pools)
  obtain n cfg where p: "p = (n, cfg)" by fastforce
  then obtain rs a1 where "build_rules parse a cfg = ret (Inr (rs, a1))"
    "build_pools parse factory (Suc a1) (ps(n \<mapsto> factory a1 rs)) pools = ret (Inr (ps', a'))"
    using Cons.prems by (auto simp: go_bind_result)
  then show ?case using Cons.IH p by auto
qed simp

lemma config_Router_parts:
  assumes "config_Router parse None a c = ret (Inr (r, a'))"
  shows "dom (rt_pools r) = fst ` set (cf_Pools c) \<and> rt_lookup r = cf_Lookup c \<and> rt_cache r = set (cf_Cache c)"
proof -
  obtain x where x: "build_pools parse NewScanPool a Map.empty (cf_Pools c) = ret x"
    "(case x of Inl err \<Rightarrow> Inl err
      | Inr (ps, a') \<Rightarrow> Inr (\<lparr>rt_pools = ps, rt_lookup = cf_Lookup c, rt_cache = set (cf_Cache c)\<rparr>, a')) = Inr (r, a')"
    using assms by (auto simp: config_Router_def config_Router_with_def DefaultPoolFactory_def go_bind_eq_ret)
  then obtain ps where "x = Inr (ps, a')" "r = \<lparr>rt_pools = ps, rt_lookup = cf_Lookup c, rt_cache = set (cf_Cache c)\<rparr>"
    by (cases x) auto
  then show ?thesis using build_pools_dom [of parse NewScanPool a Map.empty "cf_Pools c" ps a'] x(1) by simp
qed

text \<open>\<open>r\<close> is the router that the file \<open>name\<close> describes.\<close>

definition config_at :: "('c, 'a) cmd_env \<Rightarrow> fsys \<Rightarrow> string \<Rightarrow> data_router \<Rightarrow> bool" where
  "config_at e fs name r \<longleftrightarrow>
     (\<exists>c a a'. read_config e fs name = ret (Some c, None) \<and> config_Router (ce_parse e) None a c = ret (Inr (r, a')))"

lemma read_config_valid: "read_config e fs name = ret (Some c, None) \<Longrightarrow> Valid (ce_parse e) c = ret None"
  by (auto simp: read_config_def NewConfigFromFile_def NewConfig_def go_bind_eq_ret split: sum.splits)

lemma config_at_wf:
  assumes "config_at e fs name r"
  shows "router_wf r"
proof -
  obtain c a a' where c: "read_config e fs name = ret (Some c, None)" "config_Router (ce_parse e) None a c = ret (Inr (r, a'))"
    using assms unfolding config_at_def by blast
  have "config_ok (ce_parse e) c"
    using read_config_valid [OF c(1)] by (simp add: Valid_errors config_errors_none split: if_splits)
  then show ?thesis using config_Router_parts [OF c(2)] by (simp add: config_ok_def router_wf_def)
qed

lemma simple_storage_wf: "NewSimpleStorage parse a u = ret (Inr (f, a')) \<Longrightarrow> router_wf f"
  using config_Router_parts [of parse a "simple_config u" f a']
  by (auto simp: NewSimpleStorage_def simple_config_def router_wf_def split: if_splits)

definition has_config :: "('c, 'a) cmd_env \<Rightarrow> fsys \<Rightarrow> string \<Rightarrow> bool" where
  "has_config e fs db \<longleftrightarrow>
     (case read_config e fs (path_Join [db, ''router.yaml'']) of
        Some (conf, Some x) \<Rightarrow> x \<noteq> ErrNotExist
      | _ \<Rightarrow> True)"

lemma flist_routers_ok:
  "flist_routers e fs dbs a = ret (Inr (rs, a')) \<Longrightarrow>
    list_all2 (\<lambda>db r. config_at e fs (path_Join [db, ''router.yaml'']) r) (filter (has_config e fs) dbs) rs"
proof (induction dbs arbitrary: a rs a')
  case (Cons db dbs)
  obtain conf err where rc: "read_config e fs (path_Join [db, ''router.yaml'']) = ret (conf, err)"
    using Cons.prems by (cases "read_config e fs (path_Join [db, ''router.yaml''])") auto
  show ?case
  proof (cases err)
    case (Some x)
    then have "x = ErrNotExist" "flist_routers e fs dbs a = ret (Inr (rs, a'))"
      using Cons.prems rc by (auto split: if_splits)
    then show ?thesis using Cons.IH rc Some by (simp add: has_config_def)
  next
    case None
    then obtain c where c: "conf = Some c" using Cons.prems rc by (cases conf) auto
    then obtain r a1 where r: "config_Router (ce_parse e) None a c = ret (Inr (r, a1))"
      "Option.bind (flist_routers e fs dbs a1) (\<lambda>rest. ret (map_sum id (\<lambda>(rs, a2). (r # rs, a2)) rest)) = ret (Inr (rs, a'))"
      using Cons.prems rc None by (auto simp: go_bind_result)
    then obtain x where x: "flist_routers e fs dbs a1 = ret x" "map_sum id (\<lambda>(rs, a2). (r # rs, a2)) x = Inr (rs, a')"
      by (auto simp: go_bind_eq_ret)
    then obtain rs' where rs: "flist_routers e fs dbs a1 = ret (Inr (rs', a'))" "rs = r # rs'"
      by (cases x) auto
    have "config_at e fs (path_Join [db, ''router.yaml'']) r"
      using rc c None r(1) unfolding config_at_def by blast
    then show ?thesis using Cons.IH [OF rs(1)] rs(2) rc None by (simp add: has_config_def)
  qed
qed simp

lemma all2_wf: "list_all2 (\<lambda>db r. config_at e fs (f db) r) dbs rs \<Longrightarrow> list_all router_wf rs"
  by (induction rule: list_all2_induct) (auto intro: config_at_wf)


text \<open>The routers behind the data store of a command line, in the order they are asked.\<close>

definition local_routers :: "('c, 'a) cmd_env \<Rightarrow> fsys \<Rightarrow> cmd \<Rightarrow> data_router list \<Rightarrow> bool" where
  "local_routers e fs c rs \<longleftrightarrow>
     (if cm_Router c = [] then rs = [] else \<exists>r. rs = [r] \<and> config_at e fs (cm_Router c) r)"

definition fallback_routers :: "('c, 'a) cmd_env \<Rightarrow> cmd \<Rightarrow> data_router list \<Rightarrow> bool" where
  "fallback_routers e c rs \<longleftrightarrow>
     (if cm_URL c = [] then rs = []
      else \<exists>r a a'. rs = [r] \<and> NewSimpleStorage (ce_parse e) a (cm_URL c) = ret (Inr (r, a')))"

definition yaml_routers :: "('c, 'a) cmd_env \<Rightarrow> fsys \<Rightarrow> cmd \<Rightarrow> data_router list \<Rightarrow> bool" where
  "yaml_routers e fs c rs \<longleftrightarrow>
     list_all2 (\<lambda>db r. config_at e fs (path_Join [db, ''router.yaml'']) r) (filter (has_config e fs) (cm_Meta c)) rs"

lemma fallback_wf: "fallback_routers e c rs \<Longrightarrow> list_all router_wf rs"
  by (auto simp: fallback_routers_def intro: simple_storage_wf split: if_splits)

lemma getDataStore_ok:
  assumes "getDataStore e fs dbs fb a = ret (Inr (m, a'))" "\<forall>f. fb = Some f \<longrightarrow> router_wf f"
  shows "\<exists>rs. list_all2 (\<lambda>db r. config_at e fs (path_Join [db, ''router.yaml'']) r) (filter (has_config e fs) dbs) rs \<and>
    Merge (map Some (rs @ (case fb of None \<Rightarrow> [] | Some f \<Rightarrow> [f]))) = ret m \<and>
    list_all router_wf (rs @ (case fb of None \<Rightarrow> [] | Some f \<Rightarrow> [f]))"
proof -
  obtain found where found: "flist_routers e fs dbs a = ret found"
    using assms(1) by (cases "flist_routers e fs dbs a") (simp_all add: getDataStore_def)
  then obtain rs a1 where rs: "flist_routers e fs dbs a = ret (Inr (rs, a1))"
    using assms(1) by (cases found) (auto simp: getDataStore_def)
  then have "Merge (map Some (rs @ (case fb of None \<Rightarrow> [] | Some f \<Rightarrow> [f]))) = ret m"
    using assms(1) by (cases fb) (auto simp: getDataStore_def go_bind_eq_ret)
  moreover note flist_routers_ok [OF rs]
  moreover have "list_all router_wf rs" using flist_routers_ok [OF rs] by (rule all2_wf)
  ultimately show ?thesis using assms(2) by (intro exI [of _ rs]) (auto split: option.split)
qed

text \<open>The router of the local file, when there is one, is asked first.\<close>

lemma layerLocalStore_ok:
  assumes "layerLocalStore e fs (cm_Router c) r a = ret (Inr (m, a'))" "router_wf r"
    and "\<forall>w. answer (router_get Get r key w) = ask_in_order Get qs key w"
  shows "router_wf m \<and> (\<exists>ls. local_routers e fs c ls \<and>
    (\<forall>w. answer (router_get Get m key w) = ask_in_order Get (ls @ qs) key w))"
proof (cases "cm_Router c = []")
  case True
  then have "m = r" "local_routers e fs c []" using assms(1) by (simp_all add: layerLocalStore_def local_routers_def)
  then show ?thesis using assms(2,3) by (intro conjI exI [of _ "[]"]) simp_all
next
  case False
  obtain conf err where rc: "read_config e fs (cm_Router c) = ret (conf, err)"
    using assms(1) False by (cases "read_config e fs (cm_Router c)") (auto simp: layerLocalStore_def)
  then obtain cf where cf: "err = None" "conf = Some cf"
    using assms(1) False by (auto simp: layerLocalStore_def split: option.splits)
  then obtain l a3 where l: "config_Router (ce_parse e) None a cf = ret (Inr (l, a3))"
    "Option.bind (Merge [Some l, Some r]) (\<lambda>m. ret (Inr (m, a3))) = (ret (Inr (m, a')) :: (rerr + data_router \<times> nat) go)"
    using assms(1) False rc by (auto simp: layerLocalStore_def go_bind_result)
  have at: "config_at e fs (cm_Router c) l" using rc cf l(1) unfolding config_at_def by blast
  have two: "Merge (map Some [l, r]) = ret m" using l(2) by (auto simp: go_bind_eq_ret)
  have wfs: "list_all router_wf [l, r]" using config_at_wf [OF at] assms(2) by simp
  have "answer (router_get Get m key w) = ask_in_order Get ([l] @ qs) key w" for w
    using merged_answer(1) [OF two wfs, of Get key w]
      ask_append_single [where ls = "[l]" and m = r and rs = qs and Get = Get and key = key] assms(3) by simp
  moreover have "local_routers e fs c [l]" using False at by (simp add: local_routers_def)
  ultimately show ?thesis using merged_answer(2) [OF two wfs] by blast
qed

lemma data_store_of_cmd_ok:
  assumes "data_store_of_cmd e fs c a = ret (Inr (m, a'))"
  shows "router_wf m \<and> (\<exists>ls rs fbs. local_routers e fs c ls \<and> yaml_routers e fs c rs \<and> fallback_routers e c fbs \<and>
    (\<forall>w. answer (router_get Get m key w) = ask_in_order Get (ls @ rs @ fbs) key w))"
proof -
  obtain f a1 where f: "(if length (cm_URL c) \<noteq> 0
              then map_option (map_sum id (map_prod Some id)) (NewSimpleStorage (ce_parse e) a (cm_URL c))
              else ret (Inr (None, a))) = ret (Inr (f, a1))"
    and rest: "Option.bind (getDataStore e fs (cm_Meta c) f a1)
        (\<lambda>merged. case merged of Inl x \<Rightarrow> ret (Inl x) | Inr (r, a2) \<Rightarrow> layerLocalStore e fs (cm_Router c) r a2) = ret (Inr (m, a'))"
    using assms by (auto simp: data_store_of_cmd_def go_bind_result)
  let ?fbs = "case f of None \<Rightarrow> [] | Some x \<Rightarrow> [x]"
  have fb: "fallback_routers e c ?fbs"
  proof (cases "cm_URL c = []")
    case True
    then show ?thesis using f by (auto simp: fallback_routers_def)
  next
    case False
    then obtain x where x: "NewSimpleStorage (ce_parse e) a (cm_URL c) = ret x" "map_sum id (map_prod Some id) x = Inr (f, a1)"
      using f by auto
    then show ?thesis using False by (cases x) (fastforce simp: fallback_routers_def)+
  qed
  have wf: "\<forall>x. f = Some x \<longrightarrow> router_wf x" using fallback_wf [OF fb] by auto
  obtain r a2 where r: "getDataStore e fs (cm_Meta c) f a1 = ret (Inr (r, a2))"
    "layerLocalStore e fs (cm_Router c) r a2 = ret (Inr (m, a'))"
    using rest by (auto simp: go_bind_result)
  obtain rs where rs: "yaml_routers e fs c rs" "Merge (map Some (rs @ ?fbs)) = ret r" "list_all router_wf (rs @ ?fbs)"
    using getDataStore_ok [OF r(1) wf] by (auto simp: yaml_routers_def)
  note merged = merged_answer(1) [where Get = Get and key = key, OF rs(2,3)] merged_answer(2) [OF rs(2,3)]
  have "\<forall>w. answer (router_get Get r key w) = ask_in_order Get (rs @ ?fbs) key w" using merged(1) by blast
  from layerLocalStore_ok [OF r(2) merged(2) this] show ?thesis using rs(1) fb by blast
qed

section \<open>Properties\<close>


definition demo_cmd :: cmd where
  "demo_cmd = \<lparr>cm_Meta = [''a''], cm_Backend = ''/b'', cm_Cache = [], cm_URL = ''zdb://hub:9900'', cm_Router = [],
     cm_Reset = False, cm_Debug = False, cm_Daemon = False, cm_PidPath = [], cm_LogPath = [], cm_ReadOnly = False\<rparr>"

text \<open>An unpacked flist \<open>a\<close> with a router of its own.\<close>

definition demo_cmd_env :: "((string \<times> meta) list, (string \<times> np_aci) list) cmd_env" where
  "demo_cmd_env = \<lparr>ce_faults = no_faults, ce_untar = (\<lambda>_. Inl ''no archive''), ce_flist = (\<lambda>_ _. Inr SqlStore.demo_env),
     ce_dirs = [], ce_acis = [], ce_parse = plain_url, ce_yaml = (\<lambda>_. Inr demo_config)\<rparr>"

definition demo_flist_fs :: fsys where
  "demo_flist_fs = \<lparr>fy_dirs = [''a''], fy_names = [''a/router.yaml'' \<mapsto> 0], fy_data = (\<lambda>_. [1]), fy_next = 1\<rparr>"

lemma demo_stores:
  "(case getStoresFromCmd (sql_ops id) demo_cmd_env demo_cmd 0 demo_flist_fs of
      Some (_, Inr (_, m, _), _) \<Rightarrow> rt_lookup m | _ \<Rightarrow> []) = [''0.local'', ''0.hub'', ''1.simple'']"
  by code_simp


text \<open>Without a fallback and without a \<open>router.yaml\<close> the assembly panics.\<close>

lemma no_router_panics:
  assumes "cm_URL c = []" "filter (has_config e fs) (cm_Meta c) = []" "flist_routers e fs (cm_Meta c) a = ret (Inr (rs, a'))"
  shows "data_store_of_cmd e fs c a = panic"
proof -
  have "rs = []" using flist_routers_ok [OF assms(3)] assms(2) by simp
  then show ?thesis using assms by (simp add: data_store_of_cmd_def getDataStore_def Merge_def)
qed

text \<open>A command line without metadata passes the check.\<close>

lemma Validate_accepts: "Validate c = []"
  by (simp add: Validate_def)

end
