(* ===== verification/Mounts.thy ===== *)
theory Mounts
  imports Stores
begin

text \<open>
  Mounting and unmounting: g8ufs.go, version.go, and the process around it, cmd/mount.go. The kernel
  is its list of mount points, the newest first, and the files; \<open>mount_faults\<close> says which calls of
  FUSE, the kernel and the \<open>mountpoint\<close> command fail. The data storage enters the model as the
  download function of theory Caches. A panic is a result of its own, so that the state it leaves
  behind can be described.
\<close>

section \<open>Mount points\<close>

record kernel =
  kn_mounts :: "string list"
  kn_fs :: fsys

datatype run_result = RunOk | RunExit | RunErr string

record mount_faults =
  mf_fs :: os_faults
  mf_server :: "string \<Rightarrow> string option"      \<comment> \<open>\<open>fuse.NewServer\<close>, which mounts\<close>
  mf_wait :: "string \<Rightarrow> string option"        \<comment> \<open>\<open>server.WaitMount\<close>\<close>
  mf_stat :: "oserr option"
  mf_chmod :: "oserr option"
  mf_overlay :: "string option"
  mf_unmount :: "string \<Rightarrow> string option"
  mf_point :: "nat \<Rightarrow> run_result"             \<comment> \<open>the runs of \<open>mountpoint -q\<close>\<close>

definition Mountpoint :: "run_result \<Rightarrow> bool \<times> string option" where
  "Mountpoint r = (case r of RunOk \<Rightarrow> (True, None) | RunExit \<Rightarrow> (False, None) | RunErr m \<Rightarrow> (False, Some m))"

definition sys_unmount :: "mount_faults \<Rightarrow> string \<Rightarrow> kernel \<Rightarrow> string option \<times> kernel" where
  "sys_unmount mf p k =
     (case mf_unmount mf p of
        Some m \<Rightarrow> (Some m, k)
      | None \<Rightarrow>
          (if p \<in> set (kn_mounts k) then (None, k\<lparr>kn_mounts := remove1 p (kn_mounts k)\<rparr>)
           else (Some ''invalid argument'', k)))"

section \<open>The mounted filesystem\<close>

record 'm g8ufs =
  g_config :: "'m rofs"
  g_layers :: "string list"
  g_watching :: bool              \<comment> \<open>the wait group counts the watcher\<close>

fun unmount_layers :: "mount_faults \<Rightarrow> string list \<Rightarrow> kernel \<Rightarrow> string list \<times> kernel" where
  "unmount_layers mf [] k = ([], k)"
| "unmount_layers mf (l # ls) k =
     (let (err, k1) = sys_unmount mf l k;
          (errs, k2) = unmount_layers mf ls k1
      in ((case err of None \<Rightarrow> errs | Some e \<Rightarrow> e # errs), k2))"

definition Unmount :: "mount_faults \<Rightarrow> 'm g8ufs \<Rightarrow> kernel \<Rightarrow> string list option \<times> kernel" where
  "Unmount mf g k =
     (let (errs, k') = unmount_layers mf (rev (g_layers g)) k
      in ((if length errs = 0 then None else Some errs), k'))"

text \<open>The error of \<open>Unmount\<close> as text: \<open>fmt.Sprint\<close> puts a space between operands that are not strings.\<close>

fun unmount_Error :: "string list \<Rightarrow> string" where
  "unmount_Error [] = []"
| "unmount_Error [e] = e"
| "unmount_Error (e # es) = e @ '' '' @ unmount_Error es"

text \<open>The goroutine that watches the layer mounted last. \<open>watch_call\<close> says which of its system calls
  decides; the result is what it logs before it releases the wait group.\<close>

datatype watch_call =
    NoInotify string           \<comment> \<open>\<open>unix.InotifyInit\<close> fails\<close>
  | NoWatch string             \<comment> \<open>\<open>unix.InotifyAddWatch\<close> fails\<close>
  | ReadFails string
  | Unmounted                  \<comment> \<open>the event that the layer is gone\<close>

definition watch :: "watch_call \<Rightarrow> 'm g8ufs \<Rightarrow> string option go" where
  "watch w g =
     (case w of
        NoInotify m \<Rightarrow> panic
      | _ \<Rightarrow>
          (if length (g_layers g) = 0 then panic
           else
             case w of
               NoWatch m \<Rightarrow> panic
             | ReadFails m \<Rightarrow> ret (Some (''failed watching target: '' @ m))
             | _ \<Rightarrow> ret None))"

text \<open>\<open>Wait\<close> once the watcher has released the wait group: the errors of unmounting are only logged.\<close>

definition Wait :: "mount_faults \<Rightarrow> 'm g8ufs \<Rightarrow> kernel \<Rightarrow> string list option \<times> kernel" where
  "Wait mf g k = (None, snd (Unmount mf g k))"

record 'm options =
  op_Name :: string
  op_Backend :: string
  op_Cache :: string
  op_Target :: string
  op_Store :: "'m layer"
  op_Reset :: bool
  op_ReadOnly :: bool

datatype mount_err =
    MountDir string oserr      \<comment> \<open>a directory cannot be made\<close>
  | MountFuse string
  | MountChmod oserr
  | MountOverlay string
  | MountPoint string          \<comment> \<open>the command \<open>mountpoint\<close> cannot be run\<close>
  | MountTimeout

datatype 'm mount_result = Mounted "'m g8ufs" | MountFailed mount_err | MountPanic

definition mountRO ::
  "mount_faults \<Rightarrow> string \<Rightarrow> string \<Rightarrow> 'm layer \<Rightarrow> string \<Rightarrow> kernel \<Rightarrow> (string + 'm g8ufs) \<times> kernel" where
  "mountRO mf name target store cache k =
     (let cfg = rofs_NewConfig store cache
      in case mf_server mf target of
           Some m \<Rightarrow> (Inl m, k)
         | None \<Rightarrow>
             (let k1 = k\<lparr>kn_mounts := target # kn_mounts k\<rparr>
              in case mf_wait mf target of
                   Some m \<Rightarrow> (Inl m, k1)
                 | None \<Rightarrow> (Inr \<lparr>g_config = cfg, g_layers = [target], g_watching = False\<rparr>, k1)))"

definition os_remove_all :: "string \<Rightarrow> fsys \<Rightarrow> fsys" where
  "os_remove_all p fs =
     (let inside = (\<lambda>n. n = p \<or> take (Suc (length p)) n = p @ ''/'')
      in fs\<lparr>fy_names := (\<lambda>n. if inside n then None else fy_names fs n),
            fy_dirs := filter (\<lambda>n. \<not> inside n) (fy_dirs fs)\<rparr>)"

text \<open>\<open>os.MkdirAll\<close> with the test that lets an existing directory pass.\<close>

definition prepare_dir :: "mount_faults \<Rightarrow> string \<Rightarrow> kernel \<Rightarrow> oserr option \<times> kernel" where
  "prepare_dir mf p k =
     (case os_mkdir_all (mf_fs mf) p (kn_fs k) of
        (err, fs) \<Rightarrow> ((case err of None \<Rightarrow> None | Some e \<Rightarrow> if e = OsErr ''file exists'' then None else Some e), k\<lparr>kn_fs := fs\<rparr>))"

fun prepare_dirs :: "mount_faults \<Rightarrow> string list \<Rightarrow> kernel \<Rightarrow> mount_err option \<times> kernel" where
  "prepare_dirs mf [] k = (None, k)"
| "prepare_dirs mf (p # ps) k =
     (case prepare_dir mf p k of
        (Some e, k1) \<Rightarrow> (Some (MountDir p e), k1)
      | (None, k1) \<Rightarrow> prepare_dirs mf ps k1)"

fun wait_mounted :: "mount_faults \<Rightarrow> nat \<Rightarrow> nat \<Rightarrow> string + bool" where
  "wait_mounted mf i 0 = Inr False"
| "wait_mounted mf i (Suc n) =
     (case Mountpoint (mf_point mf i) of
        (mounted, Some err) \<Rightarrow> Inl err
      | (mounted, None) \<Rightarrow> if mounted then Inr True else wait_mounted mf (Suc i) n)"

text \<open>The deferred function of \<open>Mount\<close>: unmount on an error, start the watcher otherwise.\<close>

definition mount_failed :: "mount_faults \<Rightarrow> 'm g8ufs \<Rightarrow> mount_err \<Rightarrow> kernel \<Rightarrow> 'm mount_result \<times> kernel" where
  "mount_failed mf g err k = (MountFailed err, snd (Unmount mf g k))"

definition mount_done :: "'m g8ufs \<Rightarrow> kernel \<Rightarrow> 'm mount_result \<times> kernel" where
  "mount_done g k = (Mounted (g\<lparr>g_watching := True\<rparr>), k)"

text \<open>The part of \<open>Mount\<close> behind the read-only layer. When \<open>os.Chmod\<close> fails, \<open>return nil, err\<close> makes
  the deferred function call \<open>Unmount\<close> on nil.\<close>

definition mount_overlay :: "mount_faults \<Rightarrow> 'm options \<Rightarrow> string \<Rightarrow> 'm g8ufs \<Rightarrow> kernel \<Rightarrow> 'm mount_result \<times> kernel" where
  "mount_overlay mf opt ro g k =
     (let rw = path_Join [op_Backend opt, ''rw''];
          wd = path_Join [op_Backend opt, ''wd'']
      in case prepare_dirs mf [rw, wd] k of
           (Some err, k1) \<Rightarrow> mount_failed mf g err k1
         | (None, k1) \<Rightarrow>
             (if mf_stat mf = None \<and> mf_chmod mf \<noteq> None then (MountPanic, k1)
              else
                case mf_overlay mf of
                  Some m \<Rightarrow> mount_failed mf g (MountOverlay m) k1
                | None \<Rightarrow>
                    (let k2 = k1\<lparr>kn_mounts := op_Target opt # kn_mounts k1\<rparr>;
                         g2 = g\<lparr>g_layers := g_layers g @ [op_Target opt]\<rparr>
                     in case wait_mounted mf 0 5 of
                          Inl m \<Rightarrow> mount_failed mf g2 (MountPoint m) k2
                        | Inr mounted \<Rightarrow>
                            (if \<not> mounted then mount_failed mf g2 MountTimeout k2 else mount_done g2 k2))))"

definition Mount :: "mount_faults \<Rightarrow> 'm options \<Rightarrow> kernel \<Rightarrow> 'm mount_result \<times> kernel" where
  "Mount mf opt k =
     (let backend = op_Backend opt;
          k0 = (if op_Reset opt then k\<lparr>kn_fs := os_remove_all backend (kn_fs k)\<rparr> else k);
          ca = (if op_Cache opt \<noteq> [] then op_Cache opt else path_Join [backend, ''ca''])
      in case prepare_dir mf ca k0 of
           (Some e, k1) \<Rightarrow> (MountFailed (MountDir ca e), k1)
         | (None, k1) \<Rightarrow>
             (let ro = (if op_ReadOnly opt then op_Target opt else path_Join [backend, ''ro'']);
                  name = (if op_Name opt = [] then ''g8ufs'' else op_Name opt)
              in case prepare_dir mf ro k1 of
                   (Some e, k2) \<Rightarrow> (MountFailed (MountDir ro e), k2)
                 | (None, k2) \<Rightarrow>
                     (case mountRO mf name ro (op_Store opt) ca k2 of
                        (Inl m, k3) \<Rightarrow> (MountFailed (MountFuse m), k3)
                      | (Inr g, k3) \<Rightarrow>
                          (if op_ReadOnly opt then mount_done g k3 else mount_overlay mf opt ro g k3))))"

section \<open>The version\<close>

definition version_String :: "string \<Rightarrow> string \<Rightarrow> string \<Rightarrow> string" where
  "version_String branch revision dirty =
     (let s = [CHR 0x27] @ branch @ [CHR 0x27] @ '' @Revision: '' @ revision
      in if dirty \<noteq> [] then s @ '' (dirty-repo)'' else s)"


section \<open>The process\<close>

text \<open>The parent of a daemon waits for the mount; the child is killed when it does not come.\<close>

definition parent_wait :: "mount_faults \<Rightarrow> string option" where
  "parent_wait mf =
     (case wait_mounted mf 0 5 of
        Inl err \<Rightarrow> Some err
      | Inr mounted \<Rightarrow> if \<not> mounted then Some ''fuse mount did not start on time'' else None)"

datatype start_err = SStores cmd_err | SMount mount_err | SReadFile oserr

text \<open>\<open>start\<close>. The metadata store is never nil: it comes from \<open>Layered\<close>.\<close>

definition mount_options :: "cmd \<Rightarrow> string \<Rightarrow> string \<Rightarrow> 'm layer \<Rightarrow> 'm options" where
  "mount_options c name mnt store =
     \<lparr>op_Name = name, op_Backend = cm_Backend c, op_Cache = cm_Cache c, op_Target = mnt, op_Store = store,
      op_Reset = cm_Reset c, op_ReadOnly = cm_ReadOnly c\<rparr>"

definition start ::
  "('c, 'a) entry meta_ops \<Rightarrow> ('c, 'a) cmd_env \<Rightarrow> mount_faults \<Rightarrow> cmd \<Rightarrow> string \<Rightarrow> string \<Rightarrow> kernel
    \<Rightarrow> ((start_err + ('c, 'a) entry mount_result) \<times> cmd \<times> kernel) go" where
  "start ops e mf c name mnt k =
     do {
       (c1, stores, fs) \<leftarrow> getStoresFromCmd ops e c 0 (kn_fs k);
       let k1 = k\<lparr>kn_fs := fs\<rparr>
       in case stores of
            Inl err \<Rightarrow> ret (Inl (SStores err), c1, k1)
          | Inr (meta, data, a) \<Rightarrow>
              (case meta of
                 None \<Rightarrow> panic
               | Some store \<Rightarrow>
                   (case Mount mf (mount_options c1 name mnt store) k1 of
                      (MountPanic, k2) \<Rightarrow> panic
                    | (MountFailed err, k2) \<Rightarrow> ret (Inl (SMount err), c1, k2)
                    | (r, k2) \<Rightarrow> ret (Inr r, c1, k2)))
     }"

definition bytes_string :: "bytes \<Rightarrow> string" where
  "bytes_string = map (\<lambda>b. char_of (unat b))"

definition ReadFile :: "os_faults \<Rightarrow> fsys \<Rightarrow> string \<Rightarrow> oserr + bytes" where
  "ReadFile fl fs name =
     (case fl_open fl name of
        Some err \<Rightarrow> Inl err
      | None \<Rightarrow>
          (if is_dir fs name then Inl IsDirectory
           else case fs_file fs name of None \<Rightarrow> Inl NotExist | Some content \<Rightarrow> Inr content))"

definition layered_file :: "cmd \<Rightarrow> string" where
  "layered_file c = path_Join [cm_Backend c, ''.layered'']"

definition reload ::
  "('c, 'a) entry meta_ops \<Rightarrow> ('c, 'a) cmd_env \<Rightarrow> ('c, 'a) entry g8ufs \<Rightarrow> cmd \<Rightarrow> fsys
    \<Rightarrow> (start_err option \<times> ('c, 'a) entry g8ufs \<times> cmd \<times> fsys) go" where
  "reload ops e g c fs =
     (case ReadFile (ce_faults e) fs (layered_file c) of
        Inl err \<Rightarrow> if err = NotExist then ret (None, g, c, fs) else ret (Some (SReadFile err), g, c, fs)
      | Inr content \<Rightarrow>
          (let extra = split_on (CHR 0x0A) (bytes_string content)
           in case getMetaStore ops e extra fs of
                ((extra', Inl err), fs1) \<Rightarrow> ret (Some (SStores err), g, c, fs1)
              | ((extra', Inr extraMeta), fs1) \<Rightarrow>
                  do {
                    (c1, stores, fs2) \<leftarrow> getStoresFromCmd ops e c 0 fs1;
                    case stores of
                      Inl err \<Rightarrow> ret (Some (SStores err), g, c1, fs2)
                    | Inr (metaStore, data, a) \<Rightarrow>
                        (case Layered ops [metaStore, extraMeta] of
                           None \<Rightarrow> panic
                         | Some store \<Rightarrow> ret (None, g\<lparr>g_config := SetMetaStore store (g_config g)\<rparr>, c1, fs2))
                  }))"

text \<open>The loop of \<open>mount\<close> over the events it is woken by; \<open>None\<close> while it waits for the next one.
  The error of a reload is only logged.\<close>

datatype event = Exit "string list option" | SigTerm | SigInt | SigHup

fun serve_loop ::
  "('c, 'a) entry meta_ops \<Rightarrow> ('c, 'a) cmd_env \<Rightarrow> mount_faults \<Rightarrow> event list \<Rightarrow> ('c, 'a) entry g8ufs \<Rightarrow> cmd \<Rightarrow> kernel
    \<Rightarrow> (string list option option \<times> ('c, 'a) entry g8ufs \<times> cmd \<times> kernel) go" where
  "serve_loop ops e mf [] g c k = ret (None, g, c, k)"
| "serve_loop ops e mf (ev # evs) g c k =
     (case ev of
        Exit err \<Rightarrow> ret (Some err, g, c, k)
      | SigTerm \<Rightarrow> (case Unmount mf g k of (err, k1) \<Rightarrow> ret (Some err, g, c, k1))
      | SigInt \<Rightarrow> (case Unmount mf g k of (err, k1) \<Rightarrow> ret (Some err, g, c, k1))
      | SigHup \<Rightarrow>
          do {
            (err, g1, c1, fs1) \<leftarrow> reload ops e g c (kn_fs k);
            serve_loop ops e mf evs g1 c1 (k\<lparr>kn_fs := fs1\<rparr>)
          })"

section \<open>Unmounting what was mounted\<close>

definition unmounts :: "mount_faults \<Rightarrow> bool" where
  "unmounts mf \<longleftrightarrow> (\<forall>p. mf_unmount mf p = None)"

lemma unmount_layers_ok:
  "unmounts mf \<Longrightarrow> kn_mounts k = ls @ rest \<Longrightarrow> unmount_layers mf ls k = ([], k\<lparr>kn_mounts := rest\<rparr>)"
proof (induction ls arbitrary: k)
  case (Cons l ls)
  then have "sys_unmount mf l k = (None, k\<lparr>kn_mounts := ls @ rest\<rparr>)" by (simp add: sys_unmount_def unmounts_def)
  then show ?case using Cons.IH [of "k\<lparr>kn_mounts := ls @ rest\<rparr>"] Cons.prems by simp
qed simp

lemma Unmount_ok:
  assumes "unmounts mf" "kn_mounts k = rev (g_layers g) @ rest"
  shows "Unmount mf g k = (None, k\<lparr>kn_mounts := rest\<rparr>)"
  using unmount_layers_ok [OF assms] by (simp add: Unmount_def)

lemma prepare_dir_mounts: "prepare_dir mf p k = (r, k') \<Longrightarrow> kn_mounts k' = kn_mounts k"
  by (auto simp: prepare_dir_def split: prod.splits)

lemma prepare_dirs_mounts: "prepare_dirs mf ps k = (r, k') \<Longrightarrow> kn_mounts k' = kn_mounts k"
proof (induction ps arbitrary: k)
  case (Cons p ps)
  obtain r1 k1 where "prepare_dir mf p k = (r1, k1)" by fastforce
  then show ?case using Cons prepare_dir_mounts [of mf p k r1 k1] by (auto split: option.splits)
qed simp

text \<open>The three ways \<open>Mount\<close> can end.\<close>

definition mount_end :: "mount_faults \<Rightarrow> 'm options \<Rightarrow> kernel \<Rightarrow> 'm mount_result \<times> kernel \<Rightarrow> bool" where
  "mount_end mf opt k x \<longleftrightarrow>
     (case fst x of
        Mounted g \<Rightarrow> g_watching g \<and> kn_mounts (snd x) = rev (g_layers g) @ kn_mounts k \<and> last (g_layers g) = op_Target opt \<and>
          (\<exists>k'. Unmount mf g (snd x) = (None, k') \<and> kn_mounts k' = kn_mounts k)
      | MountFailed e \<Rightarrow> kn_mounts (snd x) = kn_mounts k
      | MountPanic \<Rightarrow> mf_chmod mf \<noteq> None \<and> \<not> op_ReadOnly opt \<and>
          kn_mounts (snd x) = path_Join [op_Backend opt, ''ro''] # kn_mounts k)"

lemma mount_done_end:
  assumes "unmounts mf" "kn_mounts k1 = rev (g_layers g) @ kn_mounts k" "last (g_layers g) = op_Target opt"
  shows "mount_end mf opt k (mount_done g k1)"
  using assms Unmount_ok [OF assms(1), of k1 "g\<lparr>g_watching := True\<rparr>" "kn_mounts k"]
  by (simp add: mount_end_def mount_done_def)

lemma mount_failed_end:
  assumes "unmounts mf" "kn_mounts k1 = rev (g_layers g) @ kn_mounts k"
  shows "mount_end mf opt k (mount_failed mf g err k1)"
  using Unmount_ok [OF assms] by (simp add: mount_end_def mount_failed_def)

lemma mount_overlay_end:
  assumes "unmounts mf" "\<not> op_ReadOnly opt" "ro = path_Join [op_Backend opt, ''ro'']"
    and "kn_mounts k1 = ro # kn_mounts k" "g_layers g = [ro]"
  shows "mount_end mf opt k (mount_overlay mf opt ro g k1)"
proof -
  obtain r k2 where d: "prepare_dirs mf [path_Join [op_Backend opt, ''rw''], path_Join [op_Backend opt, ''wd'']] k1 = (r, k2)"
    by fastforce
  have m: "kn_mounts k2 = ro # kn_mounts k" using prepare_dirs_mounts [OF d] assms(4) by simp
  have one: "kn_mounts k2 = rev (g_layers g) @ kn_mounts k" using m assms(5) by simp
  let ?k3 = "k2\<lparr>kn_mounts := op_Target opt # kn_mounts k2\<rparr>" and ?g = "g\<lparr>g_layers := g_layers g @ [op_Target opt]\<rparr>"
  have two: "kn_mounts ?k3 = rev (g_layers ?g) @ kn_mounts k" using m assms(5) by simp
  show ?thesis
  proof (cases r)
    case (Some err)
    then show ?thesis using mount_failed_end [OF assms(1) one] d by (simp add: mount_overlay_def Let_def)
  next
    case None
    show ?thesis
    proof (cases "mf_stat mf = None \<and> mf_chmod mf \<noteq> None")
      case True
      then show ?thesis using None d m assms(2,3) by (simp add: mount_overlay_def Let_def mount_end_def)
    next
      case False
      note d' = d [unfolded None]
      show ?thesis
      proof (cases "mf_overlay mf")
        case (Some m)
        then show ?thesis using mount_failed_end [OF assms(1) one] d' False by (auto simp: mount_overlay_def Let_def)
      next
        case none: None
        show ?thesis
        proof (cases "wait_mounted mf 0 5")
          case (Inl m)
          then show ?thesis using mount_failed_end [OF assms(1) two] d' False none by (auto simp: mount_overlay_def Let_def)
        next
          case (Inr b)
          have "mount_end mf opt k (mount_done ?g ?k3)" using mount_done_end [OF assms(1) two] by simp
          then show ?thesis using mount_failed_end [OF assms(1) two, of opt MountTimeout] d' False none Inr
            by (cases b) (auto simp: mount_overlay_def Let_def)
        qed
      qed
    qed
  qed
qed

lemma Mount_end:
  assumes "unmounts mf" "\<forall>p. mf_wait mf p = None"
  shows "mount_end mf opt k (Mount mf opt k)"
proof -
  let ?k0 = "if op_Reset opt then k\<lparr>kn_fs := os_remove_all (op_Backend opt) (kn_fs k)\<rparr> else k"
  let ?ca = "if op_Cache opt \<noteq> [] then op_Cache opt else path_Join [op_Backend opt, ''ca'']"
  let ?ro = "if op_ReadOnly opt then op_Target opt else path_Join [op_Backend opt, ''ro'']"
  let ?name = "if op_Name opt = [] then ''g8ufs'' else op_Name opt"
  obtain r1 k1 where 1: "prepare_dir mf ?ca ?k0 = (r1, k1)" by fastforce
  obtain r2 k2 where 2: "prepare_dir mf ?ro k1 = (r2, k2)" by fastforce
  have m: "kn_mounts k1 = kn_mounts k" "kn_mounts k2 = kn_mounts k"
    using prepare_dir_mounts [OF 1] prepare_dir_mounts [OF 2] by simp_all
  show ?thesis
  proof (cases "r1 = None \<and> r2 = None")
    case False
    then show ?thesis using 1 2 m by (auto simp: Mount_def Let_def mount_end_def split: option.split)
  next
    case True
    obtain x k3 where 3: "mountRO mf ?name ?ro (op_Store opt) ?ca k2 = (x, k3)" by fastforce
    have M: "Mount mf opt k =
        (case x of Inl m \<Rightarrow> (MountFailed (MountFuse m), k3)
         | Inr g \<Rightarrow> (if op_ReadOnly opt then mount_done g k3 else mount_overlay mf opt ?ro g k3))"
      unfolding Mount_def Let_def 1 using True 2 3 by simp
    show ?thesis
    proof (cases x)
      case (Inl m')
      then have "kn_mounts k3 = kn_mounts k" using 3 assms(2) m by (auto simp: mountRO_def Let_def split: option.splits)
      then show ?thesis unfolding M using Inl by (simp add: mount_end_def)
    next
      case (Inr g)
      then have g: "g_layers g = [?ro]" "kn_mounts k3 = ?ro # kn_mounts k"
        using 3 m by (auto simp: mountRO_def Let_def split: option.splits)
      show ?thesis
      proof (cases "op_ReadOnly opt")
        case True
        then show ?thesis unfolding M using Inr mount_done_end [OF assms(1), of k3 g k opt] g by simp
      next
        case False
        then show ?thesis unfolding M using Inr mount_overlay_end [OF assms(1) False _ _ _, of ?ro k3 k g] g by simp
      qed
    qed
  qed
qed


text \<open>What is mounted is the store of the options, over the cache directory they ask for.\<close>

lemma mount_overlay_config:
  "mount_overlay mf opt ro g k = (Mounted g', k') \<Longrightarrow> g_config g' = g_config g"
  by (auto simp: mount_overlay_def mount_failed_def mount_done_def Let_def split: prod.splits option.splits sum.splits if_splits)

lemma Mount_config:
  assumes "Mount mf opt k = (Mounted g, k')"
  shows "g_config g = rofs_NewConfig (op_Store opt) (if op_Cache opt \<noteq> [] then op_Cache opt else path_Join [op_Backend opt, ''ca''])"
  using assms
  by (auto simp: Mount_def mountRO_def mount_done_def Let_def dest!: mount_overlay_config
      split: prod.splits option.splits sum.splits if_splits)

text \<open>When the FUSE server was started and waiting for it fails, its mount stays.\<close>

lemma wait_failure_stays:
  assumes "mf_server mf mnt = None" "mf_wait mf mnt = Some m"
  shows "mountRO mf name mnt store cache k = (Inl m, k\<lparr>kn_mounts := mnt # kn_mounts k\<rparr>)"
  using assms by (simp add: mountRO_def)

section \<open>The stores behind a reload\<close>

text \<open>However many stores, \<open>Layered\<close> serves what their stack does.\<close>

lemma stores_Get_one: "stores_Get ops [s] = s"
  by (rule ext) (auto split: option.split bind_split)

lemma Layered_stack: "Layered ops (map Some ss) = Some (stores_Get ops (rev ss))"
proof (cases ss)
  case (Cons s ss')
  then show ?thesis
    by (cases ss') (auto simp: Layered_def stores_Get_one List.map_filter_def rev_map [symmetric] comp_def)
qed (simp add: Layered_def)

lemma Layered_two: "Layered ops [Some b, Some e] = Some (stores_Get ops [e, b])"
  using Layered_stack [of ops "[b, e]"] by simp

text \<open>The stores that \<open>getMetaStore\<close> opens for a list of databases.\<close>

definition opened_stores ::
  "('c, 'a) cmd_env \<Rightarrow> string list \<Rightarrow> fsys \<Rightarrow> ('c, 'a) entry layer list \<Rightarrow> bool" where
  "opened_stores e dbs fs ss \<longleftrightarrow> (\<exists>dbs' fs'. open_stores e dbs fs = ((dbs', Inr ss), fs'))"

text \<open>Every store that is opened is a flist, read from a database of the list as it stands afterwards.\<close>

definition opened_as :: "('c, 'a) cmd_env \<Rightarrow> string \<Rightarrow> ('c, 'a) env \<Rightarrow> bool" where
  "opened_as e db ev \<longleftrightarrow> (\<exists>fs. ce_flist e fs (''file:'' @ path_Join [db, SQLiteDBName] @ ''?mode=ro'') = Inr ev)"

lemma open_stores_flists:
  assumes "open_stores e dbs fs = ((dbs', Inr ss), fs')"
  shows "\<exists>evs. ss = map sql_layer evs \<and> list_all2 (opened_as e) (filter (\<lambda>db. db \<noteq> []) dbs') evs"
  using assms
proof (induction dbs arbitrary: fs dbs' ss)
  case (Cons db dbs)
  show ?case
  proof (cases "db = []")
    case True
    then obtain dbs1 where "open_stores e dbs fs = ((dbs1, Inr ss), fs')" "dbs' = [] # dbs1"
      using Cons.prems by (auto split: prod.splits)
    then show ?thesis using Cons.IH by auto
  next
    case False
    obtain db1 err fs1 where g: "getDB e db fs = ((db1, err), fs1)" by (metis prod.collapse)
    then have "err = None" using Cons.prems False by (cases err) auto
    then obtain store where st: "open_store e fs1 db1 = Inr store"
      using Cons.prems False g by (cases "open_store e fs1 db1") auto
    then obtain dbs1 r where r: "open_stores e dbs fs1 = ((dbs1, r), fs')" "dbs' = db1 # dbs1"
      "map_sum id (\<lambda>stores. store # stores) r = Inr ss"
      using Cons.prems False g \<open>err = None\<close> by (auto split: prod.splits)
    then obtain ss1 where ss1: "r = Inr ss1" "ss = store # ss1" by (cases r) auto
    obtain evs where evs: "ss1 = map sql_layer evs" "list_all2 (opened_as e) (filter (\<lambda>db. db \<noteq> []) dbs1) evs"
      using Cons.IH r(1) ss1(1) by blast
    obtain ev where ev: "ce_flist e fs1 (''file:'' @ path_Join [db1, SQLiteDBName] @ ''?mode=ro'') = Inr ev" "store = sql_layer ev"
      using st by (auto simp: open_store_def NewStore_def split: sum.splits)
    have "db1 \<noteq> []" using g False by (auto simp: getDB_def Let_def split: option.splits if_splits prod.splits)
    then have "ss = map sql_layer (ev # evs) \<and> list_all2 (opened_as e) (filter (\<lambda>db. db \<noteq> []) dbs') (ev # evs)"
      using ev evs ss1(2) r(2) by (auto simp: opened_as_def)
    then show ?thesis by blast
  qed
qed simp

lemma getMetaStore_ok:
  assumes "getMetaStore ops e dbs fs = ((dbs', Inr m), fs')"
  shows "\<exists>ss. opened_stores e dbs fs ss \<and> m = Some (stores_Get ops (rev ss))"
proof -
  obtain r where "open_stores e dbs fs = ((dbs', r), fs')" "map_sum id (\<lambda>ss. Layered ops (map Some ss)) r = Inr m"
    using assms by (auto simp: getMetaStore_def split: prod.splits)
  then show ?thesis by (cases r) (auto simp: Layered_stack opened_stores_def)
qed

lemma getStoresFromCmd_meta:
  assumes "getStoresFromCmd ops e c a fs = ret (c', Inr (meta, m, a'), fs')"
  shows "\<exists>ss. opened_stores e (cm_Meta c) fs ss \<and> meta = Some (stores_Get ops (rev ss))"
proof -
  obtain dbs x fs1 where g: "getMetaStore ops e (cm_Meta c) fs = ((dbs, x), fs1)" by (metis prod.collapse)
  then obtain y where y: "x = Inr y" using assms by (cases x) (simp_all add: getStoresFromCmd_def)
  obtain z where "(case z of Inl x \<Rightarrow> Inl (CeRouter x) | Inr (r, a1) \<Rightarrow> Inr (y, r, a1)) = (Inr (meta, m, a') :: cmd_err + _)"
    using assms g y by (auto simp: getStoresFromCmd_def Let_def go_bind_eq_ret)
  then have "meta = y" by (cases z) auto
  then show ?thesis using getMetaStore_ok g y by blast
qed

lemma reload_stores:
  assumes "reload ops e g c fs = ret (None, g', c', fs')" "ReadFile (ce_faults e) fs (layered_file c) = Inr content"
  shows "\<exists>xs bs fs1. opened_stores e (split_on (CHR 0x0A) (bytes_string content)) fs xs \<and> opened_stores e (cm_Meta c) fs1 bs \<and>
    g' = g\<lparr>g_config := SetMetaStore (stores_Get ops [stores_Get ops (rev xs), stores_Get ops (rev bs)]) (g_config g)\<rparr>"
proof -
  obtain extra' x fs1 where x: "getMetaStore ops e (split_on (CHR 0x0A) (bytes_string content)) fs = ((extra', x), fs1)"
    by (metis prod.collapse)
  then obtain xm where xm: "x = Inr xm" using assms by (cases x) (simp_all add: reload_def Let_def)
  obtain c1 y fs2 where y: "getStoresFromCmd ops e c 0 fs1 = ret (c1, y, fs2)"
    using assms x xm by (cases "getStoresFromCmd ops e c 0 fs1") (auto simp: reload_def Let_def)
  then obtain bm m a where bm: "y = Inr (bm, m, a)"
    using assms x xm by (cases y) (auto simp: reload_def Let_def)
  obtain xs where xs: "opened_stores e (split_on (CHR 0x0A) (bytes_string content)) fs xs" "xm = Some (stores_Get ops (rev xs))"
    using getMetaStore_ok x xm by blast
  obtain bs where bs: "opened_stores e (cm_Meta c) fs1 bs" "bm = Some (stores_Get ops (rev bs))"
    using getStoresFromCmd_meta y bm by blast
  have "g' = g\<lparr>g_config := SetMetaStore (stores_Get ops [stores_Get ops (rev xs), stores_Get ops (rev bs)]) (g_config g)\<rparr>"
    using assms x xm y bm xs(2) bs(2) by (simp add: reload_def Let_def Layered_two)
  then show ?thesis using xs(1) bs(1) by blast
qed

lemma reload_error:
  assumes "reload ops e g c fs = ret (Some err, g', c', fs')"
  shows "g' = g"
proof (cases "ReadFile (ce_faults e) fs (layered_file c)")
  case (Inl x)
  then show ?thesis using assms by (auto simp: reload_def split: if_splits)
next
  case (Inr content)
  obtain extra' x fs1 where x: "getMetaStore ops e (split_on (CHR 0x0A) (bytes_string content)) fs = ((extra', x), fs1)"
    by (metis prod.collapse)
  show ?thesis
  proof (cases x)
    case (Inl y)
    then show ?thesis using assms Inr x by (simp add: reload_def Let_def)
  next
    case xm: (Inr xm)
    obtain c1 y fs2 where y: "getStoresFromCmd ops e c 0 fs1 = ret (c1, y, fs2)"
      using assms Inr x xm by (cases "getStoresFromCmd ops e c 0 fs1") (auto simp: reload_def Let_def)
    show ?thesis
      using assms Inr x xm y by (cases y) (auto simp: reload_def Let_def split: option.splits)
  qed
qed

section \<open>Properties\<close>


definition works :: mount_faults where
  "works = \<lparr>mf_fs = no_faults, mf_server = (\<lambda>_. None), mf_wait = (\<lambda>_. None), mf_stat = None, mf_chmod = None,
     mf_overlay = None, mf_unmount = (\<lambda>_. None), mf_point = (\<lambda>i. if i < 2 then RunExit else RunOk)\<rparr>"

definition demo_options :: "unit options" where
  "demo_options = \<lparr>op_Name = [], op_Backend = ''/b'', op_Cache = [], op_Target = ''/mnt'', op_Store = ro_store file_rofs,
     op_Reset = True, op_ReadOnly = False\<rparr>"

definition boot :: kernel where
  "boot = \<lparr>kn_mounts = [''/''], kn_fs = empty_fs\<rparr>"

lemma demo_mount:
  "(case Mount works demo_options boot of
      (Mounted g, k1) \<Rightarrow> (g_layers g, kn_mounts k1) | _ \<Rightarrow> ([], [])) = ([''/b/ro'', ''/mnt''], [''/mnt'', ''/b/ro'', ''/''])"
  by code_simp




text \<open>The flist \<open>a\<close> is named again in the file of extra flists.\<close>

definition reload_fs :: fsys where
  "reload_fs = \<lparr>fy_dirs = [''a''], fy_names = [''a/router.yaml'' \<mapsto> 0, ''/b/.layered'' \<mapsto> 1],
     fy_data = (\<lambda>i. if i = 1 then [97] else [1]), fy_next = 2\<rparr>"

definition demo_g8ufs :: "(((string \<times> meta) list, (string \<times> np_aci) list) entry) g8ufs" where
  "demo_g8ufs = \<lparr>g_config = demo_rofs, g_layers = [''/mnt''], g_watching = True\<rparr>"

lemma demo_reload:
  "(case reload (sql_ops id) demo_cmd_env demo_g8ufs demo_cmd reload_fs of
      Some (None, g, _, _) \<Rightarrow> OpenDir (sql_ops id) (g_config g) ''d'' | _ \<Rightarrow> None) = ret ([(LinkType, ''l'')], OK)"
  "ReadFile (ce_faults demo_cmd_env) reload_fs (layered_file demo_cmd) = Inr [97]"
  by code_simp+


end
