(* ===== verification/Mains.thy ===== *)
theory Mains
  imports Mounts
begin

text \<open>
  The program as a whole: the command line of cmd/main.go, and \<open>mount\<close> of cmd/mount.go, which starts
  the filesystem, as a daemon or not, and serves until it is told to stop or finds itself unmounted.
  The flag parser, the forking of the daemon and the signals are parameters.
\<close>

section \<open>The flags\<close>

datatype flag =
    BoolFlag string string                 \<comment> \<open>name, usage\<close>
  | StringFlag string string string        \<comment> \<open>name, default, usage\<close>
  | StringSliceFlag string string

definition app_flags :: "flag list" where
  "app_flags =
     [BoolFlag ''reset'' ''resets filesystem on mount'',
      BoolFlag ''debug'' ''enable debug logging'',
      StringSliceFlag ''meta'' ''path to meta backend, can appear many times. The meta is layered in order so last meta to be added will be on top'',
      StringFlag ''backend'' ''/tmp/backend'' ''working directory of the filesystem (cache and others)'',
      StringFlag ''cache'' [] ''external (common) cache directory, if not provided a temporary cache location will be created under `backend`'',
      StringFlag ''storage-url'' ''zdb://hub.grid.tf:9900'' ''fallback storage url in case no router.yaml available in flist'',
      StringFlag ''local-router'' [] ''path to local router.yaml to merge with the router.yaml from the flist. This will allow adding some caching layers'',
      BoolFlag ''ro'' ''mount in read-only mode'',
      StringFlag ''log'' [] ''write logs to file (default to stderr)'',
      BoolFlag ''daemon,d'' ''start 0-fs as a daemon'',
      StringFlag ''pid'' [] ''when starting as a daemon, location of the pid file'']"

text \<open>A flag is known by each of the names between its commas.\<close>

definition flag_names :: "string \<Rightarrow> string list" where
  "flag_names n = split_on (CHR '','') n"

definition bool_names :: "string list" where
  "bool_names = concat (map (\<lambda>f. case f of BoolFlag n _ \<Rightarrow> flag_names n | _ \<Rightarrow> []) app_flags)"

definition string_names :: "string list" where
  "string_names = concat (map (\<lambda>f. case f of StringFlag n _ _ \<Rightarrow> flag_names n | _ \<Rightarrow> []) app_flags)"

definition slice_names :: "string list" where
  "slice_names = concat (map (\<lambda>f. case f of StringSliceFlag n _ \<Rightarrow> flag_names n | _ \<Rightarrow> []) app_flags)"

section \<open>Logging and the main function\<close>

datatype log_target = Stderr | LogFile string
datatype log_level = DEBUG | INFO

datatype before =
    PrintVersion                           \<comment> \<open>and exit with status 0\<close>
  | BeforeErr oserr
  | LogTo log_target log_level

definition Before :: "(string \<Rightarrow> oserr option) \<Rightarrow> flags \<Rightarrow> before" where
  "Before create ctx =
     (if fg_bool ctx ''version'' then PrintVersion
      else
        let level = (if fg_bool ctx ''debug'' then DEBUG else INFO);
            log = fg_string ctx ''log''
        in if length log \<noteq> 0 then
             (case create log of Some err \<Rightarrow> BeforeErr err | None \<Rightarrow> LogTo (LogFile log) level)
           else LogTo Stderr level)"

datatype status = ExitOk | LogFatal string

text \<open>\<open>main\<close>: the library calls \<open>Before\<close>, and \<open>Action\<close> when that returned no error.\<close>

definition main_run ::
  "(string \<Rightarrow> oserr option) \<Rightarrow> (oserr \<Rightarrow> string) \<Rightarrow> (cmd \<Rightarrow> string \<Rightarrow> string option) \<Rightarrow> flags \<Rightarrow> string list \<Rightarrow> status" where
  "main_run create msg mount ctx args =
     (case Before create ctx of
        PrintVersion \<Rightarrow> ExitOk
      | BeforeErr err \<Rightarrow> LogFatal (msg err)
      | LogTo t l \<Rightarrow> (case action mount ctx args of None \<Rightarrow> ExitOk | Some m \<Rightarrow> LogFatal m))"

text \<open>Every flag that \<open>action\<close> reads is declared with the type it is read with: contexts that agree on
  the declared flags give the same command. \<open>debug\<close> is declared and read by \<open>Before\<close> only.\<close>

lemma action_reads_declared:
  assumes "\<forall>n\<in>set bool_names. fg_bool ctx n = fg_bool ctx' n"
    and "\<forall>n\<in>set string_names. fg_string ctx n = fg_string ctx' n"
    and "\<forall>n\<in>set slice_names. fg_slice ctx n = fg_slice ctx' n"
  shows "action_cmd ctx = action_cmd ctx'"
proof -
  have "set bool_names = {''reset'', ''debug'', ''ro'', ''daemon'', ''d''}" by code_simp
  moreover have "set string_names = {''backend'', ''cache'', ''storage-url'', ''local-router'', ''log'', ''pid''}" by code_simp
  moreover have "set slice_names = {''meta''}" by code_simp
  ultimately show ?thesis using assms by (simp add: action_cmd_def)
qed

lemma main_run_ok:
  "main_run create msg mount ctx args = ExitOk \<longleftrightarrow>
    fg_bool ctx ''version'' \<or>
    (fg_string ctx ''log'' = [] \<or> create (fg_string ctx ''log'') = None) \<and>
      (\<exists>mnt. args = [mnt] \<and> mount (action_cmd ctx) mnt = None)"
proof -
  have "action mount ctx args = None \<longleftrightarrow> (\<exists>mnt. args = [mnt] \<and> mount (action_cmd ctx) mnt = None)"
    by (cases args rule: remdups_adj.cases) (auto simp: action_def Validate_def)
  then show ?thesis by (auto simp: main_run_def Before_def Let_def split: option.split)
qed

section \<open>The life of the process\<close>

text \<open>
  What a serving process meets: a signal, or that its watcher returns, so that \<open>Wait\<close> goes on and its
  result ends the loop. A panic of the watcher is one of the process.
\<close>

datatype happening = Signalled event | Watcher watch_call

fun serve ::
  "('c, 'a) entry meta_ops \<Rightarrow> ('c, 'a) cmd_env \<Rightarrow> mount_faults \<Rightarrow> happening list \<Rightarrow> ('c, 'a) entry g8ufs \<Rightarrow> cmd \<Rightarrow> kernel
    \<Rightarrow> (string list option option \<times> ('c, 'a) entry g8ufs \<times> cmd \<times> kernel) go" where
  "serve ops e mf [] g c k = serve_loop ops e mf [] g c k"
| "serve ops e mf (Watcher w # hs) g c k =
     do {
       logged \<leftarrow> watch w g;
       let k0 = (if w = Unmounted then k\<lparr>kn_mounts := remove1 (last (g_layers g)) (kn_mounts k)\<rparr> else k);
           (err, k1) = Wait mf g k0
       in serve_loop ops e mf [Exit err] g c k1
     }"
| "serve ops e mf (Signalled ev # hs) g c k =
     do {
       (r, g1, c1, k1) \<leftarrow> serve_loop ops e mf [ev] g c k;
       case r of None \<Rightarrow> serve ops e mf hs g1 c1 k1 | Some err \<Rightarrow> ret (Some err, g1, c1, k1)
     }"

datatype reborn = RebornErr string | Parent | Child

datatype proc_err = PStart start_err | PParent string | PUnmount "string list"

datatype proc_end =
    Died string                            \<comment> \<open>\<open>log.Fatal\<close>\<close>
  | Returned "proc_err option"
  | Serving

text \<open>\<open>mount\<close>: the parent of a daemon only waits for the mount point, its child serves. \<open>reborn\<close> is the
  outcome of forking and \<open>name\<close> the process number.\<close>

definition mount_serve ::
  "('c, 'a) entry meta_ops \<Rightarrow> ('c, 'a) cmd_env \<Rightarrow> mount_faults \<Rightarrow> string \<Rightarrow> happening list \<Rightarrow> cmd \<Rightarrow> string \<Rightarrow> kernel
    \<Rightarrow> (proc_end \<times> kernel) go" where
  "mount_serve ops e mf name hs c mnt k =
     do {
       (r, c1, k1) \<leftarrow> start ops e mf c name mnt k;
       case r of
         Inr (Mounted g) \<Rightarrow>
           do {
             (res, g1, c2, k2) \<leftarrow> serve ops e mf hs g c1 k1;
             ret (case res of None \<Rightarrow> Serving | Some err \<Rightarrow> Returned (map_option PUnmount err), k2)
           }
       | Inr _ \<Rightarrow> panic
       | Inl err \<Rightarrow> ret (Returned (Some (PStart err)), k1)
     }"

definition mount_cmd ::
  "('c, 'a) entry meta_ops \<Rightarrow> ('c, 'a) cmd_env \<Rightarrow> mount_faults \<Rightarrow> (string \<Rightarrow> string \<Rightarrow> reborn) \<Rightarrow> string \<Rightarrow> happening list
    \<Rightarrow> cmd \<Rightarrow> string \<Rightarrow> kernel \<Rightarrow> (proc_end \<times> kernel) go" where
  "mount_cmd ops e mf fork name hs c mnt k =
     (let c1 = (if cm_LogPath c = [] then c\<lparr>cm_LogPath := ''/var/log/g8ufs.log''\<rparr> else c)
      in if cm_Daemon c1 then
           (case fork (cm_PidPath c1) (cm_LogPath c1) of
              RebornErr m \<Rightarrow> ret (Died (''Unable to run: '' @ m), k)
            | Parent \<Rightarrow> ret (Returned (map_option PParent (parent_wait mf)), k)
            | Child \<Rightarrow> mount_serve ops e mf name hs c1 mnt k)
         else mount_serve ops e mf name hs c1 mnt k)"

section \<open>What a process leaves behind\<close>

lemma reload_layers:
  assumes "reload ops e g c fs = ret (r, g', c', fs')"
  shows "g_layers g' = g_layers g"
proof (cases r)
  case (Some err)
  then show ?thesis using reload_error assms by blast
next
  case None
  show ?thesis
  proof (cases "ReadFile (ce_faults e) fs (layered_file c)")
    case (Inl x)
    then show ?thesis using assms by (auto simp: reload_def split: if_splits)
  next
    case (Inr content)
    then show ?thesis using reload_stores [OF assms [unfolded None]] by auto
  qed
qed

lemma getStoresFromCmd_backend:
  assumes "getStoresFromCmd ops e c a fs = ret (c', x, fs')"
  shows "cm_Backend c' = cm_Backend c \<and> cm_Cache c' = cm_Cache c"
proof -
  obtain dbs y fs1 where "getMetaStore ops e (cm_Meta c) fs = ((dbs, y), fs1)" by (metis prod.collapse)
  then show ?thesis using assms by (cases y) (auto simp: getStoresFromCmd_def Let_def go_bind_eq_ret)
qed

text \<open>The layers of a mount: the target, and below it the read-only layer unless the mount is read-only.\<close>

lemma Mount_layers:
  assumes "Mount mf opt k = (Mounted g, k')"
  shows "g_layers g = [op_Target opt] \<or> g_layers g = [path_Join [op_Backend opt, ''ro''], op_Target opt]"
proof -
  have "g_layers g = [op_Target opt] \<or> g_layers g = [ro, op_Target opt]"
    if "mount_overlay mf opt ro g0 k0 = (Mounted g, k')" "g_layers g0 = [ro]" for ro g0 k0
    using that by (auto simp: mount_overlay_def mount_failed_def mount_done_def Let_def split: prod.splits option.splits sum.splits if_splits)
  then show ?thesis
    using assms by (fastforce simp: Mount_def mountRO_def mount_done_def Let_def split: prod.splits option.splits sum.splits if_splits)
qed

text \<open>While it serves, the mount points are those it found, with its own layers on top.\<close>

definition mounted_on :: "string list \<Rightarrow> 'm g8ufs \<Rightarrow> kernel \<Rightarrow> bool" where
  "mounted_on old g k \<longleftrightarrow>
     kn_mounts k = rev (g_layers g) @ old \<and>
     (\<exists>top below. g_layers g = below @ [top] \<and> top \<notin> set below \<and> top \<notin> set old)"

lemma Wait_ok:
  assumes "unmounts mf" "mounted_on old g k"
  shows "kn_mounts (snd (Wait mf g (k\<lparr>kn_mounts := remove1 (last (g_layers g)) (kn_mounts k)\<rparr>))) = old"
proof -
  obtain top below where t: "g_layers g = below @ [top]" "top \<notin> set below" "top \<notin> set old"
    "kn_mounts k = top # rev below @ old" using assms(2) by (auto simp: mounted_on_def)
  let ?k = "k\<lparr>kn_mounts := rev below @ old\<rparr>"
  have k: "k\<lparr>kn_mounts := remove1 (last (g_layers g)) (kn_mounts k)\<rparr> = ?k" using t by simp
  have "sys_unmount mf top ?k = (Some ''invalid argument'', ?k)"
    using assms(1) t(2,3) by (simp add: sys_unmount_def unmounts_def)
  moreover have "unmount_layers mf (rev below) ?k = ([], ?k\<lparr>kn_mounts := old\<rparr>)"
    by (rule unmount_layers_ok [OF assms(1)]) simp
  ultimately show ?thesis unfolding k by (simp add: Wait_def Unmount_def t(1))
qed

definition ends :: "happening \<Rightarrow> bool" where
  "ends h \<longleftrightarrow> (\<exists>w. h = Watcher w) \<or> h = Signalled SigTerm \<or> h = Signalled SigInt"

definition real_event :: "happening \<Rightarrow> bool" where
  "real_event h \<longleftrightarrow> (\<forall>err. h \<noteq> Signalled (Exit err))"

lemma serve_leaves:
  assumes "unmounts mf" "list_all real_event hs"
  shows "mounted_on old g k \<Longrightarrow> serve ops e mf hs g c k = ret (res, g', c', k') \<Longrightarrow>
    (if list_ex ends hs then res \<noteq> None \<and> kn_mounts k' = old else res = None \<and> mounted_on old g' k')"
  using assms(2)
proof (induction hs arbitrary: g c k)
  case (Cons h hs)
  have quit: "Unmount mf g k = (None, k\<lparr>kn_mounts := old\<rparr>)"
    using Unmount_ok [OF assms(1), of k g old] Cons.prems(1) by (simp add: mounted_on_def)
  show ?case
  proof (cases h)
    case (Watcher w)
    have "kn_mounts (snd (Wait mf g k)) = old" using quit by (simp add: Wait_def)
    then show ?thesis using Cons.prems(2) Watcher Wait_ok [OF assms(1) Cons.prems(1)]
      by (auto simp: ends_def Let_def go_bind_eq_ret split: prod.splits if_splits)
  next
    case (Signalled ev)
    show ?thesis
    proof (cases ev)
      case SigHup
      obtain r g1 c1 fs1 where r: "reload ops e g c (kn_fs k) = ret (r, g1, c1, fs1)"
        using Cons.prems(2) Signalled SigHup by (cases "reload ops e g c (kn_fs k)") auto
      have on: "mounted_on old g1 (k\<lparr>kn_fs := fs1\<rparr>)"
        using Cons.prems(1) reload_layers [OF r] by (simp add: mounted_on_def)
      have "serve ops e mf hs g1 c1 (k\<lparr>kn_fs := fs1\<rparr>) = ret (res, g', c', k')"
        using Cons.prems(2) Signalled SigHup r by simp
      from Cons.IH [OF on this] Cons.prems(3) show ?thesis using Signalled SigHup by (simp add: ends_def)
    next
      case (Exit err)
      then show ?thesis using Cons.prems(3) Signalled by (simp add: real_event_def)
    qed (use Cons.prems(2) Signalled quit in \<open>auto simp: ends_def\<close>)
  qed
qed auto

lemma start_mounts:
  assumes "unmounts mf" "\<forall>p. mf_wait mf p = None" "mnt \<notin> set (kn_mounts k)"
    and "mnt \<noteq> path_Join [cm_Backend c, ''ro'']" "start ops e mf c name mnt k = ret (r, c', k')"
  shows "case r of Inl err \<Rightarrow> kn_mounts k' = kn_mounts k
    | Inr x \<Rightarrow> \<exists>g. x = Mounted g \<and> mounted_on (kn_mounts k) g k'"
proof -
  obtain c1 s fs where s: "getStoresFromCmd ops e c 0 (kn_fs k) = ret (c1, s, fs)"
    using assms(5) by (cases "getStoresFromCmd ops e c 0 (kn_fs k)") (auto simp: start_def)
  note b = getStoresFromCmd_backend [OF s]
  show ?thesis
  proof (cases s)
    case (Inl err)
    then show ?thesis using assms(5) s by (auto simp: start_def Let_def)
  next
    case (Inr x)
    obtain meta m a where x: "x = (meta, m, a)" by (cases x)
    then obtain st where st: "meta = Some st" using assms(5) s Inr by (cases meta) (auto simp: start_def Let_def)
    let ?opt = "mount_options c1 name mnt st"
    obtain y k2 where y: "Mount mf ?opt (k\<lparr>kn_fs := fs\<rparr>) = (y, k2)" by fastforce
    have fin: "mount_end mf ?opt (k\<lparr>kn_fs := fs\<rparr>) (y, k2)" using Mount_end [OF assms(1,2)] y by metis
    show ?thesis
    proof (cases y)
      case (Mounted g)
      have l: "g_layers g = [mnt] \<or> g_layers g = [path_Join [cm_Backend c, ''ro''], mnt]"
        using Mount_layers y Mounted b by (fastforce simp: mount_options_def)
      then have "mounted_on (kn_mounts k) g k2"
        using fin Mounted assms(3,4) by (auto simp: mounted_on_def mount_end_def)
      then show ?thesis using assms(5) s Inr x st y Mounted by (auto simp: start_def Let_def)
    next
      case (MountFailed err)
      then show ?thesis using assms(5) s Inr x st y fin by (auto simp: start_def Let_def mount_end_def)
    next
      case MountPanic
      then show ?thesis using assms(5) s Inr x st y by (simp add: start_def Let_def)
    qed
  qed
qed

section \<open>What is mounted\<close>

text \<open>The flists that the command line names, opened on the files of the system.\<close>

definition mounted_flists :: "('c, 'a) cmd_env \<Rightarrow> cmd \<Rightarrow> kernel \<Rightarrow> ('c, 'a) env list \<Rightarrow> bool" where
  "mounted_flists e c k evs \<longleftrightarrow> opened_stores e (cm_Meta c) (kn_fs k) (map sql_layer evs)"

lemma opened_stores_unique: "opened_stores e dbs fs ss \<Longrightarrow> opened_stores e dbs fs ss' \<Longrightarrow> ss = ss'"
  by (auto simp: opened_stores_def)

lemma start_mounted:
  assumes "start ops e mf c name mnt k = ret (Inr (Mounted g), c', k')"
  shows "\<exists>evs. mounted_flists e c k evs \<and>
    g_config g = rofs_NewConfig (stores_Get ops (rev (map sql_layer evs)))
      (if cm_Cache c \<noteq> [] then cm_Cache c else path_Join [cm_Backend c, ''ca''])"
proof -
  obtain c1 s fs where s: "getStoresFromCmd ops e c 0 (kn_fs k) = ret (c1, s, fs)"
    using assms by (cases "getStoresFromCmd ops e c 0 (kn_fs k)") (auto simp: start_def)
  then obtain meta m a where m: "s = Inr (meta, m, a)"
    using assms by (cases s) (auto simp: start_def Let_def)
  obtain ss where ss: "opened_stores e (cm_Meta c) (kn_fs k) ss" "meta = Some (stores_Get ops (rev ss))"
    using getStoresFromCmd_meta s m by blast
  obtain evs where evs: "ss = map sql_layer evs" using ss(1) open_stores_flists by (fastforce simp: opened_stores_def)
  let ?opt = "mount_options c1 name mnt (stores_Get ops (rev ss))"
  obtain r k2 where r: "Mount mf ?opt (k\<lparr>kn_fs := fs\<rparr>) = (r, k2)" by fastforce
  then have "r = Mounted g" using assms s m ss(2) by (cases r) (auto simp: start_def Let_def)
  then have "g_config g = rofs_NewConfig (stores_Get ops (rev ss)) (if cm_Cache c \<noteq> [] then cm_Cache c else path_Join [cm_Backend c, ''ca''])"
    using Mount_config r getStoresFromCmd_backend [OF s] by (fastforce simp: mount_options_def)
  then show ?thesis using ss(1) evs by (auto simp: mounted_flists_def)
qed

section \<open>Properties\<close>

text \<open>C10. The program cleans up: started on a path where nothing is mounted yet, and as long as unmounting
  works and the FUSE server comes up, it leaves the mount points of the system as they were when it
  returns, be it from a failed start, after a signal to stop, or because the filesystem was unmounted
  from outside or can no longer be watched, and however often it was told to reload before; while it
  serves, its layers lie on top of the old mount points. The parent of a daemon mounts nothing.\<close>

theorem process_cleans_up:
  fixes ops :: "('c, 'a) entry meta_ops"
  assumes "\<forall>p. mf_unmount mf p = None" "\<forall>p. mf_wait mf p = None"
    and "mnt \<notin> set (kn_mounts k)" "mnt \<noteq> path_Join [cm_Backend c, ''ro'']" "list_all real_event hs"
    and "mount_cmd ops e mf fork name hs c mnt k = ret (res, k')"
  shows "if res = Serving then \<not> list_ex ends hs \<and> (\<exists>g :: ('c, 'a) entry g8ufs. mounted_on (kn_mounts k) g k')
    else kn_mounts k' = kn_mounts k"
proof -
  have un: "unmounts mf" using assms(1) by (simp add: unmounts_def)
  have served: "if res = Serving then \<not> list_ex ends hs \<and> (\<exists>g :: ('c, 'a) entry g8ufs. mounted_on (kn_mounts k) g k')
      else kn_mounts k' = kn_mounts k"
    if c1: "cm_Backend c1 = cm_Backend c" and run: "mount_serve ops e mf name hs c1 mnt k = ret (res, k')" for c1
  proof -
    obtain r c2 k1 where s: "start ops e mf c1 name mnt k = ret (r, c2, k1)"
      using run by (cases "start ops e mf c1 name mnt k") (auto simp: mount_serve_def)
    note fin = start_mounts [OF un assms(2,3) assms(4) [folded c1] s]
    show ?thesis
    proof (cases r)
      case (Inl err)
      then show ?thesis using run s fin by (auto simp: mount_serve_def)
    next
      case (Inr x)
      then obtain g where g: "x = Mounted g" "mounted_on (kn_mounts k) g k1" using fin by auto
      then obtain z g1 c3 where z: "serve ops e mf hs g c2 k1 = ret (z, g1, c3, k')"
        "res = (case z of None \<Rightarrow> Serving | Some err \<Rightarrow> Returned (map_option PUnmount err))"
        using run s Inr by (auto simp: mount_serve_def go_bind_eq_ret)
      then show ?thesis using serve_leaves [OF un assms(5) g(2) z(1)] by (auto split: option.splits if_splits)
    qed
  qed
  show ?thesis
    using assms(6) served [of c] served [of "c\<lparr>cm_LogPath := ''/var/log/g8ufs.log''\<rparr>"]
    by (auto simp: mount_cmd_def Let_def split: if_splits reborn.splits)
qed

definition demo_kernel :: kernel where
  "demo_kernel = boot\<lparr>kn_fs := demo_flist_fs\<rparr>"

lemma demo_life:
  "(case mount_cmd (sql_ops id) demo_cmd_env works (\<lambda>_ _. Child) ''42'' [Signalled SigHup, Signalled SigTerm] demo_cmd ''/mnt'' demo_kernel of
      Some (r, _) \<Rightarrow> r = Returned None | None \<Rightarrow> False)"
  by code_simp

theorem process_cleans_up_witness:
  "\<exists>k'. mount_cmd (sql_ops id) demo_cmd_env works (\<lambda>_ _. Child) ''42'' [Signalled SigHup, Signalled SigTerm] demo_cmd ''/mnt'' demo_kernel
      = ret (Returned None, k') \<and> kn_mounts k' = [''/'']"
proof -
  obtain k' where run: "mount_cmd (sql_ops id) demo_cmd_env works (\<lambda>_ _. Child) ''42'' [Signalled SigHup, Signalled SigTerm]
      demo_cmd ''/mnt'' demo_kernel = ret (Returned None, k')"
    using demo_life by (auto split: option.splits prod.splits)
  have w: "\<forall>p. mf_unmount works p = None" "\<forall>p. mf_wait works p = None" by (simp_all add: works_def)
  have m: "''/mnt'' \<notin> set (kn_mounts demo_kernel)" "''/mnt'' \<noteq> path_Join [cm_Backend demo_cmd, ''ro'']"
    "list_all real_event [Signalled SigHup, Signalled SigTerm]"
    by (simp add: demo_kernel_def boot_def, code_simp, simp add: real_event_def)
  from process_cleans_up [OF w m run] run show ?thesis by (simp add: demo_kernel_def boot_def)
qed

text \<open>A watcher that cannot be set up ends the process by a panic, without unmounting anything.\<close>

lemma no_watch_panics: "serve ops e mf (Watcher (NoInotify m) # hs) g c k = panic" "serve ops e mf (Watcher (NoWatch m) # hs) g c k = panic"
  by (simp_all add: watch_def)

text \<open>What is mounted at the target already is taken away when the filesystem is unmounted from outside:
  \<open>Wait\<close> unmounts the target once more.\<close>

lemma second_unmount:
  assumes "unmounts mf" "kn_mounts k = [mnt, mnt]" "g_layers g = [mnt]"
  shows "kn_mounts (snd (Wait mf g (k\<lparr>kn_mounts := remove1 mnt (kn_mounts k)\<rparr>))) = []"
  using assms by (simp add: Wait_def Unmount_def sys_unmount_def unmounts_def)

end
