(* ===== verification/Objects.thy ===== *)
theory Objects
  imports Rofs
begin

text \<open>
  The types of the objects a filesystem serves, after meta/meta.go: what a stack of flists returns is a
  directory, a regular file or a link, with the attributes of its kind, and the filesystem
  (rofs/rofs.go) reports that type and no other. Nothing is assumed of the flists here; they may be
  damaged.
\<close>

section \<open>Stores made of flists\<close>

text \<open>The stores the program builds: flists, and stacks of such stores, to any depth.\<close>

inductive flist_store :: "(bytes \<Rightarrow> bytes) \<Rightarrow> ('c, 'a) entry layer \<Rightarrow> bool" for md5 where
  flist: "flist_store md5 (sql_layer ev)"
| stack: "(\<And>s. s \<in> set ss \<Longrightarrow> flist_store md5 s) \<Longrightarrow> flist_store md5 (stores_Get (sql_ops md5) ss)"

lemma flists_store: "flist_store md5 (stores_Get (sql_ops md5) (map sql_layer evs))"
  by (rule flist_store.stack) (auto intro: flist_store.flist)

section \<open>Well-typed objects\<close>

text \<open>\<open>sound_meta\<close>: an object that was built from a row, with permissions and nothing more in its mode.\<close>

fun sound_meta :: "meta \<Rightarrow> bool" where
  "sound_meta (Dir d a) \<longleftrightarrow> ac_Mode a \<le> 511"
| "sound_meta (File i f a) \<longleftrightarrow> ac_Mode a \<le> 511"
| "sound_meta (Link i t a) \<longleftrightarrow> ac_Mode a \<le> 511"
| "sound_meta (Special i t d a) \<longleftrightarrow> False"
| "sound_meta NilDir \<longleftrightarrow> False"

fun sound_node :: "('c, 'a) entry node \<Rightarrow> bool" where
  "sound_node (Plain x) \<longleftrightarrow> sound_meta (snd x)"
| "sound_node (MergedDir t lower) \<longleftrightarrow> sound_node t \<and> meta_IsDir (snd (node_leaf t)) \<and> (\<forall>l\<in>set lower. sound_node l)"

definition node_types :: "node_type set" where
  "node_types = {DirType, RegularType, LinkType}"

text \<open>The attributes belong to the type: blocks and an identity to files, a target to links.\<close>

definition typed :: "'m meta_ops \<Rightarrow> 'm node \<Rightarrow> info \<Rightarrow> bool" where
  "typed ops x i \<longleftrightarrow>
     in_Type i \<in> node_types \<and> (node_IsDir ops x \<longleftrightarrow> in_Type i = DirType) \<and>
     (in_Type i \<noteq> RegularType \<longrightarrow> node_Blocks ops x = [] \<and> node_ID ops x = [] \<and> in_FileBlockSize i = 0) \<and>
     (in_Type i \<noteq> LinkType \<longrightarrow> in_LinkTarget i = []) \<and>
     in_SpecialData i = [] \<and> ac_Mode (in_Access i) \<le> 511"

lemma sound_typed:
  assumes "sound_node x"
  shows "\<exists>i. node_Info (sql_ops md5) x = ret i \<and> typed (sql_ops md5) x i"
proof -
  obtain ev m where m: "node_leaf x = (ev, m)" by fastforce
  have "sound_meta (snd (node_leaf x))" using assms by (induction x) auto
  then show ?thesis
    using m by (cases m)
      (auto simp: typed_def node_types_def node_Info_def node_IsDir_def node_Blocks_def node_ID_def sql_ops_def
        dir_Info_def file_Info_def link_Info_def)
qed

section \<open>Rows are typed\<close>

lemma access_at_mode: "ac_Mode (fst (access_at ev key)) \<le> 511"
  by (auto simp: access_at_def DefaultAccess_def word_and_le1 word_and_le2 split: sum.split)

lemma dir_at_sound: "dir_at ev h = Inr m \<Longrightarrow> sound_meta m"
  using access_at_mode [of ev] by (auto simp: dir_at_def split: sum.splits prod.splits if_splits) (metis fst_conv)+

lemma inode_meta_sound: "inode_meta ev i = Some m \<Longrightarrow> sound_meta m \<or> m = NilDir"
  using dir_at_sound [of ev] access_at_mode [of ev] by (auto simp: inode_meta_def split: np_attributes.splits sum.splits)

lemma children_sound: "children_of ev m = ret ms \<Longrightarrow> c \<in> set ms \<Longrightarrow> sound_meta c \<or> c = NilDir"
  by (cases m) (auto simp: map_filter_mem dest: inode_meta_sound)

lemma find_child_named: "find_child n ms = ret (Some m) \<Longrightarrow> m \<in> set ms \<and> meta_Name m = ret n"
  by (induction ms) (auto simp: go_bind_eq_ret split: if_splits)

lemma get_at_sound: "get_at ev p = ret (Inr m) \<Longrightarrow> sound_meta m"
proof (cases "dir_path_at ev p")
  case (Inr d)
  moreover assume "get_at ev p = ret (Inr m)"
  ultimately show ?thesis using dir_at_sound by (subst (asm) get_at.simps) (auto simp: dir_path_at_def)
next
  case (Inl e)
  assume g: "get_at ev p = ret (Inr m)"
  then have "p \<noteq> []" using Inl by (subst (asm) get_at.simps) auto
  then obtain res where res: "get_at ev (parent_path p) = ret res"
    "(case res of Inl err \<Rightarrow> ret (Inl err) | Inr parent \<Rightarrow>
       do { children \<leftarrow> children_of ev parent; m \<leftarrow> find_child (path_Base p) children;
            ret (case m of None \<Rightarrow> Inl MNotFound | Some m \<Rightarrow> Inr m) }) = ret (Inr m)"
    using g Inl by (subst (asm) get_at.simps) (auto simp: go_bind_eq_ret)
  then obtain parent ms x where ms: "children_of ev parent = ret ms" "find_child (path_Base p) ms = ret x"
    "(case x of None \<Rightarrow> Inl MNotFound | Some m \<Rightarrow> Inr m) = Inr m"
    by (cases res) (auto simp: go_bind_eq_ret)
  then have "find_child (path_Base p) ms = ret (Some m)" by (cases x) auto
  then show ?thesis using find_child_named children_sound [OF ms(1)] by fastforce
qed

section \<open>Stores return typed objects\<close>

lemma stack_sound:
  assumes "\<And>s q y. s \<in> set ss \<Longrightarrow> s q = ret (Some y) \<Longrightarrow> sound_node y" "stores_Get (sql_ops md5) ss p = ret (Some x)"
  shows "sound_node x"
  using assms
proof (induction ss)
  case (Cons s ss)
  obtain r where r: "s p = ret r" using Cons.prems(2) by (auto simp: go_bind_eq_ret)
  have below: "sound_node y" if "t \<in> set ss" "t q = ret (Some y)" for t q y
    using Cons.prems(1) [of t q y] that by simp
  show ?case
  proof (cases r)
    case None
    then show ?thesis using Cons.IH [OF below] Cons.prems(2) r by simp
  next
    case (Some m)
    then have m: "sound_node m" using Cons.prems(1) [of s p m] r by simp
    have lower: "\<forall>l\<in>set lower. sound_node l" if "get_lower ss p = ret lower" for lower
      using that below by (induction ss arbitrary: lower) (fastforce simp: go_bind_eq_ret split: option.splits)+
    show ?thesis
      using Cons.prems(2) r Some m lower
      by (auto simp: getMerge_def go_bind_eq_ret node_IsDir_def sql_ops_def split: if_splits)
  qed
qed simp

lemma flist_store_sound: "flist_store md5 s \<Longrightarrow> s p = ret (Some x) \<Longrightarrow> sound_node x"
proof (induction arbitrary: p x rule: flist_store.induct)
  case (flist ev)
  then obtain m where m: "sql_view ev p = ret (Some m)" "x = Plain (ev, m)" by (auto simp: sql_layer_Some)
  then show ?case using get_at_sound by (auto simp: sql_view_Some)
next
  case (stack ss)
  show ?case by (rule stack_sound [OF stack.IH stack.prems])
qed

text \<open>What a directory lists is typed, but for the subdirectories whose row is missing.\<close>

definition nil_node :: "('c, 'a) entry node \<Rightarrow> bool" where
  "nil_node c \<longleftrightarrow> snd (node_leaf c) = NilDir"

lemma set_put_snd: "x \<in> snd ` set (set_put n c s) \<Longrightarrow> x = c \<or> x \<in> snd ` set s"
  using set_put_mem [of _ x n c s] by force

lemma put_top_snd: "put_top ops cs s = ret s' \<Longrightarrow> x \<in> snd ` set s' \<Longrightarrow> x \<in> set cs \<or> x \<in> snd ` set s"
  by (induction cs arbitrary: s) (auto simp: go_bind_eq_ret dest!: set_put_snd)

lemma put_lower_snd: "put_lower ops cs s = ret s' \<Longrightarrow> x \<in> snd ` set s' \<Longrightarrow> x \<in> set cs \<or> x \<in> snd ` set s"
proof (induction cs arbitrary: s)
  case (Cons c cs)
  then obtain n where "put_lower ops cs (case map_of s n of None \<Rightarrow> set_put n c s | Some _ \<Rightarrow> s) = ret s'"
    by (auto simp: go_bind_eq_ret)
  from Cons.IH [OF this Cons.prems(2)] show ?case
    using set_put_snd [of x n c s] by (auto split: option.splits)
qed auto

lemma node_children_sound:
  fixes x :: "('c, 'a) entry node" and lower :: "('c, 'a) entry node list"
  shows "sound_node x \<Longrightarrow> node_Children (sql_ops md5) x = ret ms \<Longrightarrow> \<forall>c\<in>set ms. sound_node c \<or> nil_node c"
    and "\<forall>l\<in>set lower. sound_node l \<Longrightarrow> lower_children (sql_ops md5) lower s = ret s' \<Longrightarrow>
      \<forall>c\<in>snd ` set s. sound_node c \<or> nil_node c \<Longrightarrow> \<forall>c\<in>snd ` set s'. sound_node c \<or> nil_node c"
proof (induction "sql_ops md5 :: ('c, 'a) entry meta_ops" x and "sql_ops md5 :: ('c, 'a) entry meta_ops" lower s
    arbitrary: ms and s' rule: node_Children_lower_children.induct)
  case (1 m)
  obtain ev k where m: "m = (ev, k)" by (cases m)
  then obtain ks where ks: "children_of ev k = ret ks" "ms = map (\<lambda>c. Plain (ev, c)) ks" using 1(2) by auto
  show ?case
  proof
    fix c assume "c \<in> set ms"
    then obtain k' where k': "k' \<in> set ks" "c = Plain (ev, k')" using ks(2) by auto
    then show "sound_node c \<or> nil_node c" using children_sound [OF ks(1) k'(1)] by (auto simp: nil_node_def)
  qed
next
  case (2 t lower)
  then obtain cs s1 s2 where *: "node_Children (sql_ops md5) t = ret cs" "put_top (sql_ops md5) cs [] = ret s1"
    "lower_children (sql_ops md5) lower s1 = ret s2" "ms = map snd s2" by (auto simp: go_bind_eq_ret)
  have "\<forall>c\<in>set cs. sound_node c \<or> nil_node c" using 2(1) [OF _ *(1)] 2(3) by simp
  then have s1: "\<forall>c\<in>snd ` set s1. sound_node c \<or> nil_node c" using put_top_snd [OF *(2)] by auto
  have "\<forall>c\<in>snd ` set s2. sound_node c \<or> nil_node c" using 2(2) [OF *(1,2) _ *(3) s1] 2(3) by simp
  then show ?case using *(4) by simp
next
  case (3 s)
  then show ?case by simp
next
  case (4 l lower s)
  then obtain cs s1 where *: "node_Children (sql_ops md5) l = ret cs" "put_lower (sql_ops md5) cs s = ret s1"
    "lower_children (sql_ops md5) lower s1 = ret s'" by (auto simp: go_bind_eq_ret)
  have "\<forall>c\<in>set cs. sound_node c \<or> nil_node c" using 4(1) [OF _ *(1)] 4(3) by simp
  then have s1: "\<forall>c\<in>snd ` set s1. sound_node c \<or> nil_node c" using put_lower_snd [OF *(2)] 4(5) by blast
  show ?case using 4(2) [OF *(1,2) _ *(3) s1] 4(3) by simp
qed

lemma file_no_children:
  assumes "sound_node x" "\<not> meta_IsDir (snd (node_leaf x))"
  shows "node_Children (sql_ops md5) x = ret []"
proof (cases x)
  case (Plain y)
  obtain ev m where "y = (ev, m)" by (cases y)
  then show ?thesis using assms Plain by (cases m) auto
next
  case (MergedDir t lower)
  then show ?thesis using assms by simp
qed

lemma perm_bits:
  fixes p :: u32
  assumes "p \<le> 511"
  shows "p AND 0xF000 = 0"
proof -
  have "p < 2 ^ 9" using assms by (simp add: word_less_nat_alt word_le_nat_alt)
  then have "p = p AND 511" using less_mask_eq [of p 9] by (simp add: mask_eq_exp_minus_1)
  then have "p AND 0xF000 = p AND (511 AND 0xF000)" by (metis and.assoc)
  then show ?thesis by simp
qed

lemma typed_mode:
  assumes "typed ops x i"
  shows "fa_Mode (attr_of i ino) AND 0xF000 = in_Type i" "fa_Mode (attr_of i ino) AND NOT 0xF000 = ac_Mode (in_Access i)"
    and "fa_Rdev (attr_of i ino) = 0"
proof -
  have t: "in_Type i AND 0xF000 = in_Type i" using assms by (auto simp: typed_def node_types_def)
  have p: "ac_Mode (in_Access i) AND 0xF000 = 0" using assms by (intro perm_bits) (simp add: typed_def)
  show "fa_Mode (attr_of i ino) AND 0xF000 = in_Type i" "fa_Mode (attr_of i ino) AND NOT 0xF000 = ac_Mode (in_Access i)"
    using mode_parts [OF t p] by simp_all
  show "fa_Rdev (attr_of i ino) = 0" using assms by (simp add: typed_def attr_of_def Let_def)
qed

lemma typed_entries:
  assumes "\<forall>c\<in>set ms. sound_node c \<or> nil_node c" "dir_entries (sql_ops md5) ms = ret entries"
  shows "fst ` set entries \<subseteq> node_types"
proof
  fix t assume "t \<in> fst ` set entries"
  then obtain n where "(t, n) \<in> set entries" by auto
  then obtain c i where c: "c \<in> set ms" "node_Info (sql_ops md5) c = ret i" "in_Type i = t"
    using dir_entries_ok(1) [OF assms(2)] by blast
  have "\<not> nil_node c" using c(2) by (cases "node_leaf c") (auto simp: nil_node_def node_Info_def sql_ops_def)
  then obtain j where "node_Info (sql_ops md5) c = ret j" "typed (sql_ops md5) c j"
    using assms(1) c(1) sound_typed by blast
  then show "t \<in> node_types" using c by (simp add: typed_def)
qed

text \<open>A directory whose entries have names can be listed: a subdirectory without a row has no name.\<close>

lemma dir_entries_total:
  assumes "\<forall>c\<in>set ms. sound_node c \<or> nil_node c" "\<forall>c\<in>set ms. \<exists>n. node_Name (sql_ops md5) c = ret n"
  shows "\<exists>entries. dir_entries (sql_ops md5) ms = ret entries"
proof -
  have "\<exists>i. node_Info (sql_ops md5) c = ret i" if "c \<in> set ms" for c
  proof -
    have "\<not> nil_node c"
      using assms(2) that by (cases "node_leaf c") (fastforce simp: nil_node_def node_Name_def sql_ops_def)
    then show ?thesis using assms(1) that sound_typed by blast
  qed
  then show ?thesis using assms(2) by (induction ms) fastforce+
qed

section \<open>Properties\<close>

text \<open>C16. The filesystem is well typed, on damaged flists too: whatever a stack of flists finds at a path is a directory,
  a regular file or a link, never a special file; only files have blocks, an identity and a block
  size, only links a target, and the permissions are within 0777. \<open>GetAttr\<close> reports that type and
  those permissions in separate bits and no device, \<open>OpenDir\<close> lists entries of these three types and
  none below anything but a directory, and \<open>Readlink\<close> has an answer for links only.\<close>

theorem object_types:
  assumes "flist_store md5 (ro_store c)" "ro_store c name = ret (Some x)"
  shows "\<exists>i. node_Info (sql_ops md5) x = ret i \<and> in_Type i \<in> {DirType, RegularType, LinkType} \<and>
    (node_IsDir (sql_ops md5) x \<longleftrightarrow> in_Type i = DirType) \<and>
    (in_Type i \<noteq> RegularType \<longrightarrow> node_Blocks (sql_ops md5) x = [] \<and> node_ID (sql_ops md5) x = [] \<and> in_FileBlockSize i = 0) \<and>
    (in_Type i \<noteq> LinkType \<longrightarrow> in_LinkTarget i = []) \<and> ac_Mode (in_Access i) \<le> 511 \<and>
    (\<forall>fl fs a fs'. GetAttr (sql_ops md5) fl c name fs = Some (ret ((Some a, OK), fs')) \<longrightarrow>
       fa_Mode a AND 0xF000 = in_Type i \<and> fa_Mode a AND NOT 0xF000 = ac_Mode (in_Access i) \<and> fa_Rdev a = 0) \<and>
    (\<forall>entries. OpenDir (sql_ops md5) c name = ret (entries, OK) \<longrightarrow>
       fst ` set entries \<subseteq> {DirType, RegularType, LinkType} \<and> (in_Type i \<noteq> DirType \<longrightarrow> entries = [])) \<and>
    (\<forall>t. Readlink (sql_ops md5) c name = ret (t, OK) \<longrightarrow> t \<noteq> [] \<longrightarrow> in_Type i = LinkType)"
proof -
  have x: "sound_node x" using flist_store_sound assms by blast
  obtain i where i: "node_Info (sql_ops md5) x = ret i" "typed (sql_ops md5) x i" using sound_typed [OF x] by blast
  have attrs: "fa_Mode a AND 0xF000 = in_Type i \<and> fa_Mode a AND NOT 0xF000 = ac_Mode (in_Access i) \<and> fa_Rdev a = 0"
    if "GetAttr (sql_ops md5) fl c name fs = Some (ret ((Some a, OK), fs'))" for fl fs a fs'
  proof -
    have "\<exists>ino. a = attr_of i ino"
      using that by (auto simp: GetAttr_found [OF assms(2) i(1)] split: if_splits option.splits sum.splits)
    then show ?thesis using typed_mode [OF i(2)] by auto
  qed
  have entries: "fst ` set entries \<subseteq> node_types \<and> (in_Type i \<noteq> DirType \<longrightarrow> entries = [])"
    if o: "OpenDir (sql_ops md5) c name = ret (entries, OK)" for entries
  proof -
    obtain ms where ms: "node_Children (sql_ops md5) x = ret ms" "dir_entries (sql_ops md5) ms = ret entries"
      using o assms(2) by (auto simp: OpenDir_def go_bind_eq_ret)
    have "ms = []" if "in_Type i \<noteq> DirType"
      using file_no_children [OF x, of md5] ms(1) i(2) that
      by (auto simp: typed_def node_IsDir_def sql_ops_def split: prod.splits)
    then show ?thesis using typed_entries [OF node_children_sound(1) [OF x ms(1)] ms(2)] ms(2) by auto
  qed
  have link: "in_Type i = LinkType" if "Readlink (sql_ops md5) c name = ret (t, OK)" "t \<noteq> []" for t
    using that assms(2) i by (auto simp: Readlink_def typed_def)
  show ?thesis using i attrs entries link unfolding typed_def node_types_def by blast
qed

lemma demo_subdir: "OpenDir (sql_ops id) demo_rofs ''d'' = ret ([(LinkType, ''l'')], OK)"
  by code_simp

theorem object_types_witness:
  "\<exists>x i. ro_store demo_rofs ''d'' = ret (Some x) \<and> node_Info (sql_ops id) x = ret i \<and> in_Type i = DirType \<and>
    node_Blocks (sql_ops id) x = []"
proof -
  have s: "flist_store id (ro_store demo_rofs)"
    using flists_store [of id "[SqlStore.demo_env]"] by (simp add: demo_rofs_sels)
  obtain x where x: "ro_store demo_rofs ''d'' = ret (Some x)"
    using demo_subdir by (auto simp: OpenDir_def go_bind_eq_ret split: option.splits)
  then show ?thesis using object_types [OF s x] demo_subdir by fastforce
qed

end
