(* ===== verification/Schema.thy ===== *)
theory Schema
  imports Metas
begin

text \<open>
  The schema of a flist: cap.np/model.capnp.go, what the Cap'n Proto compiler made of it. The library
  below it, with its messages, structs, pointers and lists, is the record \<open>capnp\<close>; a generated method
  is a definition over it, named \<open><type>_<method>\<close>, so that the offset of every field, the tags of the
  union \<open>Inode.attributes\<close> and the default of the user and group ids are those of the source. That the
  layout is right is shown in theory Layouts, what is read from a flist in theory Rows.
\<close>

named_theorems schema \<open>the generated accessors\<close>

section \<open>The library\<close>

text \<open>
  \<open>'m\<close> is a message, \<open>'g\<close> a segment of one, \<open>'s\<close> a struct, \<open>'p\<close> a pointer and \<open>'l\<close> a list in it.
  Reading a field needs the message, writing one makes a new message; writing outside of a struct
  panics. The pair of a Go value and an error keeps both, since the callers use the value whatever
  the error is. \<open>cp_Size\<close> is the pair of the size of the data and the number of pointers.
\<close>

record ('m, 'g, 's, 'p, 'l) capnp =
  cp_NewStruct :: "'g \<Rightarrow> nat \<times> nat \<Rightarrow> 'm \<Rightarrow> ('s \<times> merr option) \<times> 'm"
  cp_NewRootStruct :: "'g \<Rightarrow> nat \<times> nat \<Rightarrow> 'm \<Rightarrow> ('s \<times> merr option) \<times> 'm"
  cp_NewCompositeList :: "'g \<Rightarrow> nat \<times> nat \<Rightarrow> int \<Rightarrow> 'm \<Rightarrow> ('l \<times> merr option) \<times> 'm"
  cp_NewUInt16List :: "'g \<Rightarrow> int \<Rightarrow> 'm \<Rightarrow> ('l \<times> merr option) \<times> 'm"
  cp_RootPtr :: "'m \<Rightarrow> 'p \<times> merr option"
  cp_Segment :: "'s \<Rightarrow> 'g"
  cp_same :: "'g \<Rightarrow> 'g \<Rightarrow> bool"              \<comment> \<open>segments of one message\<close>
  cp_Size :: "'s \<Rightarrow> nat \<times> nat"
  cp_Uint16 :: "'s \<Rightarrow> nat \<Rightarrow> 'm \<Rightarrow> u16"
  cp_Uint32 :: "'s \<Rightarrow> nat \<Rightarrow> 'm \<Rightarrow> u32"
  cp_Uint64 :: "'s \<Rightarrow> nat \<Rightarrow> 'm \<Rightarrow> u64"
  cp_SetUint16 :: "'s \<Rightarrow> nat \<Rightarrow> u16 \<Rightarrow> 'm \<Rightarrow> 'm go"
  cp_SetUint32 :: "'s \<Rightarrow> nat \<Rightarrow> u32 \<Rightarrow> 'm \<Rightarrow> 'm go"
  cp_SetUint64 :: "'s \<Rightarrow> nat \<Rightarrow> u64 \<Rightarrow> 'm \<Rightarrow> 'm go"
  cp_Ptr :: "'s \<Rightarrow> nat \<Rightarrow> 'm \<Rightarrow> 'p \<times> merr option"
  cp_SetPtr :: "'s \<Rightarrow> nat \<Rightarrow> 'p \<Rightarrow> 'm \<Rightarrow> (merr option \<times> 'm) go"
  cp_SetText :: "'s \<Rightarrow> nat \<Rightarrow> string \<Rightarrow> 'm \<Rightarrow> (merr option \<times> 'm) go"
  cp_SetData :: "'s \<Rightarrow> nat \<Rightarrow> bytes \<Rightarrow> 'm \<Rightarrow> (merr option \<times> 'm) go"
  cp_IsValid :: "'p \<Rightarrow> bool"
  cp_Text :: "'p \<Rightarrow> 'm \<Rightarrow> string"
  cp_TextBytes :: "'p \<Rightarrow> 'm \<Rightarrow> bytes"
  cp_Data :: "'p \<Rightarrow> 'm \<Rightarrow> bytes"
  cp_Struct :: "'p \<Rightarrow> 's"
  cp_List :: "'p \<Rightarrow> 'l"
  cp_StructPtr :: "'s \<Rightarrow> 'p"
  cp_ListPtr :: "'l \<Rightarrow> 'p"
  cp_Len :: "'l \<Rightarrow> int"
  cp_At :: "'l \<Rightarrow> int \<Rightarrow> 's go"
  cp_SetStruct :: "'l \<Rightarrow> int \<Rightarrow> 's \<Rightarrow> 'm \<Rightarrow> (merr option \<times> 'm) go"
  cp_U16At :: "'l \<Rightarrow> int \<Rightarrow> 'm \<Rightarrow> u16 go"
  cp_U16Set :: "'l \<Rightarrow> int \<Rightarrow> u16 \<Rightarrow> 'm \<Rightarrow> 'm go"
  cp_nil :: 's                                  \<comment> \<open>the zero values of a struct and of a list\<close>
  cp_nil_list :: 'l

text \<open>What the getters have in common: they follow the pointer of a slot.\<close>

definition text_at :: "('m, 'g, 's, 'p, 'l) capnp \<Rightarrow> 's \<Rightarrow> nat \<Rightarrow> 'm \<Rightarrow> string \<times> merr option" where
  "text_at L s i m = (case cp_Ptr L s i m of (p, err) \<Rightarrow> (cp_Text L p m, err))"

definition bytes_at :: "('m, 'g, 's, 'p, 'l) capnp \<Rightarrow> 's \<Rightarrow> nat \<Rightarrow> 'm \<Rightarrow> bytes \<times> merr option" where
  "bytes_at L s i m = (case cp_Ptr L s i m of (p, err) \<Rightarrow> (cp_TextBytes L p m, err))"

definition data_at :: "('m, 'g, 's, 'p, 'l) capnp \<Rightarrow> 's \<Rightarrow> nat \<Rightarrow> 'm \<Rightarrow> bytes \<times> merr option" where
  "data_at L s i m = (case cp_Ptr L s i m of (p, err) \<Rightarrow> (cp_Data L p m, err))"

definition struct_at :: "('m, 'g, 's, 'p, 'l) capnp \<Rightarrow> 's \<Rightarrow> nat \<Rightarrow> 'm \<Rightarrow> 's \<times> merr option" where
  "struct_at L s i m = (case cp_Ptr L s i m of (p, err) \<Rightarrow> (cp_Struct L p, err))"

definition list_at :: "('m, 'g, 's, 'p, 'l) capnp \<Rightarrow> 's \<Rightarrow> nat \<Rightarrow> 'm \<Rightarrow> 'l \<times> merr option" where
  "list_at L s i m = (case cp_Ptr L s i m of (p, err) \<Rightarrow> (cp_List L p, err))"

definition has_at :: "('m, 'g, 's, 'p, 'l) capnp \<Rightarrow> 's \<Rightarrow> nat \<Rightarrow> 'm \<Rightarrow> bool" where
  "has_at L s i m = (case cp_Ptr L s i m of (p, err) \<Rightarrow> cp_IsValid L p \<or> err \<noteq> None)"

definition root_at :: "('m, 'g, 's, 'p, 'l) capnp \<Rightarrow> 'm \<Rightarrow> 's \<times> merr option" where
  "root_at L m = (case cp_RootPtr L m of (p, err) \<Rightarrow> (cp_Struct L p, err))"

section \<open>Enumerations\<close>

abbreviation Special_Type_socket :: u16 where "Special_Type_socket \<equiv> 0"
abbreviation Special_Type_block :: u16 where "Special_Type_block \<equiv> 1"
abbreviation Special_Type_chardev :: u16 where "Special_Type_chardev \<equiv> 2"
abbreviation Special_Type_fifopipe :: u16 where "Special_Type_fifopipe \<equiv> 3"
abbreviation Special_Type_unknown :: u16 where "Special_Type_unknown \<equiv> 4"

definition Special_Type_String :: "u16 \<Rightarrow> string" where
  "Special_Type_String c =
     (if c = Special_Type_socket then ''socket''
      else if c = Special_Type_block then ''block''
      else if c = Special_Type_chardev then ''chardev''
      else if c = Special_Type_fifopipe then ''fifopipe''
      else if c = Special_Type_unknown then ''unknown''
      else [])"

definition Special_TypeFromString :: "string \<Rightarrow> u16" where
  "Special_TypeFromString c =
     (if c = ''socket'' then Special_Type_socket
      else if c = ''block'' then Special_Type_block
      else if c = ''chardev'' then Special_Type_chardev
      else if c = ''fifopipe'' then Special_Type_fifopipe
      else if c = ''unknown'' then Special_Type_unknown
      else 0)"

abbreviation Which_dir :: u16 where "Which_dir \<equiv> 0"
abbreviation Which_file :: u16 where "Which_file \<equiv> 1"
abbreviation Which_link :: u16 where "Which_link \<equiv> 2"
abbreviation Which_special :: u16 where "Which_special \<equiv> 3"

definition Which_String :: "u16 \<Rightarrow> string" where
  "Which_String w =
     (let s = ''dirfilelinkspecial''
      in if w = Which_dir then take 3 s
         else if w = Which_file then take 4 (drop 3 s)
         else if w = Which_link then take 4 (drop 7 s)
         else if w = Which_special then take 7 (drop 11 s)
         else ''Inode_attributes_Which('' @ show_nat (unat w) @ '')'')"

text \<open>The names of the enumeration can be read back; any other text reads as the first value.\<close>

lemma Special_Type_roundtrip: "c \<le> 4 \<Longrightarrow> Special_TypeFromString (Special_Type_String c) = c"
proof -
  assume "c \<le> 4"
  then have "unat c \<le> 4" by (simp add: word_le_nat_alt)
  then have "unat c = 0 \<or> unat c = 1 \<or> unat c = 2 \<or> unat c = 3 \<or> unat c = 4" by presburger
  moreover have "c = word_of_nat (unat c)" by simp
  ultimately have "c \<in> {0, 1, 2, 3, 4}" by (elim disjE) simp_all
  then show ?thesis by (auto simp: Special_TypeFromString_def Special_Type_String_def)
qed

lemma Which_String_values:
  "Which_String Which_dir = ''dir''" "Which_String Which_file = ''file''"
  "Which_String Which_link = ''link''" "Which_String Which_special = ''special''"
  by (simp_all add: Which_String_def)


section \<open>Blocks, files and links\<close>

definition NewFileBlock where [schema]:
  "NewFileBlock L g m = cp_NewStruct L g (0, 2) m"

definition NewRootFileBlock where [schema]:
  "NewRootFileBlock L g m = cp_NewRootStruct L g (0, 2) m"

definition ReadRootFileBlock where [schema]:
  "ReadRootFileBlock L m = root_at L m"

definition FileBlock_Hash where [schema]:
  "FileBlock_Hash L s m = data_at L s 0 m"

definition FileBlock_HasHash where [schema]:
  "FileBlock_HasHash L s m = has_at L s 0 m"

definition FileBlock_SetHash where [schema]:
  "FileBlock_SetHash L s v m = cp_SetData L s 0 v m"

definition FileBlock_Key where [schema]:
  "FileBlock_Key L s m = data_at L s 1 m"

definition FileBlock_HasKey where [schema]:
  "FileBlock_HasKey L s m = has_at L s 1 m"

definition FileBlock_SetKey where [schema]:
  "FileBlock_SetKey L s v m = cp_SetData L s 1 v m"

definition NewFileBlock_List where [schema]:
  "NewFileBlock_List L g sz m = cp_NewCompositeList L g (0, 2) sz m"

definition FileBlock_List_At where [schema]:
  "FileBlock_List_At L l i = cp_At L l i"

definition FileBlock_List_Set where [schema]:
  "FileBlock_List_Set L l i v m = cp_SetStruct L l i v m"

definition NewFile where [schema]:
  "NewFile L g m = cp_NewStruct L g (8, 1) m"

definition NewRootFile where [schema]:
  "NewRootFile L g m = cp_NewRootStruct L g (8, 1) m"

definition ReadRootFile where [schema]:
  "ReadRootFile L m = root_at L m"

definition File_BlockSize where [schema]:
  "File_BlockSize L s m = cp_Uint16 L s 0 m"

definition File_SetBlockSize where [schema]:
  "File_SetBlockSize L s v m = cp_SetUint16 L s 0 v m"

definition File_Blocks where [schema]:
  "File_Blocks L s m = list_at L s 0 m"

definition File_HasBlocks where [schema]:
  "File_HasBlocks L s m = has_at L s 0 m"

definition File_SetBlocks where [schema]:
  "File_SetBlocks L s v m = cp_SetPtr L s 0 (cp_ListPtr L v) m"

definition File_NewBlocks where [schema]:
  "File_NewBlocks L s n m =
     (case NewFileBlock_List L (cp_Segment L s) n m of
        ((l, Some err), m1) \<Rightarrow> ret ((cp_nil_list L, Some err), m1)
      | ((l, None), m1) \<Rightarrow>
          do { (err, m2) \<leftarrow> cp_SetPtr L s 0 (cp_ListPtr L l) m1; ret ((l, err), m2) })"

definition NewFile_List where [schema]:
  "NewFile_List L g sz m = cp_NewCompositeList L g (8, 1) sz m"

definition File_List_At where [schema]:
  "File_List_At L l i = cp_At L l i"

definition File_List_Set where [schema]:
  "File_List_Set L l i v m = cp_SetStruct L l i v m"

definition NewLink where [schema]:
  "NewLink L g m = cp_NewStruct L g (0, 1) m"

definition NewRootLink where [schema]:
  "NewRootLink L g m = cp_NewRootStruct L g (0, 1) m"

definition ReadRootLink where [schema]:
  "ReadRootLink L m = root_at L m"

definition Link_Target where [schema]:
  "Link_Target L s m = text_at L s 0 m"

definition Link_HasTarget where [schema]:
  "Link_HasTarget L s m = has_at L s 0 m"

definition Link_TargetBytes where [schema]:
  "Link_TargetBytes L s m = bytes_at L s 0 m"

definition Link_SetTarget where [schema]:
  "Link_SetTarget L s v m = cp_SetText L s 0 v m"

definition NewLink_List where [schema]:
  "NewLink_List L g sz m = cp_NewCompositeList L g (0, 1) sz m"

definition Link_List_At where [schema]:
  "Link_List_At L l i = cp_At L l i"

definition Link_List_Set where [schema]:
  "Link_List_Set L l i v m = cp_SetStruct L l i v m"


section \<open>Special files and subdirectories\<close>

definition NewSpecial where [schema]:
  "NewSpecial L g m = cp_NewStruct L g (8, 1) m"

definition NewRootSpecial where [schema]:
  "NewRootSpecial L g m = cp_NewRootStruct L g (8, 1) m"

definition ReadRootSpecial where [schema]:
  "ReadRootSpecial L m = root_at L m"

definition Special_Type where [schema]:
  "Special_Type L s m = cp_Uint16 L s 0 m"

definition Special_SetType where [schema]:
  "Special_SetType L s v m = cp_SetUint16 L s 0 v m"

definition Special_Data where [schema]:
  "Special_Data L s m = data_at L s 0 m"

definition Special_HasData where [schema]:
  "Special_HasData L s m = has_at L s 0 m"

definition Special_SetData where [schema]:
  "Special_SetData L s v m = cp_SetData L s 0 v m"

definition NewSpecial_List where [schema]:
  "NewSpecial_List L g sz m = cp_NewCompositeList L g (8, 1) sz m"

definition Special_List_At where [schema]:
  "Special_List_At L l i = cp_At L l i"

definition Special_List_Set where [schema]:
  "Special_List_Set L l i v m = cp_SetStruct L l i v m"

definition NewSpecial_Type_List where [schema]:
  "NewSpecial_Type_List L g sz m = cp_NewUInt16List L g sz m"

definition Special_Type_List_At where [schema]:
  "Special_Type_List_At L l i m = cp_U16At L l i m"

definition Special_Type_List_Set where [schema]:
  "Special_Type_List_Set L l i v m = cp_U16Set L l i v m"

definition NewSubDir where [schema]:
  "NewSubDir L g m = cp_NewStruct L g (0, 1) m"

definition NewRootSubDir where [schema]:
  "NewRootSubDir L g m = cp_NewRootStruct L g (0, 1) m"

definition ReadRootSubDir where [schema]:
  "ReadRootSubDir L m = root_at L m"

definition SubDir_Key where [schema]:
  "SubDir_Key L s m = text_at L s 0 m"

definition SubDir_HasKey where [schema]:
  "SubDir_HasKey L s m = has_at L s 0 m"

definition SubDir_KeyBytes where [schema]:
  "SubDir_KeyBytes L s m = bytes_at L s 0 m"

definition SubDir_SetKey where [schema]:
  "SubDir_SetKey L s v m = cp_SetText L s 0 v m"

definition NewSubDir_List where [schema]:
  "NewSubDir_List L g sz m = cp_NewCompositeList L g (0, 1) sz m"

definition SubDir_List_At where [schema]:
  "SubDir_List_At L l i = cp_At L l i"

definition SubDir_List_Set where [schema]:
  "SubDir_List_Set L l i v m = cp_SetStruct L l i v m"


section \<open>Inodes\<close>

definition NewInode where [schema]:
  "NewInode L g m = cp_NewStruct L g (24, 3) m"

definition NewRootInode where [schema]:
  "NewRootInode L g m = cp_NewRootStruct L g (24, 3) m"

definition ReadRootInode where [schema]:
  "ReadRootInode L m = root_at L m"

definition Inode_Name where [schema]:
  "Inode_Name L s m = text_at L s 0 m"

definition Inode_HasName where [schema]:
  "Inode_HasName L s m = has_at L s 0 m"

definition Inode_NameBytes where [schema]:
  "Inode_NameBytes L s m = bytes_at L s 0 m"

definition Inode_SetName where [schema]:
  "Inode_SetName L s v m = cp_SetText L s 0 v m"

definition Inode_Size where [schema]:
  "Inode_Size L s m = cp_Uint64 L s 0 m"

definition Inode_SetSize where [schema]:
  "Inode_SetSize L s v m = cp_SetUint64 L s 0 v m"

definition Inode_Attributes where [schema]:
  "Inode_Attributes L s = s"

definition Inode_attributes_Which where [schema]:
  "Inode_attributes_Which L s m = cp_Uint16 L s 8 m"

definition Inode_attributes_Dir where [schema]:
  "Inode_attributes_Dir L s m = (if cp_Uint16 L s 8 m \<noteq> 0 then panic else ret (struct_at L s 1 m))"

definition Inode_attributes_HasDir where [schema]:
  "Inode_attributes_HasDir L s m = (if cp_Uint16 L s 8 m \<noteq> 0 then False else has_at L s 1 m)"

definition Inode_attributes_SetDir where [schema]:
  "Inode_attributes_SetDir L s v m =
     do { m1 \<leftarrow> cp_SetUint16 L s 8 0 m; cp_SetPtr L s 1 (cp_StructPtr L v) m1 }"

definition Inode_attributes_NewDir where [schema]:
  "Inode_attributes_NewDir L s m =
     do {
        m1 \<leftarrow> cp_SetUint16 L s 8 0 m;
        case NewSubDir L (cp_Segment L s) m1 of
          ((ss, Some err), m2) \<Rightarrow> ret ((cp_nil L, Some err), m2)
        | ((ss, None), m2) \<Rightarrow>
            do { (err, m3) \<leftarrow> cp_SetPtr L s 1 (cp_StructPtr L ss) m2; ret ((ss, err), m3) }
      }"

definition Inode_attributes_File where [schema]:
  "Inode_attributes_File L s m = (if cp_Uint16 L s 8 m \<noteq> 1 then panic else ret (struct_at L s 1 m))"

definition Inode_attributes_HasFile where [schema]:
  "Inode_attributes_HasFile L s m = (if cp_Uint16 L s 8 m \<noteq> 1 then False else has_at L s 1 m)"

definition Inode_attributes_SetFile where [schema]:
  "Inode_attributes_SetFile L s v m =
     do { m1 \<leftarrow> cp_SetUint16 L s 8 1 m; cp_SetPtr L s 1 (cp_StructPtr L v) m1 }"

definition Inode_attributes_NewFile where [schema]:
  "Inode_attributes_NewFile L s m =
     do {
        m1 \<leftarrow> cp_SetUint16 L s 8 1 m;
        case NewFile L (cp_Segment L s) m1 of
          ((ss, Some err), m2) \<Rightarrow> ret ((cp_nil L, Some err), m2)
        | ((ss, None), m2) \<Rightarrow>
            do { (err, m3) \<leftarrow> cp_SetPtr L s 1 (cp_StructPtr L ss) m2; ret ((ss, err), m3) }
      }"

definition Inode_attributes_Link where [schema]:
  "Inode_attributes_Link L s m = (if cp_Uint16 L s 8 m \<noteq> 2 then panic else ret (struct_at L s 1 m))"

definition Inode_attributes_HasLink where [schema]:
  "Inode_attributes_HasLink L s m = (if cp_Uint16 L s 8 m \<noteq> 2 then False else has_at L s 1 m)"

definition Inode_attributes_SetLink where [schema]:
  "Inode_attributes_SetLink L s v m =
     do { m1 \<leftarrow> cp_SetUint16 L s 8 2 m; cp_SetPtr L s 1 (cp_StructPtr L v) m1 }"

definition Inode_attributes_NewLink where [schema]:
  "Inode_attributes_NewLink L s m =
     do {
        m1 \<leftarrow> cp_SetUint16 L s 8 2 m;
        case NewLink L (cp_Segment L s) m1 of
          ((ss, Some err), m2) \<Rightarrow> ret ((cp_nil L, Some err), m2)
        | ((ss, None), m2) \<Rightarrow>
            do { (err, m3) \<leftarrow> cp_SetPtr L s 1 (cp_StructPtr L ss) m2; ret ((ss, err), m3) }
      }"

definition Inode_attributes_Special where [schema]:
  "Inode_attributes_Special L s m = (if cp_Uint16 L s 8 m \<noteq> 3 then panic else ret (struct_at L s 1 m))"

definition Inode_attributes_HasSpecial where [schema]:
  "Inode_attributes_HasSpecial L s m = (if cp_Uint16 L s 8 m \<noteq> 3 then False else has_at L s 1 m)"

definition Inode_attributes_SetSpecial where [schema]:
  "Inode_attributes_SetSpecial L s v m =
     do { m1 \<leftarrow> cp_SetUint16 L s 8 3 m; cp_SetPtr L s 1 (cp_StructPtr L v) m1 }"

definition Inode_attributes_NewSpecial where [schema]:
  "Inode_attributes_NewSpecial L s m =
     do {
        m1 \<leftarrow> cp_SetUint16 L s 8 3 m;
        case NewSpecial L (cp_Segment L s) m1 of
          ((ss, Some err), m2) \<Rightarrow> ret ((cp_nil L, Some err), m2)
        | ((ss, None), m2) \<Rightarrow>
            do { (err, m3) \<leftarrow> cp_SetPtr L s 1 (cp_StructPtr L ss) m2; ret ((ss, err), m3) }
      }"

definition Inode_Aclkey where [schema]:
  "Inode_Aclkey L s m = text_at L s 2 m"

definition Inode_HasAclkey where [schema]:
  "Inode_HasAclkey L s m = has_at L s 2 m"

definition Inode_AclkeyBytes where [schema]:
  "Inode_AclkeyBytes L s m = bytes_at L s 2 m"

definition Inode_SetAclkey where [schema]:
  "Inode_SetAclkey L s v m = cp_SetText L s 2 v m"

definition Inode_ModificationTime where [schema]:
  "Inode_ModificationTime L s m = cp_Uint32 L s 12 m"

definition Inode_SetModificationTime where [schema]:
  "Inode_SetModificationTime L s v m = cp_SetUint32 L s 12 v m"

definition Inode_CreationTime where [schema]:
  "Inode_CreationTime L s m = cp_Uint32 L s 16 m"

definition Inode_SetCreationTime where [schema]:
  "Inode_SetCreationTime L s v m = cp_SetUint32 L s 16 v m"

definition NewInode_List where [schema]:
  "NewInode_List L g sz m = cp_NewCompositeList L g (24, 3) sz m"

definition Inode_List_At where [schema]:
  "Inode_List_At L l i = cp_At L l i"

definition Inode_List_Set where [schema]:
  "Inode_List_Set L l i v m = cp_SetStruct L l i v m"


section \<open>Directories\<close>

definition NewDir where [schema]:
  "NewDir L g m = cp_NewStruct L g (16, 5) m"

definition NewRootDir where [schema]:
  "NewRootDir L g m = cp_NewRootStruct L g (16, 5) m"

definition ReadRootDir where [schema]:
  "ReadRootDir L m = root_at L m"

definition Dir_Name where [schema]:
  "Dir_Name L s m = text_at L s 0 m"

definition Dir_HasName where [schema]:
  "Dir_HasName L s m = has_at L s 0 m"

definition Dir_NameBytes where [schema]:
  "Dir_NameBytes L s m = bytes_at L s 0 m"

definition Dir_SetName where [schema]:
  "Dir_SetName L s v m = cp_SetText L s 0 v m"

definition Dir_Location where [schema]:
  "Dir_Location L s m = text_at L s 1 m"

definition Dir_HasLocation where [schema]:
  "Dir_HasLocation L s m = has_at L s 1 m"

definition Dir_LocationBytes where [schema]:
  "Dir_LocationBytes L s m = bytes_at L s 1 m"

definition Dir_SetLocation where [schema]:
  "Dir_SetLocation L s v m = cp_SetText L s 1 v m"

definition Dir_Contents where [schema]:
  "Dir_Contents L s m = list_at L s 2 m"

definition Dir_HasContents where [schema]:
  "Dir_HasContents L s m = has_at L s 2 m"

definition Dir_SetContents where [schema]:
  "Dir_SetContents L s v m = cp_SetPtr L s 2 (cp_ListPtr L v) m"

definition Dir_NewContents where [schema]:
  "Dir_NewContents L s n m =
     (case NewInode_List L (cp_Segment L s) n m of
        ((l, Some err), m1) \<Rightarrow> ret ((cp_nil_list L, Some err), m1)
      | ((l, None), m1) \<Rightarrow>
          do { (err, m2) \<leftarrow> cp_SetPtr L s 2 (cp_ListPtr L l) m1; ret ((l, err), m2) })"

definition Dir_Parent where [schema]:
  "Dir_Parent L s m = text_at L s 3 m"

definition Dir_HasParent where [schema]:
  "Dir_HasParent L s m = has_at L s 3 m"

definition Dir_ParentBytes where [schema]:
  "Dir_ParentBytes L s m = bytes_at L s 3 m"

definition Dir_SetParent where [schema]:
  "Dir_SetParent L s v m = cp_SetText L s 3 v m"

definition Dir_Size where [schema]:
  "Dir_Size L s m = cp_Uint64 L s 0 m"

definition Dir_SetSize where [schema]:
  "Dir_SetSize L s v m = cp_SetUint64 L s 0 v m"

definition Dir_Aclkey where [schema]:
  "Dir_Aclkey L s m = text_at L s 4 m"

definition Dir_HasAclkey where [schema]:
  "Dir_HasAclkey L s m = has_at L s 4 m"

definition Dir_AclkeyBytes where [schema]:
  "Dir_AclkeyBytes L s m = bytes_at L s 4 m"

definition Dir_SetAclkey where [schema]:
  "Dir_SetAclkey L s v m = cp_SetText L s 4 v m"

definition Dir_ModificationTime where [schema]:
  "Dir_ModificationTime L s m = cp_Uint32 L s 8 m"

definition Dir_SetModificationTime where [schema]:
  "Dir_SetModificationTime L s v m = cp_SetUint32 L s 8 v m"

definition Dir_CreationTime where [schema]:
  "Dir_CreationTime L s m = cp_Uint32 L s 12 m"

definition Dir_SetCreationTime where [schema]:
  "Dir_SetCreationTime L s v m = cp_SetUint32 L s 12 v m"

definition NewDir_List where [schema]:
  "NewDir_List L g sz m = cp_NewCompositeList L g (16, 5) sz m"

definition Dir_List_At where [schema]:
  "Dir_List_At L l i = cp_At L l i"

definition Dir_List_Set where [schema]:
  "Dir_List_Set L l i v m = cp_SetStruct L l i v m"


section \<open>Users and access control\<close>

definition NewUserGroup where [schema]:
  "NewUserGroup L g m = cp_NewStruct L g (8, 2) m"

definition NewRootUserGroup where [schema]:
  "NewRootUserGroup L g m = cp_NewRootStruct L g (8, 2) m"

definition ReadRootUserGroup where [schema]:
  "ReadRootUserGroup L m = root_at L m"

definition UserGroup_Name where [schema]:
  "UserGroup_Name L s m = text_at L s 0 m"

definition UserGroup_HasName where [schema]:
  "UserGroup_HasName L s m = has_at L s 0 m"

definition UserGroup_NameBytes where [schema]:
  "UserGroup_NameBytes L s m = bytes_at L s 0 m"

definition UserGroup_SetName where [schema]:
  "UserGroup_SetName L s v m = cp_SetText L s 0 v m"

definition UserGroup_IyoId where [schema]:
  "UserGroup_IyoId L s m = text_at L s 1 m"

definition UserGroup_HasIyoId where [schema]:
  "UserGroup_HasIyoId L s m = has_at L s 1 m"

definition UserGroup_IyoIdBytes where [schema]:
  "UserGroup_IyoIdBytes L s m = bytes_at L s 1 m"

definition UserGroup_SetIyoId where [schema]:
  "UserGroup_SetIyoId L s v m = cp_SetText L s 1 v m"

definition UserGroup_IyoInt where [schema]:
  "UserGroup_IyoInt L s m = cp_Uint64 L s 0 m"

definition UserGroup_SetIyoInt where [schema]:
  "UserGroup_SetIyoInt L s v m = cp_SetUint64 L s 0 v m"

definition NewUserGroup_List where [schema]:
  "NewUserGroup_List L g sz m = cp_NewCompositeList L g (8, 2) sz m"

definition UserGroup_List_At where [schema]:
  "UserGroup_List_At L l i = cp_At L l i"

definition UserGroup_List_Set where [schema]:
  "UserGroup_List_Set L l i v m = cp_SetStruct L l i v m"

definition NewACI where [schema]:
  "NewACI L g m = cp_NewStruct L g (24, 3) m"

definition NewRootACI where [schema]:
  "NewRootACI L g m = cp_NewRootStruct L g (24, 3) m"

definition ReadRootACI where [schema]:
  "ReadRootACI L m = root_at L m"

definition ACI_Uname where [schema]:
  "ACI_Uname L s m = text_at L s 0 m"

definition ACI_HasUname where [schema]:
  "ACI_HasUname L s m = has_at L s 0 m"

definition ACI_UnameBytes where [schema]:
  "ACI_UnameBytes L s m = bytes_at L s 0 m"

definition ACI_SetUname where [schema]:
  "ACI_SetUname L s v m = cp_SetText L s 0 v m"

definition ACI_Gname where [schema]:
  "ACI_Gname L s m = text_at L s 1 m"

definition ACI_HasGname where [schema]:
  "ACI_HasGname L s m = has_at L s 1 m"

definition ACI_GnameBytes where [schema]:
  "ACI_GnameBytes L s m = bytes_at L s 1 m"

definition ACI_SetGname where [schema]:
  "ACI_SetGname L s v m = cp_SetText L s 1 v m"

definition ACI_Mode where [schema]:
  "ACI_Mode L s m = cp_Uint16 L s 0 m"

definition ACI_SetMode where [schema]:
  "ACI_SetMode L s v m = cp_SetUint16 L s 0 v m"

definition ACI_Rights where [schema]:
  "ACI_Rights L s m = list_at L s 2 m"

definition ACI_HasRights where [schema]:
  "ACI_HasRights L s m = has_at L s 2 m"

definition ACI_SetRights where [schema]:
  "ACI_SetRights L s v m = cp_SetPtr L s 2 (cp_ListPtr L v) m"

definition NewACI_Right_List where [schema]:
  "NewACI_Right_List L g sz m = cp_NewCompositeList L g (8, 1) sz m"

definition ACI_NewRights where [schema]:
  "ACI_NewRights L s n m =
     (case NewACI_Right_List L (cp_Segment L s) n m of
        ((l, Some err), m1) \<Rightarrow> ret ((cp_nil_list L, Some err), m1)
      | ((l, None), m1) \<Rightarrow>
          do { (err, m2) \<leftarrow> cp_SetPtr L s 2 (cp_ListPtr L l) m1; ret ((l, err), m2) })"

definition ACI_Id where [schema]:
  "ACI_Id L s m = cp_Uint32 L s 4 m"

definition ACI_SetId where [schema]:
  "ACI_SetId L s v m = cp_SetUint32 L s 4 v m"

definition ACI_Uid where
  "ACI_Uid L s m = sint (cp_Uint64 L s 8 m XOR 18446744073709551615)"

definition ACI_SetUid where [schema]:
  "ACI_SetUid L s v m = cp_SetUint64 L s 8 (word_of_int v XOR 18446744073709551615) m"

definition ACI_Gid where
  "ACI_Gid L s m = sint (cp_Uint64 L s 16 m XOR 18446744073709551615)"

definition ACI_SetGid where [schema]:
  "ACI_SetGid L s v m = cp_SetUint64 L s 16 (word_of_int v XOR 18446744073709551615) m"

definition NewACI_List where [schema]:
  "NewACI_List L g sz m = cp_NewCompositeList L g (24, 3) sz m"

definition ACI_List_At where [schema]:
  "ACI_List_At L l i = cp_At L l i"

definition ACI_List_Set where [schema]:
  "ACI_List_Set L l i v m = cp_SetStruct L l i v m"

definition NewACI_Right where [schema]:
  "NewACI_Right L g m = cp_NewStruct L g (8, 1) m"

definition NewRootACI_Right where [schema]:
  "NewRootACI_Right L g m = cp_NewRootStruct L g (8, 1) m"

definition ReadRootACI_Right where [schema]:
  "ReadRootACI_Right L m = root_at L m"

definition ACI_Right_Right where [schema]:
  "ACI_Right_Right L s m = text_at L s 0 m"

definition ACI_Right_HasRight where [schema]:
  "ACI_Right_HasRight L s m = has_at L s 0 m"

definition ACI_Right_RightBytes where [schema]:
  "ACI_Right_RightBytes L s m = bytes_at L s 0 m"

definition ACI_Right_SetRight where [schema]:
  "ACI_Right_SetRight L s v m = cp_SetText L s 0 v m"

definition ACI_Right_Usergroupid where [schema]:
  "ACI_Right_Usergroupid L s m = cp_Uint16 L s 0 m"

definition ACI_Right_SetUsergroupid where [schema]:
  "ACI_Right_SetUsergroupid L s v m = cp_SetUint16 L s 0 v m"

definition ACI_Right_List_At where [schema]:
  "ACI_Right_List_At L l i = cp_At L l i"

definition ACI_Right_List_Set where [schema]:
  "ACI_Right_List_Set L l i v m = cp_SetStruct L l i v m"

end
