(* ===== verification/Layouts.thy ===== *)
theory Layouts
  imports Schema
begin

text \<open>
  The layout of the structs of a flist is right: what the library promises is stated as named laws, and
  under them every setter of an inode, a directory and an ACI changes its own field and no other one,
  the union of an inode holds one variant at a time, and a new ACI reads as the defaults of the schema.
  A library in memory shows that the laws can hold.
\<close>

named_theorems views \<open>the fields of a struct, read by its accessors\<close>

section \<open>What the library promises\<close>

text \<open>
  The documented behaviour the schema relies on. A new struct is empty and of the size asked for. A
  write inside of a struct is read back, and leaves the other bytes and the other slots of the struct
  alone; a write of text, of data or of a pointer can fail for want of space, and then nothing is
  promised about its own slot. An element inside of a list can be taken.
\<close>

definition same_slot :: "('m, 'g, 's, 'p, 'l) capnp \<Rightarrow> 's \<Rightarrow> nat \<Rightarrow> 'm \<Rightarrow> 'm \<Rightarrow> bool" where
  "same_slot L s i m m' \<longleftrightarrow>
     cp_Ptr L s i m' = cp_Ptr L s i m \<and> text_at L s i m' = text_at L s i m \<and>
     bytes_at L s i m' = bytes_at L s i m \<and> data_at L s i m' = data_at L s i m"

definition same_data :: "('m, 'g, 's, 'p, 'l) capnp \<Rightarrow> 's \<Rightarrow> nat \<Rightarrow> nat \<Rightarrow> 'm \<Rightarrow> 'm \<Rightarrow> bool" where
  "same_data L s a b m m' \<longleftrightarrow>
     (\<forall>k. k + 2 \<le> a \<or> b \<le> k \<longrightarrow> cp_Uint16 L s k m' = cp_Uint16 L s k m) \<and>
     (\<forall>k. k + 4 \<le> a \<or> b \<le> k \<longrightarrow> cp_Uint32 L s k m' = cp_Uint32 L s k m) \<and>
     (\<forall>k. k + 8 \<le> a \<or> b \<le> k \<longrightarrow> cp_Uint64 L s k m' = cp_Uint64 L s k m)"

definition data_written :: "('m, 'g, 's, 'p, 'l) capnp \<Rightarrow> 's \<Rightarrow> nat \<Rightarrow> nat \<Rightarrow> 'm \<Rightarrow> 'm \<Rightarrow> bool" where
  "data_written L s a b m m' \<longleftrightarrow> same_data L s a b m m' \<and> (\<forall>i. same_slot L s i m m')"

definition slot_written :: "('m, 'g, 's, 'p, 'l) capnp \<Rightarrow> 's \<Rightarrow> nat \<Rightarrow> 'm \<Rightarrow> 'm \<Rightarrow> bool" where
  "slot_written L s i m m' \<longleftrightarrow> same_data L s 0 0 m m' \<and> (\<forall>j. j \<noteq> i \<longrightarrow> same_slot L s j m m')"

definition fresh_struct :: "('m, 'g, 's, 'p, 'l) capnp \<Rightarrow> 's \<Rightarrow> 'm \<Rightarrow> bool" where
  "fresh_struct L s m \<longleftrightarrow>
     (\<forall>k. cp_Uint16 L s k m = 0 \<and> cp_Uint32 L s k m = 0 \<and> cp_Uint64 L s k m = 0) \<and>
     (\<forall>i. \<not> has_at L s i m \<and> text_at L s i m = ([], None) \<and> data_at L s i m = ([], None))"

definition data_laws :: "('m, 'g, 's, 'p, 'l) capnp \<Rightarrow> bool" where
  "data_laws L \<longleftrightarrow>
     (\<forall>s k v m. k + 2 \<le> fst (cp_Size L s) \<longrightarrow>
        (\<exists>m'. cp_SetUint16 L s k v m = ret m' \<and> cp_Uint16 L s k m' = v \<and> data_written L s k (k + 2) m m')) \<and>
     (\<forall>s k v m. k + 4 \<le> fst (cp_Size L s) \<longrightarrow>
        (\<exists>m'. cp_SetUint32 L s k v m = ret m' \<and> cp_Uint32 L s k m' = v \<and> data_written L s k (k + 4) m m')) \<and>
     (\<forall>s k v m. k + 8 \<le> fst (cp_Size L s) \<longrightarrow>
        (\<exists>m'. cp_SetUint64 L s k v m = ret m' \<and> cp_Uint64 L s k m' = v \<and> data_written L s k (k + 8) m m'))"

definition slot_laws :: "('m, 'g, 's, 'p, 'l) capnp \<Rightarrow> bool" where
  "slot_laws L \<longleftrightarrow>
     (\<forall>s i v m. i < snd (cp_Size L s) \<longrightarrow>
        (\<exists>err m'. cp_SetText L s i v m = ret (err, m') \<and> slot_written L s i m m' \<and>
           (err = None \<longrightarrow> text_at L s i m' = (v, None)))) \<and>
     (\<forall>s i v m. i < snd (cp_Size L s) \<longrightarrow>
        (\<exists>err m'. cp_SetData L s i v m = ret (err, m') \<and> slot_written L s i m m' \<and>
           (err = None \<longrightarrow> data_at L s i m' = (v, None)))) \<and>
     (\<forall>s i t m. i < snd (cp_Size L s) \<longrightarrow> cp_same L (cp_Segment L t) (cp_Segment L s) \<longrightarrow>
        (\<exists>err m'. cp_SetPtr L s i (cp_StructPtr L t) m = ret (err, m') \<and> slot_written L s i m m' \<and>
           (err = None \<longrightarrow> has_at L s i m' \<and> struct_at L s i m' = (t, None))))"

definition new_laws :: "('m, 'g, 's, 'p, 'l) capnp \<Rightarrow> bool" where
  "new_laws L \<longleftrightarrow>
     (\<forall>g sz m s m'. cp_NewStruct L g sz m = ((s, None), m') \<longrightarrow>
        cp_Size L s = sz \<and> cp_same L (cp_Segment L s) g \<and> fresh_struct L s m' \<and>
        (\<forall>t. t \<noteq> s \<longrightarrow> same_data L t 0 0 m m' \<and> (\<forall>i. same_slot L t i m m')))"

definition list_laws :: "('m, 'g, 's, 'p, 'l) capnp \<Rightarrow> bool" where
  "list_laws L \<longleftrightarrow> (\<forall>l i. 0 \<le> i \<and> i < cp_Len L l \<longrightarrow> cp_At L l i \<noteq> panic)"

lemma slot_accessors:
  assumes "same_slot L s i m m'"
  shows "struct_at L s i m' = struct_at L s i m" "list_at L s i m' = list_at L s i m"
    "has_at L s i m' = has_at L s i m" "text_at L s i m' = text_at L s i m"
    "bytes_at L s i m' = bytes_at L s i m" "data_at L s i m' = data_at L s i m"
  using assms by (simp_all add: same_slot_def struct_at_def list_at_def has_at_def)

lemma data_frame:
  assumes "data_written L s a b m m'"
  shows "k + 2 \<le> a \<or> b \<le> k \<Longrightarrow> cp_Uint16 L s k m' = cp_Uint16 L s k m"
    and "k + 4 \<le> a \<or> b \<le> k \<Longrightarrow> cp_Uint32 L s k m' = cp_Uint32 L s k m"
    and "k + 8 \<le> a \<or> b \<le> k \<Longrightarrow> cp_Uint64 L s k m' = cp_Uint64 L s k m"
    and "struct_at L s i m' = struct_at L s i m" "list_at L s i m' = list_at L s i m"
    "has_at L s i m' = has_at L s i m" "text_at L s i m' = text_at L s i m" "data_at L s i m' = data_at L s i m"
  using assms slot_accessors [of L s i m m'] by (auto simp: data_written_def same_data_def)

lemma slot_frame:
  assumes "slot_written L s i m m'"
  shows "cp_Uint16 L s k m' = cp_Uint16 L s k m" "cp_Uint32 L s k m' = cp_Uint32 L s k m"
    "cp_Uint64 L s k m' = cp_Uint64 L s k m"
    and "j \<noteq> i \<Longrightarrow> struct_at L s j m' = struct_at L s j m" "j \<noteq> i \<Longrightarrow> list_at L s j m' = list_at L s j m"
    "j \<noteq> i \<Longrightarrow> has_at L s j m' = has_at L s j m" "j \<noteq> i \<Longrightarrow> text_at L s j m' = text_at L s j m"
    "j \<noteq> i \<Longrightarrow> data_at L s j m' = data_at L s j m"
  using assms slot_accessors [of L s j m m'] by (auto simp: slot_written_def same_data_def)

text \<open>The laws as rules on a write that is known to have happened.\<close>

lemma data_rules:
  assumes "data_laws L"
  shows "k + 2 \<le> fst (cp_Size L s) \<Longrightarrow>
      \<exists>m'. cp_SetUint16 L s k v2 m = ret m' \<and> cp_Uint16 L s k m' = v2 \<and> data_written L s k (k + 2) m m'"
    and "k + 4 \<le> fst (cp_Size L s) \<Longrightarrow>
      \<exists>m'. cp_SetUint32 L s k v4 m = ret m' \<and> cp_Uint32 L s k m' = v4 \<and> data_written L s k (k + 4) m m'"
    and "k + 8 \<le> fst (cp_Size L s) \<Longrightarrow>
      \<exists>m'. cp_SetUint64 L s k v8 m = ret m' \<and> cp_Uint64 L s k m' = v8 \<and> data_written L s k (k + 8) m m'"
  using assms by (simp_all add: data_laws_def)

lemma slot_rules:
  assumes "slot_laws L" "i < snd (cp_Size L s)"
  shows "\<exists>err m'. cp_SetText L s i t m = ret (err, m') \<and> slot_written L s i m m' \<and>
      (err = None \<longrightarrow> text_at L s i m' = (t, None))"
    and "\<exists>err m'. cp_SetData L s i d m = ret (err, m') \<and> slot_written L s i m m' \<and>
      (err = None \<longrightarrow> data_at L s i m' = (d, None))"
    and "cp_same L (cp_Segment L u) (cp_Segment L s) \<Longrightarrow>
      \<exists>err m'. cp_SetPtr L s i (cp_StructPtr L u) m = ret (err, m') \<and> slot_written L s i m m' \<and>
      (err = None \<longrightarrow> has_at L s i m' \<and> struct_at L s i m' = (u, None))"
  using assms by (simp_all add: slot_laws_def)

section \<open>The fields of a struct\<close>

text \<open>A setter is an update of one field of these records; for an inode see below for the union.\<close>

record 's inode_fields =
  if_Name :: "string \<times> merr option"
  if_Size :: u64
  if_Which :: u16
  if_Attr :: "'s \<times> merr option"              \<comment> \<open>the slot of the union, whatever its tag\<close>
  if_Aclkey :: "string \<times> merr option"
  if_ModificationTime :: u32
  if_CreationTime :: u32

definition Inode_fields :: "('m, 'g, 's, 'p, 'l) capnp \<Rightarrow> 's \<Rightarrow> 'm \<Rightarrow> 's inode_fields" where [views]:
  "Inode_fields L s m =
     \<lparr>if_Name = Inode_Name L s m, if_Size = Inode_Size L s m, if_Which = Inode_attributes_Which L s m,
      if_Attr = struct_at L s 1 m, if_Aclkey = Inode_Aclkey L s m,
      if_ModificationTime = Inode_ModificationTime L s m, if_CreationTime = Inode_CreationTime L s m\<rparr>"

record 'l dir_fields =
  df_Name :: "string \<times> merr option"
  df_Location :: "string \<times> merr option"
  df_Contents :: "'l \<times> merr option"
  df_Parent :: "string \<times> merr option"
  df_Size :: u64
  df_Aclkey :: "string \<times> merr option"
  df_ModificationTime :: u32
  df_CreationTime :: u32

definition Dir_fields :: "('m, 'g, 's, 'p, 'l) capnp \<Rightarrow> 's \<Rightarrow> 'm \<Rightarrow> 'l dir_fields" where [views]:
  "Dir_fields L s m =
     \<lparr>df_Name = Dir_Name L s m, df_Location = Dir_Location L s m, df_Contents = Dir_Contents L s m,
      df_Parent = Dir_Parent L s m, df_Size = Dir_Size L s m, df_Aclkey = Dir_Aclkey L s m,
      df_ModificationTime = Dir_ModificationTime L s m, df_CreationTime = Dir_CreationTime L s m\<rparr>"

record 'l aci_fields =
  af_Uname :: "string \<times> merr option"
  af_Gname :: "string \<times> merr option"
  af_Mode :: u16
  af_Rights :: "'l \<times> merr option"
  af_Id :: u32
  af_Uid :: int
  af_Gid :: int

definition ACI_fields :: "('m, 'g, 's, 'p, 'l) capnp \<Rightarrow> 's \<Rightarrow> 'm \<Rightarrow> 'l aci_fields" where [views]:
  "ACI_fields L s m =
     \<lparr>af_Uname = ACI_Uname L s m, af_Gname = ACI_Gname L s m, af_Mode = ACI_Mode L s m,
      af_Rights = ACI_Rights L s m, af_Id = ACI_Id L s m, af_Uid = ACI_Uid L s m, af_Gid = ACI_Gid L s m\<rparr>"

text \<open>An id is stored XOR its default -1, and a 64 bit id is read back.\<close>

lemma int64_default:
  "- (2 ^ 63) \<le> v \<Longrightarrow> v < 2 ^ 63 \<Longrightarrow>
    sint ((word_of_int v XOR 18446744073709551615 :: u64) XOR 18446744073709551615) = v"
  by (simp add: xor.assoc signed_of_int signed_take_bit_int_eq_self)

lemma ACI_id_read:
  "cp_Uint64 L s 8 m = word_of_int v XOR 18446744073709551615 \<Longrightarrow> - (2 ^ 63) \<le> v \<Longrightarrow> v < 2 ^ 63 \<Longrightarrow> ACI_Uid L s m = v"
  "cp_Uint64 L s 16 m = word_of_int v XOR 18446744073709551615 \<Longrightarrow> - (2 ^ 63) \<le> v \<Longrightarrow> v < 2 ^ 63 \<Longrightarrow> ACI_Gid L s m = v"
  unfolding ACI_Uid_def ACI_Gid_def by (simp_all only: int64_default)

lemma ACI_id_frame:
  "cp_Uint64 L s 8 m' = cp_Uint64 L s 8 m \<Longrightarrow> ACI_Uid L s m' = ACI_Uid L s m"
  "cp_Uint64 L s 16 m' = cp_Uint64 L s 16 m \<Longrightarrow> ACI_Gid L s m' = ACI_Gid L s m"
  by (simp_all add: ACI_Uid_def ACI_Gid_def)

lemma Inode_SetName_field:
  assumes "slot_laws L" "cp_Size L s = (24, 3)"
  shows "\<exists>err n m'. Inode_SetName L s v m = ret (err, m') \<and>
      Inode_fields L s m' = (Inode_fields L s m)\<lparr>if_Name := n\<rparr> \<and> (err = None \<longrightarrow> n = (v, None))"
  using slot_rules(1) [OF assms(1), of 0 s v m] assms(2) by (fastforce simp: schema views intro: slot_frame)

lemma Inode_SetSize_field:
  assumes "data_laws L" "cp_Size L s = (24, 3)"
  shows "\<exists>m'. Inode_SetSize L s v m = ret m' \<and>
      Inode_fields L s m' = (Inode_fields L s m)\<lparr>if_Size := v\<rparr>"
  using data_rules(3) [OF assms(1), of 0 s v m] assms(2) by (fastforce simp: schema views intro: data_frame)

lemma Inode_SetAclkey_field:
  assumes "slot_laws L" "cp_Size L s = (24, 3)"
  shows "\<exists>err n m'. Inode_SetAclkey L s v m = ret (err, m') \<and>
      Inode_fields L s m' = (Inode_fields L s m)\<lparr>if_Aclkey := n\<rparr> \<and> (err = None \<longrightarrow> n = (v, None))"
  using slot_rules(1) [OF assms(1), of 2 s v m] assms(2) by (fastforce simp: schema views intro: slot_frame)

lemma Inode_SetModificationTime_field:
  assumes "data_laws L" "cp_Size L s = (24, 3)"
  shows "\<exists>m'. Inode_SetModificationTime L s v m = ret m' \<and>
      Inode_fields L s m' = (Inode_fields L s m)\<lparr>if_ModificationTime := v\<rparr>"
  using data_rules(2) [OF assms(1), of 12 s v m] assms(2) by (fastforce simp: schema views intro: data_frame)

lemma Inode_SetCreationTime_field:
  assumes "data_laws L" "cp_Size L s = (24, 3)"
  shows "\<exists>m'. Inode_SetCreationTime L s v m = ret m' \<and>
      Inode_fields L s m' = (Inode_fields L s m)\<lparr>if_CreationTime := v\<rparr>"
  using data_rules(2) [OF assms(1), of 16 s v m] assms(2) by (fastforce simp: schema views intro: data_frame)

lemma Dir_SetName_field:
  assumes "slot_laws L" "cp_Size L s = (16, 5)"
  shows "\<exists>err n m'. Dir_SetName L s v m = ret (err, m') \<and>
      Dir_fields L s m' = (Dir_fields L s m)\<lparr>df_Name := n\<rparr> \<and> (err = None \<longrightarrow> n = (v, None))"
  using slot_rules(1) [OF assms(1), of 0 s v m] assms(2) by (fastforce simp: schema views intro: slot_frame)

lemma Dir_SetLocation_field:
  assumes "slot_laws L" "cp_Size L s = (16, 5)"
  shows "\<exists>err n m'. Dir_SetLocation L s v m = ret (err, m') \<and>
      Dir_fields L s m' = (Dir_fields L s m)\<lparr>df_Location := n\<rparr> \<and> (err = None \<longrightarrow> n = (v, None))"
  using slot_rules(1) [OF assms(1), of 1 s v m] assms(2) by (fastforce simp: schema views intro: slot_frame)

lemma Dir_SetParent_field:
  assumes "slot_laws L" "cp_Size L s = (16, 5)"
  shows "\<exists>err n m'. Dir_SetParent L s v m = ret (err, m') \<and>
      Dir_fields L s m' = (Dir_fields L s m)\<lparr>df_Parent := n\<rparr> \<and> (err = None \<longrightarrow> n = (v, None))"
  using slot_rules(1) [OF assms(1), of 3 s v m] assms(2) by (fastforce simp: schema views intro: slot_frame)

lemma Dir_SetSize_field:
  assumes "data_laws L" "cp_Size L s = (16, 5)"
  shows "\<exists>m'. Dir_SetSize L s v m = ret m' \<and>
      Dir_fields L s m' = (Dir_fields L s m)\<lparr>df_Size := v\<rparr>"
  using data_rules(3) [OF assms(1), of 0 s v m] assms(2) by (fastforce simp: schema views intro: data_frame)

lemma Dir_SetAclkey_field:
  assumes "slot_laws L" "cp_Size L s = (16, 5)"
  shows "\<exists>err n m'. Dir_SetAclkey L s v m = ret (err, m') \<and>
      Dir_fields L s m' = (Dir_fields L s m)\<lparr>df_Aclkey := n\<rparr> \<and> (err = None \<longrightarrow> n = (v, None))"
  using slot_rules(1) [OF assms(1), of 4 s v m] assms(2) by (fastforce simp: schema views intro: slot_frame)

lemma Dir_SetModificationTime_field:
  assumes "data_laws L" "cp_Size L s = (16, 5)"
  shows "\<exists>m'. Dir_SetModificationTime L s v m = ret m' \<and>
      Dir_fields L s m' = (Dir_fields L s m)\<lparr>df_ModificationTime := v\<rparr>"
  using data_rules(2) [OF assms(1), of 8 s v m] assms(2) by (fastforce simp: schema views intro: data_frame)

lemma Dir_SetCreationTime_field:
  assumes "data_laws L" "cp_Size L s = (16, 5)"
  shows "\<exists>m'. Dir_SetCreationTime L s v m = ret m' \<and>
      Dir_fields L s m' = (Dir_fields L s m)\<lparr>df_CreationTime := v\<rparr>"
  using data_rules(2) [OF assms(1), of 12 s v m] assms(2) by (fastforce simp: schema views intro: data_frame)

lemma ACI_SetUname_field:
  assumes "slot_laws L" "cp_Size L s = (24, 3)"
  shows "\<exists>err n m'. ACI_SetUname L s v m = ret (err, m') \<and>
      ACI_fields L s m' = (ACI_fields L s m)\<lparr>af_Uname := n\<rparr> \<and> (err = None \<longrightarrow> n = (v, None))"
  using slot_rules(1) [OF assms(1), of 0 s v m] assms(2) by (fastforce simp: schema views intro: slot_frame ACI_id_frame)

lemma ACI_SetGname_field:
  assumes "slot_laws L" "cp_Size L s = (24, 3)"
  shows "\<exists>err n m'. ACI_SetGname L s v m = ret (err, m') \<and>
      ACI_fields L s m' = (ACI_fields L s m)\<lparr>af_Gname := n\<rparr> \<and> (err = None \<longrightarrow> n = (v, None))"
  using slot_rules(1) [OF assms(1), of 1 s v m] assms(2) by (fastforce simp: schema views intro: slot_frame ACI_id_frame)

lemma ACI_SetMode_field:
  assumes "data_laws L" "cp_Size L s = (24, 3)"
  shows "\<exists>m'. ACI_SetMode L s v m = ret m' \<and>
      ACI_fields L s m' = (ACI_fields L s m)\<lparr>af_Mode := v\<rparr>"
  using data_rules(1) [OF assms(1), of 0 s v m] assms(2) by (fastforce simp: schema views intro: data_frame ACI_id_frame ACI_id_read)

lemma ACI_SetId_field:
  assumes "data_laws L" "cp_Size L s = (24, 3)"
  shows "\<exists>m'. ACI_SetId L s v m = ret m' \<and>
      ACI_fields L s m' = (ACI_fields L s m)\<lparr>af_Id := v\<rparr>"
  using data_rules(2) [OF assms(1), of 4 s v m] assms(2) by (fastforce simp: schema views intro: data_frame ACI_id_frame ACI_id_read)

lemma ACI_SetUid_field:
  assumes "data_laws L" "cp_Size L s = (24, 3)"
  shows "- (2 ^ 63) \<le> v \<and> v < 2 ^ 63 \<Longrightarrow> \<exists>m'. ACI_SetUid L s v m = ret m' \<and>
      ACI_fields L s m' = (ACI_fields L s m)\<lparr>af_Uid := v\<rparr>"
  using data_rules(3) [OF assms(1), of 8 s "word_of_int v XOR 18446744073709551615" m] assms(2) by (fastforce simp: schema views intro: data_frame ACI_id_frame ACI_id_read)

lemma ACI_SetGid_field:
  assumes "data_laws L" "cp_Size L s = (24, 3)"
  shows "- (2 ^ 63) \<le> v \<and> v < 2 ^ 63 \<Longrightarrow> \<exists>m'. ACI_SetGid L s v m = ret m' \<and>
      ACI_fields L s m' = (ACI_fields L s m)\<lparr>af_Gid := v\<rparr>"
  using data_rules(3) [OF assms(1), of 16 s "word_of_int v XOR 18446744073709551615" m] assms(2) by (fastforce simp: schema views intro: data_frame ACI_id_frame ACI_id_read)

section \<open>The union of an inode\<close>

text \<open>The inode holds the variant of tag \<open>k\<close> and nothing else: its getter returns \<open>t\<close>, the getters of
  the other variants panic.\<close>

definition only_variant :: "('m, 'g, 's, 'p, 'l) capnp \<Rightarrow> 's \<Rightarrow> u16 \<Rightarrow> 's \<Rightarrow> 'm \<Rightarrow> bool" where
  "only_variant L s k t m \<longleftrightarrow>
     Inode_attributes_Which L s m = k \<and>
     Inode_attributes_Dir L s m = (if k = Which_dir then ret (t, None) else panic) \<and>
     Inode_attributes_File L s m = (if k = Which_file then ret (t, None) else panic) \<and>
     Inode_attributes_Link L s m = (if k = Which_link then ret (t, None) else panic) \<and>
     Inode_attributes_Special L s m = (if k = Which_special then ret (t, None) else panic) \<and>
     Inode_attributes_HasDir L s m = (k = Which_dir) \<and>
     Inode_attributes_HasFile L s m = (k = Which_file) \<and>
     Inode_attributes_HasLink L s m = (k = Which_link) \<and>
     Inode_attributes_HasSpecial L s m = (k = Which_special)"

text \<open>What it means that a call left the variant \<open>t\<close> of tag \<open>k\<close>: the rest of the inode is untouched.\<close>

definition variant_set :: "('m, 'g, 's, 'p, 'l) capnp \<Rightarrow> 's \<Rightarrow> u16 \<Rightarrow> 's \<Rightarrow> 'm \<Rightarrow> merr option \<Rightarrow> 'm \<Rightarrow> bool" where
  "variant_set L s k t m err m' \<longleftrightarrow>
     (\<exists>a. Inode_fields L s m' = (Inode_fields L s m)\<lparr>if_Which := k, if_Attr := a\<rparr>) \<and>
     (err = None \<longrightarrow> only_variant L s k t m')"

lemma variant_setI:
  "Inode_fields L s m' = (Inode_fields L s m)\<lparr>if_Which := k, if_Attr := a\<rparr> \<Longrightarrow>
    (err = None \<Longrightarrow> only_variant L s k t m') \<Longrightarrow> variant_set L s k t m err m'"
  unfolding variant_set_def by blast

lemma new_rules:
  assumes "new_laws L" "cp_NewStruct L g sz m = ((s, None), m')"
  shows "cp_Size L s = sz" "cp_same L (cp_Segment L s) g" "fresh_struct L s m'"
    "t \<noteq> s \<Longrightarrow> data_written L t 0 0 m m'"
  using assms unfolding new_laws_def data_written_def by blast+

lemma variant_written:
  assumes "data_laws L" "slot_laws L" "cp_Size L s = (24, 3)" "cp_same L (cp_Segment L t) (cp_Segment L s)"
    and "k = 0 \<or> k = 1 \<or> k = 2 \<or> k = 3"
  shows "\<exists>err m'. do { m1 \<leftarrow> cp_SetUint16 L s 8 k m; cp_SetPtr L s 1 (cp_StructPtr L t) m1 } = ret (err, m') \<and>
    variant_set L s k t m err m'"
proof -
  obtain m1 where m1: "cp_SetUint16 L s 8 k m = ret m1" "cp_Uint16 L s 8 m1 = k" "data_written L s 8 10 m m1"
    using data_rules(1) [OF assms(1), of 8 s k m] assms(3) by auto
  obtain err m' where m': "cp_SetPtr L s 1 (cp_StructPtr L t) m1 = ret (err, m')" "slot_written L s 1 m1 m'"
    "err = None \<longrightarrow> has_at L s 1 m' \<and> struct_at L s 1 m' = (t, None)"
    using slot_rules(3) [OF assms(2) _ assms(4), of 1 m1] assms(3) by auto
  have k: "cp_Uint16 L s 8 m' = k" using slot_frame(1) [OF m'(2)] m1(2) by simp
  have "Inode_fields L s m' = (Inode_fields L s m)\<lparr>if_Which := k, if_Attr := struct_at L s 1 m'\<rparr>"
    using data_frame [OF m1(3)] slot_frame [OF m'(2)] k by (simp add: schema views)
  moreover have "only_variant L s k t m'" if "err = None"
    using m'(3) that k assms(5) by (auto simp: only_variant_def schema)
  ultimately have "variant_set L s k t m err m'" by (rule variant_setI)
  then show ?thesis using m1(1) m'(1) by auto
qed

text \<open>A new struct for the variant is another struct than the inode, since their sizes differ.\<close>

lemma variant_allocated:
  assumes "data_laws L" "slot_laws L" "new_laws L" "cp_Size L s = (24, 3)" "sz \<noteq> (24, 3)"
    and "k = 0 \<or> k = 1 \<or> k = 2 \<or> k = 3"
    and "cp_SetUint16 L s 8 k m = ret m1" "cp_NewStruct L (cp_Segment L s) sz m1 = ((t, None), m2)"
  shows "\<exists>err m'. cp_SetPtr L s 1 (cp_StructPtr L t) m2 = ret (err, m') \<and> variant_set L s k t m err m' \<and>
    cp_Size L t = sz \<and> fresh_struct L t m2"
proof -
  note new = new_rules [OF assms(3,8)]
  have "t \<noteq> s" using new(1) assms(4,5) by auto
  note f2 = data_frame [OF new(4) [OF this [symmetric]]]
  have m1: "cp_Uint16 L s 8 m1 = k" "data_written L s 8 10 m m1"
    using data_rules(1) [OF assms(1), of 8 s k m] assms(4,7) by auto
  obtain err m' where m': "cp_SetPtr L s 1 (cp_StructPtr L t) m2 = ret (err, m')" "slot_written L s 1 m2 m'"
    "err = None \<longrightarrow> has_at L s 1 m' \<and> struct_at L s 1 m' = (t, None)"
    using slot_rules(3) [OF assms(2) _ new(2), of 1 m2] assms(4) by auto
  have k: "cp_Uint16 L s 8 m' = k" using slot_frame(1) [OF m'(2)] f2(1) m1(1) by simp
  have "Inode_fields L s m' = (Inode_fields L s m)\<lparr>if_Which := k, if_Attr := struct_at L s 1 m'\<rparr>"
    using data_frame [OF m1(2)] slot_frame [OF m'(2)] f2 k by (simp add: schema views)
  moreover have "only_variant L s k t m'" if "err = None"
    using m'(3) that k assms(6) by (auto simp: only_variant_def schema)
  ultimately have "variant_set L s k t m err m'" by (rule variant_setI)
  then show ?thesis using m'(1) new(1,3) by auto
qed

text \<open>The generated methods, one for each variant.\<close>

lemma variant_setters:
  assumes "data_laws L" "slot_laws L" "cp_Size L s = (24, 3)" "cp_same L (cp_Segment L t) (cp_Segment L s)"
  shows "\<exists>err m'. Inode_attributes_SetDir L s t m = ret (err, m') \<and> variant_set L s Which_dir t m err m'"
    "\<exists>err m'. Inode_attributes_SetFile L s t m = ret (err, m') \<and> variant_set L s Which_file t m err m'"
    "\<exists>err m'. Inode_attributes_SetLink L s t m = ret (err, m') \<and> variant_set L s Which_link t m err m'"
    "\<exists>err m'. Inode_attributes_SetSpecial L s t m = ret (err, m') \<and> variant_set L s Which_special t m err m'"
  unfolding Inode_attributes_SetDir_def Inode_attributes_SetFile_def Inode_attributes_SetLink_def
    Inode_attributes_SetSpecial_def
  by (rule variant_written [OF assms], simp)+

lemma allocated_variant:
  assumes "data_laws L" "slot_laws L" "new_laws L" "cp_Size L s = (24, 3)" "sz \<noteq> (24, 3)"
    and "k = 0 \<or> k = 1 \<or> k = 2 \<or> k = 3"
    and "do {
        m1 \<leftarrow> cp_SetUint16 L s 8 k m;
        case cp_NewStruct L (cp_Segment L s) sz m1 of
          ((ss, Some err), m2) \<Rightarrow> ret ((cp_nil L, Some err), m2)
        | ((ss, None), m2) \<Rightarrow>
            do { (err, m3) \<leftarrow> cp_SetPtr L s 1 (cp_StructPtr L ss) m2; ret ((ss, err), m3) }
      } = ret ((t, None), m')"
  shows "variant_set L s k t m None m' \<and> cp_Size L t = sz"
proof -
  obtain m1 where m1: "cp_SetUint16 L s 8 k m = ret m1" using data_rules(1) [OF assms(1), of 8 s k m] assms(4) by auto
  obtain u e m2 where new: "cp_NewStruct L (cp_Segment L s) sz m1 = ((u, e), m2)" by (metis prod.exhaust)
  then have e: "e = None" using assms(7) m1 by (cases e) auto
  obtain err m3 where "cp_SetPtr L s 1 (cp_StructPtr L u) m2 = ret (err, m3)" "variant_set L s k u m err m3"
    "cp_Size L u = sz" using variant_allocated [OF assms(1-6) m1] new e by blast
  then show ?thesis using assms(7) m1 new e by simp
qed

lemma variant_allocators:
  assumes "data_laws L" "slot_laws L" "new_laws L" "cp_Size L s = (24, 3)"
  shows "Inode_attributes_NewDir L s m = ret ((t, None), m') \<Longrightarrow>
      variant_set L s Which_dir t m None m' \<and> cp_Size L t = (0, 1)"
    "Inode_attributes_NewFile L s m = ret ((t, None), m') \<Longrightarrow>
      variant_set L s Which_file t m None m' \<and> cp_Size L t = (8, 1)"
    "Inode_attributes_NewLink L s m = ret ((t, None), m') \<Longrightarrow>
      variant_set L s Which_link t m None m' \<and> cp_Size L t = (0, 1)"
    "Inode_attributes_NewSpecial L s m = ret ((t, None), m') \<Longrightarrow>
      variant_set L s Which_special t m None m' \<and> cp_Size L t = (8, 1)"
  unfolding Inode_attributes_NewDir_def Inode_attributes_NewFile_def Inode_attributes_NewLink_def
    Inode_attributes_NewSpecial_def NewSubDir_def NewFile_def NewLink_def NewSpecial_def
  by (rule allocated_variant [OF assms]; (assumption | simp))+

section \<open>A library in memory\<close>

text \<open>
  A small implementation of the library, for the witnesses: a struct is a number and its size, a
  message maps every struct to its bytes and its slots, and numbers are stored with the lowest byte
  first.
\<close>

fun read_bytes :: "nat \<Rightarrow> (nat \<Rightarrow> nat) \<Rightarrow> nat \<Rightarrow> nat" where
  "read_bytes 0 f k = 0"
| "read_bytes (Suc n) f k = f k + 256 * read_bytes n f (Suc k)"

fun write_bytes :: "nat \<Rightarrow> nat \<Rightarrow> (nat \<Rightarrow> nat) \<Rightarrow> nat \<Rightarrow> nat \<Rightarrow> nat" where
  "write_bytes 0 x f k = f"
| "write_bytes (Suc n) x f k = (write_bytes n (x div 256) f (Suc k))(k := x mod 256)"

lemma read_bytes_cong: "(\<And>j. k \<le> j \<Longrightarrow> j < k + n \<Longrightarrow> f j = g j) \<Longrightarrow> read_bytes n f k = read_bytes n g k"
  by (induction n arbitrary: k) auto

lemma write_bytes_other: "j < k \<or> k + n \<le> j \<Longrightarrow> write_bytes n x f k j = f j"
  by (induction n arbitrary: x k) auto

lemma read_write_other: "i + w \<le> k \<or> k + n \<le> i \<Longrightarrow> read_bytes w (write_bytes n x f k) i = read_bytes w f i"
  by (rule read_bytes_cong) (auto intro: write_bytes_other)

lemma read_write: "x < 256 ^ n \<Longrightarrow> read_bytes n (write_bytes n x f k) k = x"
proof (induction n arbitrary: x k)
  case (Suc n)
  have "read_bytes n ((write_bytes n (x div 256) f (Suc k))(k := x mod 256)) (Suc k) =
      read_bytes n (write_bytes n (x div 256) f (Suc k)) (Suc k)"
    by (rule read_bytes_cong) auto
  also have "\<dots> = x div 256" using Suc.prems by (intro Suc.IH) (simp add: less_mult_imp_div_less mult.commute)
  finally have "read_bytes n ((write_bytes n (x div 256) f (Suc k))(k := x mod 256)) (Suc k) = x div 256" .
  then show ?case by (simp only: read_bytes.simps write_bytes.simps fun_upd_same mod_mult_div_eq)
qed simp

lemma read_zero: "read_bytes n (\<lambda>_. 0) k = 0"
  by (induction n arbitrary: k) auto

type_synonym mem_struct = "nat \<times> nat \<times> nat"

datatype mem_ptr = MNull | MText string | MData bytes | MStruct mem_struct | MList "mem_struct list"

record mem =
  mm_next :: nat
  mm_data :: "mem_struct \<Rightarrow> nat \<Rightarrow> nat"
  mm_slots :: "mem_struct \<Rightarrow> nat \<Rightarrow> mem_ptr"
  mm_root :: mem_ptr

definition mem_new :: "nat \<times> nat \<Rightarrow> mem \<Rightarrow> (mem_struct \<times> merr option) \<times> mem" where
  "mem_new sz m =
     (let s = (mm_next m, sz)
      in ((s, None), m\<lparr>mm_next := mm_next m + 1, mm_data := (mm_data m)(s := \<lambda>_. 0),
            mm_slots := (mm_slots m)(s := \<lambda>_. MNull)\<rparr>))"

definition mem_write :: "nat \<Rightarrow> mem_struct \<Rightarrow> nat \<Rightarrow> nat \<Rightarrow> mem \<Rightarrow> mem go" where
  "mem_write n s k x m =
     (if k + n \<le> fst (snd s) then ret (m\<lparr>mm_data := (mm_data m)(s := write_bytes n x (mm_data m s) k)\<rparr>) else panic)"

definition mem_put :: "mem_struct \<Rightarrow> nat \<Rightarrow> mem_ptr \<Rightarrow> mem \<Rightarrow> (merr option \<times> mem) go" where
  "mem_put s i p m =
     (if i < snd (snd s) then ret (None, m\<lparr>mm_slots := (mm_slots m)(s := (mm_slots m s)(i := p))\<rparr>) else panic)"

definition mem_capnp :: "(mem, unit, mem_struct, mem_ptr, mem_struct list) capnp" where
  "mem_capnp = \<lparr>
     cp_NewStruct = (\<lambda>g. mem_new),
     cp_NewRootStruct = (\<lambda>g sz m. case mem_new sz m of ((s, err), m1) \<Rightarrow> ((s, err), m1\<lparr>mm_root := MStruct s\<rparr>)),
     cp_NewCompositeList = (\<lambda>g sz n m.
       (([(mm_next m + i, sz). i \<leftarrow> [0..<nat n]], None), m\<lparr>mm_next := mm_next m + nat n\<rparr>)),
     cp_NewUInt16List = (\<lambda>g n m. (([(mm_next m + i, 2, 0). i \<leftarrow> [0..<nat n]], None), m\<lparr>mm_next := mm_next m + nat n\<rparr>)),
     cp_RootPtr = (\<lambda>m. (mm_root m, None)),
     cp_Segment = (\<lambda>s. ()), cp_same = (\<lambda>g h. True), cp_Size = snd,
     cp_Uint16 = (\<lambda>s k m. word_of_nat (read_bytes 2 (mm_data m s) k)),
     cp_Uint32 = (\<lambda>s k m. word_of_nat (read_bytes 4 (mm_data m s) k)),
     cp_Uint64 = (\<lambda>s k m. word_of_nat (read_bytes 8 (mm_data m s) k)),
     cp_SetUint16 = (\<lambda>s k v. mem_write 2 s k (unat v)),
     cp_SetUint32 = (\<lambda>s k v. mem_write 4 s k (unat v)),
     cp_SetUint64 = (\<lambda>s k v. mem_write 8 s k (unat v)),
     cp_Ptr = (\<lambda>s i m. (mm_slots m s i, None)),
     cp_SetPtr = mem_put,
     cp_SetText = (\<lambda>s i v. mem_put s i (if v = [] then MNull else MText v)),
     cp_SetData = (\<lambda>s i v. mem_put s i (MData v)),
     cp_IsValid = (\<lambda>p. p \<noteq> MNull),
     cp_Text = (\<lambda>p m. case p of MText v \<Rightarrow> v | _ \<Rightarrow> []),
     cp_TextBytes = (\<lambda>p m. case p of MText v \<Rightarrow> map of_char v | _ \<Rightarrow> []),
     cp_Data = (\<lambda>p m. case p of MData v \<Rightarrow> v | _ \<Rightarrow> []),
     cp_Struct = (\<lambda>p. case p of MStruct s \<Rightarrow> s | _ \<Rightarrow> (0, 0, 0)),
     cp_List = (\<lambda>p. case p of MList l \<Rightarrow> l | _ \<Rightarrow> []),
     cp_StructPtr = MStruct, cp_ListPtr = MList, cp_Len = (\<lambda>l. int (length l)),
     cp_At = (\<lambda>l i. if 0 \<le> i \<and> i < int (length l) then ret (l ! nat i) else panic),
     cp_SetStruct = (\<lambda>l i v m. if 0 \<le> i \<and> i < int (length l)
       then ret (None, m\<lparr>mm_data := (mm_data m)(l ! nat i := mm_data m v),
                         mm_slots := (mm_slots m)(l ! nat i := mm_slots m v)\<rparr>)
       else panic),
     cp_U16At = (\<lambda>l i m. if 0 \<le> i \<and> i < int (length l)
       then ret (word_of_nat (read_bytes 2 (mm_data m (l ! nat i)) 0)) else panic),
     cp_U16Set = (\<lambda>l i v m. if 0 \<le> i \<and> i < int (length l) then mem_write 2 (l ! nat i) 0 (unat v) m else panic),
     cp_nil = (0, 0, 0), cp_nil_list = []\<rparr>"

lemma word_bytes:
  "unat (v2 :: u16) < 256 ^ 2" "unat (v4 :: u32) < 256 ^ 4" "unat (v8 :: u64) < 256 ^ 8"
  using unsigned_less [of v2, where ?'a = nat] unsigned_less [of v4, where ?'a = nat]
    unsigned_less [of v8, where ?'a = nat] by simp_all

lemma mem_data_written:
  assumes "mem_write n s k x m = ret m'"
  shows "data_written mem_capnp s k (k + n) m m'"
proof -
  have m': "m' = m\<lparr>mm_data := (mm_data m)(s := write_bytes n x (mm_data m s) k)\<rparr>"
    using assms by (simp add: mem_write_def split: if_splits)
  have "read_bytes w (mm_data m' s) i = read_bytes w (mm_data m s) i" if "i + w \<le> k \<or> k + n \<le> i" for w i
    using read_write_other [OF that] by (simp add: m')
  then show ?thesis
    by (simp add: data_written_def same_data_def same_slot_def mem_capnp_def text_at_def bytes_at_def data_at_def m')
qed

lemma mem_slot_written:
  assumes "mem_put s i p m = ret (err, m')"
  shows "slot_written mem_capnp s i m m'"
proof -
  have "m' = m\<lparr>mm_slots := (mm_slots m)(s := (mm_slots m s)(i := p))\<rparr>"
    using assms by (simp add: mem_put_def split: if_splits)
  then show ?thesis
    by (simp add: slot_written_def same_data_def same_slot_def mem_capnp_def text_at_def bytes_at_def data_at_def)
qed

lemma mem_data_laws: "data_laws mem_capnp"
proof -
  have w: "\<exists>m'. mem_write n s k x m = ret m' \<and> read_bytes n (mm_data m' s) k = x \<and>
      data_written mem_capnp s k (k + n) m m'" if "k + n \<le> fst (snd s)" "x < 256 ^ n" for n s k x m
    using that mem_data_written [of n s k x m] read_write [OF that(2)] by (auto simp: mem_write_def)
  have "cp_SetUint16 mem_capnp = (\<lambda>s k v. mem_write 2 s k (unat v))"
    "cp_SetUint32 mem_capnp = (\<lambda>s k v. mem_write 4 s k (unat v))"
    "cp_SetUint64 mem_capnp = (\<lambda>s k v. mem_write 8 s k (unat v))" "cp_Size mem_capnp = snd"
    "cp_Uint16 mem_capnp = (\<lambda>s k m. word_of_nat (read_bytes 2 (mm_data m s) k))"
    "cp_Uint32 mem_capnp = (\<lambda>s k m. word_of_nat (read_bytes 4 (mm_data m s) k))"
    "cp_Uint64 mem_capnp = (\<lambda>s k m. word_of_nat (read_bytes 8 (mm_data m s) k))"
    by (simp_all add: mem_capnp_def)
  note sels = this
  show ?thesis unfolding data_laws_def sels
  proof (intro conjI allI impI, goal_cases)
    case (1 s k v m)
    then show ?case using w [OF 1 word_bytes(1) [of v], of m] by auto
  next
    case (2 s k v m)
    then show ?case using w [OF 2 word_bytes(2) [of v], of m] by auto
  next
    case (3 s k v m)
    then show ?case using w [OF 3 word_bytes(3) [of v], of m] by auto
  qed
qed

lemma mem_slot_laws: "slot_laws mem_capnp"
proof -
  have "\<exists>m'. mem_put s i p m = ret (None, m') \<and> mm_slots m' s i = p \<and> slot_written mem_capnp s i m m'"
    if "i < snd (snd s)" for s i p m
    using that mem_slot_written [of s i p m] by (auto simp: mem_put_def)
  note w = this
  have sels: "cp_SetText mem_capnp = (\<lambda>s i v. mem_put s i (if v = [] then MNull else MText v))"
    "cp_SetData mem_capnp = (\<lambda>s i v. mem_put s i (MData v))" "cp_SetPtr mem_capnp = mem_put"
    "cp_StructPtr mem_capnp = MStruct" "cp_Size mem_capnp = snd"
    "text_at mem_capnp = (\<lambda>s i m. (case mm_slots m s i of MText v \<Rightarrow> v | _ \<Rightarrow> [], None))"
    "data_at mem_capnp = (\<lambda>s i m. (case mm_slots m s i of MData v \<Rightarrow> v | _ \<Rightarrow> [], None))"
    "struct_at mem_capnp = (\<lambda>s i m. (case mm_slots m s i of MStruct t \<Rightarrow> t | _ \<Rightarrow> (0, 0, 0), None))"
    "has_at mem_capnp = (\<lambda>s i m. mm_slots m s i \<noteq> MNull)"
    by (simp_all add: mem_capnp_def text_at_def data_at_def struct_at_def has_at_def fun_eq_iff)
  show ?thesis unfolding slot_laws_def sels
  proof (intro conjI allI impI, goal_cases)
    case (1 s i v m)
    then show ?case using w [OF 1, of "if v = [] then MNull else MText v" m] by (auto split: if_splits)
  next
    case (2 s i v m)
    then show ?case using w [OF 2, of "MData v" m] by auto
  next
    case (3 s i t m)
    then show ?case using w [OF 3(1), of "MStruct t" m] by auto
  qed
qed

lemma mem_new_laws: "new_laws mem_capnp"
  by (auto simp: new_laws_def mem_capnp_def mem_new_def fresh_struct_def same_data_def same_slot_def
      text_at_def bytes_at_def data_at_def has_at_def read_zero Let_def)

lemma mem_list_laws: "list_laws mem_capnp"
  by (simp add: list_laws_def mem_capnp_def)

section \<open>Properties\<close>


definition mem_empty :: mem where
  "mem_empty = \<lparr>mm_next = 0, mm_data = (\<lambda>_ _. 0), mm_slots = (\<lambda>_ _. MNull), mm_root = MNull\<rparr>"


text \<open>The fields of an ACI do not overlap and fit into the size a new ACI is made with: a new one reads
  as empty names, no mode and the ids -1, and from then on each setter changes just its own field, which
  reads back as what was stored, for every 64 bit id.\<close>

theorem aci_layout:
  assumes "data_laws L" "slot_laws L" "new_laws L" "NewACI L g m0 = ((s, None), m1)"
  shows "ACI_Uname L s m1 = ([], None) \<and> ACI_Gname L s m1 = ([], None) \<and> \<not> ACI_HasRights L s m1 \<and>
    ACI_Mode L s m1 = 0 \<and> ACI_Id L s m1 = 0 \<and> ACI_Uid L s m1 = -1 \<and> ACI_Gid L s m1 = -1 \<and>
    (\<forall>m v. \<exists>err n m'. ACI_SetUname L s v m = ret (err, m') \<and>
      ACI_fields L s m' = (ACI_fields L s m)\<lparr>af_Uname := n\<rparr> \<and> (err = None \<longrightarrow> n = (v, None))) \<and>
    (\<forall>m v. \<exists>err n m'. ACI_SetGname L s v m = ret (err, m') \<and>
      ACI_fields L s m' = (ACI_fields L s m)\<lparr>af_Gname := n\<rparr> \<and> (err = None \<longrightarrow> n = (v, None))) \<and>
    (\<forall>m v. \<exists>m'. ACI_SetMode L s v m = ret m' \<and>
      ACI_fields L s m' = (ACI_fields L s m)\<lparr>af_Mode := v\<rparr>) \<and>
    (\<forall>m v. \<exists>m'. ACI_SetId L s v m = ret m' \<and>
      ACI_fields L s m' = (ACI_fields L s m)\<lparr>af_Id := v\<rparr>) \<and>
    (\<forall>m v. - (2 ^ 63) \<le> v \<and> v < 2 ^ 63 \<longrightarrow>
      (\<exists>m'. ACI_SetUid L s v m = ret m' \<and>
      ACI_fields L s m' = (ACI_fields L s m)\<lparr>af_Uid := v\<rparr>)) \<and>
    (\<forall>m v. - (2 ^ 63) \<le> v \<and> v < 2 ^ 63 \<longrightarrow>
      (\<exists>m'. ACI_SetGid L s v m = ret m' \<and>
      ACI_fields L s m' = (ACI_fields L s m)\<lparr>af_Gid := v\<rparr>))"
proof -
  have new: "cp_Size L s = (24, 3)" "fresh_struct L s m1"
    using new_rules [OF assms(3) assms(4) [unfolded NewACI_def]] by auto
  note data = ACI_SetMode_field [OF assms(1) new(1)] ACI_SetId_field [OF assms(1) new(1)]
    ACI_SetUid_field [OF assms(1) new(1)] ACI_SetGid_field [OF assms(1) new(1)]
  note slots = ACI_SetUname_field [OF assms(2) new(1)] ACI_SetGname_field [OF assms(2) new(1)]
  have "ACI_Uname L s m1 = ([], None)" "ACI_Gname L s m1 = ([], None)" "\<not> ACI_HasRights L s m1"
    "ACI_Mode L s m1 = 0" "ACI_Id L s m1 = 0" "ACI_Uid L s m1 = -1" "ACI_Gid L s m1 = -1"
    using new(2) by (simp_all add: fresh_struct_def schema ACI_Uid_def ACI_Gid_def)
  then show ?thesis by (intro conjI allI impI data slots) simp_all
qed

theorem aci_layout_witness:
  "\<exists>s m1 m2. NewACI mem_capnp () mem_empty = ((s, None), m1) \<and> ACI_Uid mem_capnp s m1 = -1 \<and>
    ACI_SetUid mem_capnp s 42 m1 = ret m2 \<and> ACI_Uid mem_capnp s m2 = 42 \<and> ACI_Gid mem_capnp s m2 = -1"
proof -
  obtain s m1 where new: "NewACI mem_capnp () mem_empty = ((s, None), m1)"
    by (simp add: NewACI_def mem_capnp_def mem_new_def Let_def)
  note aci = aci_layout [OF mem_data_laws mem_slot_laws mem_new_laws new]
  have fresh: "ACI_Uid mem_capnp s m1 = -1" "ACI_Gid mem_capnp s m1 = -1" using aci by blast+
  have set: "\<forall>m v. - (2 ^ 63) \<le> v \<and> v < 2 ^ 63 \<longrightarrow>
      (\<exists>m'. ACI_SetUid mem_capnp s v m = ret m' \<and> ACI_fields mem_capnp s m' = (ACI_fields mem_capnp s m)\<lparr>af_Uid := v\<rparr>)"
    using aci by blast
  have "- (2 ^ 63) \<le> (42 :: int) \<and> (42 :: int) < 2 ^ 63" by simp
  with set obtain m2 where "ACI_SetUid mem_capnp s 42 m1 = ret m2"
    "ACI_fields mem_capnp s m2 = (ACI_fields mem_capnp s m1)\<lparr>af_Uid := 42\<rparr>" by blast
  then show ?thesis using new fresh by (auto simp: ACI_fields_def)
qed

end
