(* ===== verification/Rows.thy ===== *)
theory Rows
  imports Layouts SqlStore
begin

text \<open>
  Reading a flist through the schema: the parts of meta/dir.go, meta/file.go and meta/store.go that call
  the accessors of cap.np/model.capnp.go, with the tag checks and the index checks at which they can
  panic. Theory SqlStore works on records instead; here the two are shown to agree, for every library
  whose lists can be indexed below their length.
\<close>

section \<open>What a struct says\<close>

text \<open>The records of theory Metas, read from a message. An error of an accessor that the code drops
  leaves the value beside it.\<close>

definition elements :: "('m, 'g, 's, 'p, 'l) capnp \<Rightarrow> 'l \<Rightarrow> 's list go" where
  "elements L l = those (map (\<lambda>i. cp_At L l (int i)) [0..<nat (cp_Len L l)])"

definition block_view :: "('m, 'g, 's, 'p, 'l) capnp \<Rightarrow> 's \<Rightarrow> 'm \<Rightarrow> np_block" where
  "block_view L b m = \<lparr>nb_hash = fst (FileBlock_Hash L b m), nb_key = fst (FileBlock_Key L b m)\<rparr>"

definition file_view :: "('m, 'g, 's, 'p, 'l) capnp \<Rightarrow> 's \<Rightarrow> 'm \<Rightarrow> np_file go" where
  "file_view L f m =
     do {
       bs \<leftarrow> elements L (fst (File_Blocks L f m));
       ret \<lparr>nf_BlockSize = File_BlockSize L f m, nf_HasBlocks = File_HasBlocks L f m,
            nf_Blocks = map (\<lambda>b. block_view L b m) bs\<rparr>
     }"

definition attributes_view :: "('m, 'g, 's, 'p, 'l) capnp \<Rightarrow> 's \<Rightarrow> 'm \<Rightarrow> np_attributes go" where
  "attributes_view L a m =
     (if Inode_attributes_Which L a m = Which_dir then
        do { (d, _) \<leftarrow> Inode_attributes_Dir L a m; ret (At_dir (fst (SubDir_Key L d m))) }
      else if Inode_attributes_Which L a m = Which_file then
        do { (f, _) \<leftarrow> Inode_attributes_File L a m; v \<leftarrow> file_view L f m; ret (At_file v) }
      else if Inode_attributes_Which L a m = Which_link then
        do { (l, _) \<leftarrow> Inode_attributes_Link L a m; ret (At_link (fst (Link_Target L l m))) }
      else if Inode_attributes_Which L a m = Which_special then
        do { (s, _) \<leftarrow> Inode_attributes_Special L a m; ret (At_special (Special_Type L s m) (fst (Special_Data L s m))) }
      else ret (At_other (Inode_attributes_Which L a m)))"

definition inode_view :: "('m, 'g, 's, 'p, 'l) capnp \<Rightarrow> 's \<Rightarrow> 'm \<Rightarrow> np_inode go" where
  "inode_view L i m =
     do {
       a \<leftarrow> attributes_view L (Inode_Attributes L i) m;
       ret \<lparr>ni_Name = fst (Inode_Name L i m), ni_Size = Inode_Size L i m, ni_Attributes = a,
            ni_Aclkey = fst (Inode_Aclkey L i m), ni_ModificationTime = Inode_ModificationTime L i m,
            ni_CreationTime = Inode_CreationTime L i m\<rparr>
     }"

definition checked :: "'v \<times> merr option \<Rightarrow> merr + 'v" where
  "checked r = (case r of (v, None) \<Rightarrow> Inr v | (v, Some err) \<Rightarrow> Inl err)"

definition dir_view :: "('m, 'g, 's, 'p, 'l) capnp \<Rightarrow> 's \<Rightarrow> 'm \<Rightarrow> np_dir go" where
  "dir_view L d m =
     do {
       contents \<leftarrow> (case Dir_Contents L d m of
           (l, Some err) \<Rightarrow> ret (Inl err)
         | (l, None) \<Rightarrow>
             do { is \<leftarrow> elements L l; vs \<leftarrow> those (map (\<lambda>i. inode_view L i m) is); ret (Inr vs) });
       ret \<lparr>nd_Name = fst (Dir_Name L d m), nd_HasContents = Dir_HasContents L d m, nd_Contents = contents,
            nd_Aclkey = checked (Dir_Aclkey L d m), nd_ModificationTime = Dir_ModificationTime L d m,
            nd_CreationTime = Dir_CreationTime L d m\<rparr>
     }"

definition aci_view :: "('m, 'g, 's, 'p, 'l) capnp \<Rightarrow> 's \<Rightarrow> 'm \<Rightarrow> np_aci" where
  "aci_view L a m =
     \<lparr>na_Uname = fst (ACI_Uname L a m), na_Gname = fst (ACI_Gname L a m), na_Mode = ACI_Mode L a m,
      na_uid_bits = cp_Uint64 L a 8 m, na_gid_bits = cp_Uint64 L a 16 m\<rparr>"

lemma aci_view_ids: "aci_Uid (aci_view L a m) = ACI_Uid L a m" "aci_Gid (aci_view L a m) = ACI_Gid L a m"
  by (simp_all add: aci_Uid_def aci_Gid_def aci_view_def ACI_Uid_def ACI_Gid_def)

section \<open>The code over the accessors\<close>

text \<open>\<open>File.getBlocks\<close>.\<close>

fun row_blocks :: "('m, 'g, 's, 'p, 'l) capnp \<Rightarrow> 'l \<Rightarrow> 'm \<Rightarrow> nat list \<Rightarrow> block_info list go" where
  "row_blocks L cblocks m [] = ret []"
| "row_blocks L cblocks m (i # is) =
     do {
       block \<leftarrow> FileBlock_List_At L cblocks (int i);
       blocks \<leftarrow> row_blocks L cblocks m is;
       ret (\<lparr>bi_Key = fst (FileBlock_Hash L block m), bi_Decipher = fst (FileBlock_Key L block m)\<rparr> # blocks)
     }"

definition row_getBlocks :: "('m, 'g, 's, 'p, 'l) capnp \<Rightarrow> 's \<Rightarrow> 'm \<Rightarrow> block_info list go" where
  "row_getBlocks L f m =
     (if \<not> File_HasBlocks L f m then ret []
      else let cblocks = fst (File_Blocks L f m) in row_blocks L cblocks m [0..<nat (cp_Len L cblocks)])"

text \<open>One turn of the loop of \<open>Dir.getChildren\<close>. An object keeps the structs it was made from; they
  are never written, so it is given by what they say.\<close>

definition row_child ::
  "('c, 'a) env \<Rightarrow> ('m, 'g, 's, 'p, 'l) capnp \<Rightarrow> 's \<Rightarrow> 'm \<Rightarrow> ('c, 'a) store \<Rightarrow> (meta option \<times> ('c, 'a) store) go" where
  "row_child ev L inode m st =
     (let attributes = Inode_Attributes L inode; which = Inode_attributes_Which L attributes m
      in if which = Which_dir then
           do {
             (dir, _) \<leftarrow> Inode_attributes_Dir L attributes m;
             ret (case getDirWithHash ev (fst (SubDir_Key L dir m)) st of
                 (Inl _, st1) \<Rightarrow> (Some NilDir, st1)
               | (Inr sub, st1) \<Rightarrow> (Some sub, st1))
           }
         else if which = Which_file then
           do {
             (file, _) \<leftarrow> Inode_attributes_File L attributes m;
             iv \<leftarrow> inode_view L inode m;
             fv \<leftarrow> file_view L file m;
             ret (case getAccess ev (fst (Inode_Aclkey L inode m)) st of
                 ((access, _), st1) \<Rightarrow> (Some (File iv fv access), st1))
           }
         else if which = Which_link then
           do {
             (link, _) \<leftarrow> Inode_attributes_Link L attributes m;
             iv \<leftarrow> inode_view L inode m;
             ret (case getAccess ev (fst (Inode_Aclkey L inode m)) st of
                 ((access, _), st1) \<Rightarrow> (Some (Link iv (fst (Link_Target L link m)) access), st1))
           }
         else ret (None, st))"

fun row_children ::
  "('c, 'a) env \<Rightarrow> ('m, 'g, 's, 'p, 'l) capnp \<Rightarrow> 'l \<Rightarrow> 'm \<Rightarrow> nat list \<Rightarrow> ('c, 'a) store
    \<Rightarrow> (meta list \<times> ('c, 'a) store) go" where
  "row_children ev L contents m [] st = ret ([], st)"
| "row_children ev L contents m (i # is) st =
     do {
       inode \<leftarrow> Inode_List_At L contents (int i);
       (c, st1) \<leftarrow> row_child ev L inode m st;
       (children, st2) \<leftarrow> row_children ev L contents m is st1;
       ret (case c of None \<Rightarrow> children | Some c \<Rightarrow> c # children, st2)
     }"

definition row_getChildren ::
  "('c, 'a) env \<Rightarrow> ('m, 'g, 's, 'p, 'l) capnp \<Rightarrow> 's \<Rightarrow> 'm \<Rightarrow> ('c, 'a) store \<Rightarrow> (meta list \<times> ('c, 'a) store) go" where
  "row_getChildren ev L d m st =
     (if \<not> Dir_HasContents L d m then ret ([], st)
      else
        (case Dir_Contents L d m of
           (contents, Some err) \<Rightarrow> ret ([], st)
         | (contents, None) \<Rightarrow> row_children ev L contents m [0..<nat (cp_Len L contents)] st))"

text \<open>\<open>getDirWithHash\<close> and what \<open>getACI\<close> does with a row; \<open>dec\<close> is \<open>capnp.NewDecoder(\<dots>).Decode\<close>. A
  directory keeps its struct, the message and the access rights.\<close>

definition row_getDirWithHash ::
  "(bytes \<Rightarrow> merr + 'm) \<Rightarrow> ('m, 'g, 's, 'p, 'l) capnp \<Rightarrow> ('c, 'a) env \<Rightarrow> string \<Rightarrow> ('c, 'a) store
    \<Rightarrow> (merr + ('s \<times> 'm \<times> access)) \<times> ('c, 'a) store" where
  "row_getDirWithHash dec L ev hash st =
     (case ev_query ev hash of
        Inl err \<Rightarrow> (Inl err, st)
      | Inr data \<Rightarrow>
          (case dec data of
             Inl err \<Rightarrow> (Inl err, st)
           | Inr msg \<Rightarrow>
               (case ReadRootDir L msg of
                  (dir, Some err) \<Rightarrow> (Inl err, st)
                | (dir, None) \<Rightarrow>
                    (case Dir_Aclkey L dir msg of
                       (key, Some err) \<Rightarrow> (Inl err, st)
                     | (key, None) \<Rightarrow>
                         (case getAccess ev key st of
                            ((access, err), st1) \<Rightarrow>
                              if err \<noteq> None \<and> err \<noteq> Some MNoACI then (Inl (the err), st1)
                              else (Inr (dir, msg, access), st1))))))"

definition row_dir :: "(bytes \<Rightarrow> merr + 'm) \<Rightarrow> ('m, 'g, 's, 'p, 'l) capnp \<Rightarrow> bytes \<Rightarrow> merr + 's \<times> 'm" where
  "row_dir dec L data =
     (case dec data of
        Inl err \<Rightarrow> Inl err
      | Inr msg \<Rightarrow> (case ReadRootDir L msg of (dir, Some err) \<Rightarrow> Inl err | (dir, None) \<Rightarrow> Inr (dir, msg)))"

definition row_aci :: "(bytes \<Rightarrow> merr + 'm) \<Rightarrow> ('m, 'g, 's, 'p, 'l) capnp \<Rightarrow> bytes \<Rightarrow> merr + 's \<times> 'm" where
  "row_aci dec L data =
     (case dec data of
        Inl err \<Rightarrow> Inl err
      | Inr msg \<Rightarrow> (case ReadRootACI L msg of (aci, Some err) \<Rightarrow> Inl err | (aci, None) \<Rightarrow> Inr (aci, msg)))"

text \<open>The environment of theory SqlStore that reads its rows through the library.\<close>

definition env_rows :: "(bytes \<Rightarrow> merr + 'm) \<Rightarrow> ('m, 'g, 's, 'p, 'l) capnp \<Rightarrow> ('c, 'a) env \<Rightarrow> ('c, 'a) env" where
  "env_rows dec L ev =
     ev\<lparr>ev_dir := (\<lambda>data. case row_dir dec L data of Inl err \<Rightarrow> Inl err | Inr (d, m) \<Rightarrow> Inr (the (dir_view L d m))),
        ev_aci := (\<lambda>data. case row_aci dec L data of Inl err \<Rightarrow> Inl err | Inr (a, m) \<Rightarrow> Inr (aci_view L a m))\<rparr>"

section \<open>The accessors never panic\<close>

lemma those_map: "(\<And>x. x \<in> set xs \<Longrightarrow> f x \<noteq> None) \<Longrightarrow> those (map f xs) = Some (map (\<lambda>x. the (f x)) xs)"
  by (induction xs) (auto split: option.split)

lemma elements_ok:
  "list_laws L \<Longrightarrow> elements L l = ret (map (\<lambda>i. the (cp_At L l (int i))) [0..<nat (cp_Len L l)])"
  unfolding elements_def by (rule those_map) (auto simp: list_laws_def)

lemma file_view_ok:
  "list_laws L \<Longrightarrow> \<exists>v. file_view L f m = ret v"
  by (simp add: file_view_def elements_ok)

lemma attributes_view_ok:
  assumes "list_laws L"
  shows "\<exists>v. attributes_view L a m = ret v"
proof -
  obtain fv where "file_view L (fst (struct_at L a 1 m)) m = ret fv" using file_view_ok [OF assms] by blast
  then show ?thesis by (cases "struct_at L a 1 m") (simp add: attributes_view_def schema)
qed

lemma inode_view_ok:
  assumes "list_laws L"
  shows "\<exists>v. inode_view L i m = ret v"
proof -
  obtain a where "attributes_view L i m = ret a" using attributes_view_ok [OF assms] by blast
  then show ?thesis by (simp add: inode_view_def Inode_Attributes_def)
qed

lemma inode_views_ok:
  "list_laws L \<Longrightarrow> those (map (\<lambda>i. inode_view L i m) is) = ret (map (\<lambda>i. the (inode_view L i m)) is)"
  using inode_view_ok [of L _ m] by (intro those_map) fastforce

lemma dir_view_ok: "list_laws L \<Longrightarrow> \<exists>v. dir_view L d m = ret v"
  by (auto simp: dir_view_def elements_ok inode_views_ok split: prod.split option.split)

section \<open>The code does what its record version does\<close>

lemma row_blocks_ok:
  "list_laws L \<Longrightarrow> list_all (\<lambda>i. int i < cp_Len L l) is \<Longrightarrow> row_blocks L l m is =
    ret (map (\<lambda>i. let b = block_view L (the (cp_At L l (int i))) m in \<lparr>bi_Key = nb_hash b, bi_Decipher = nb_key b\<rparr>) is)"
proof (induction "is")
  case (Cons i "is")
  then have "cp_At L l (int i) \<noteq> panic" by (simp add: list_laws_def)
  then show ?case using Cons by (auto simp: FileBlock_List_At_def block_view_def)
qed simp

lemma upto_all: "list_all (\<lambda>i. int i < n) [0..<nat n]"
  by (auto simp: list_all_iff)

lemma row_getBlocks_ok:
  assumes "list_laws L" "file_view L f m = ret v"
  shows "row_getBlocks L f m = ret (getBlocks v)"
  using assms(2) row_blocks_ok [OF assms(1) upto_all]
  by (auto simp: row_getBlocks_def getBlocks_def file_view_def elements_ok [OF assms(1)] Let_def)

lemma row_child_ok:
  assumes "list_laws L" "inode_view L i m = ret v"
  shows "row_child ev L i m st = ret (child_of ev v st)"
proof -
  have a: "attributes_view L i m = ret (ni_Attributes v)" "ni_Aclkey v = fst (Inode_Aclkey L i m)"
    using assms(2) by (auto simp: inode_view_def Inode_Attributes_def go_bind_eq_ret)
  obtain fv where f: "file_view L (fst (struct_at L i 1 m)) m = ret fv" using file_view_ok [OF assms(1)] by blast
  obtain t e where t: "struct_at L i 1 m = (t, e)" by fastforce
  have "ni_Attributes v = At_dir (fst (SubDir_Key L t m))" if "Inode_attributes_Which L i m = Which_dir"
    using that a(1) t by (simp add: attributes_view_def schema)
  moreover have "ni_Attributes v = At_file fv" if "Inode_attributes_Which L i m = Which_file"
    using that a(1) t f by (simp add: attributes_view_def schema)
  moreover have "ni_Attributes v = At_link (fst (Link_Target L t m))" if "Inode_attributes_Which L i m = Which_link"
    using that a(1) t by (simp add: attributes_view_def schema)
  moreover have "(\<exists>x y. ni_Attributes v = At_special x y) \<or> (\<exists>x. ni_Attributes v = At_other x)"
    if "Inode_attributes_Which L i m \<notin> {Which_dir, Which_file, Which_link}"
    using that a(1) t by (auto simp: attributes_view_def schema split: if_splits) metis+
  ultimately show ?thesis
    using assms(2) a(2) t f by (auto simp: row_child_def child_of_def Let_def schema split: prod.split)
qed

lemma row_children_ok:
  assumes "list_laws L"
  shows "list_all (\<lambda>i. int i < cp_Len L l) is \<Longrightarrow> row_children ev L l m is st =
    ret (children_from ev (map (\<lambda>i. the (inode_view L (the (cp_At L l (int i))) m)) is) st)"
proof (induction "is" arbitrary: st)
  case (Cons i "is")
  have "cp_At L l (int i) \<noteq> panic" using Cons.prems assms by (simp add: list_laws_def)
  then obtain inode where i: "cp_At L l (int i) = ret inode" by blast
  obtain v where v: "inode_view L inode m = ret v" using inode_view_ok [OF assms] by blast
  show ?case using Cons row_child_ok [OF assms v, of ev st] i v
    by (auto simp: Inode_List_At_def split: prod.split)
qed simp

lemma row_getChildren_ok:
  assumes "list_laws L" "dir_view L d m = ret v"
  shows "row_getChildren ev L d m st = ret (getChildren ev v st)"
proof (cases "Dir_Contents L d m")
  case (Pair l err)
  show ?thesis
    using assms(2) Pair row_children_ok [OF assms(1) upto_all, of ev l m st]
    by (cases err) (auto simp: dir_view_def row_getChildren_def getChildren_def elements_ok [OF assms(1)]
        inode_views_ok [OF assms(1)] comp_def)
qed

lemma row_getDirWithHash_ok:
  assumes "list_laws L" "row_getDirWithHash dec L (env_rows dec L ev) hash st = (r, st')"
  shows "getDirWithHash (env_rows dec L ev) hash st =
    (case r of Inl err \<Rightarrow> Inl err | Inr (d, m, a) \<Rightarrow> Inr (Dir (the (dir_view L d m)) a), st')"
proof (cases "ev_query ev hash")
  case (Inl e)
  then show ?thesis using assms(2) by (auto simp: row_getDirWithHash_def getDirWithHash_def env_rows_def)
next
  case q: (Inr data)
  show ?thesis
  proof (cases "row_dir dec L data")
    case (Inl e)
    then show ?thesis using assms(2) q
      by (auto simp: row_getDirWithHash_def getDirWithHash_def env_rows_def row_dir_def split: sum.splits prod.splits option.splits)
  next
    case (Inr dm)
    obtain d m where dm: "dm = (d, m)" by (cases dm)
    then have dec: "dec data = Inr m" "ReadRootDir L m = (d, None)"
      using Inr by (auto simp: row_dir_def split: sum.splits prod.splits option.splits)
    obtain v where v: "dir_view L d m = ret v" using dir_view_ok [OF assms(1)] by blast
    then have "nd_Aclkey v = checked (Dir_Aclkey L d m)" by (auto simp: dir_view_def go_bind_eq_ret)
    then show ?thesis using assms(2) q Inr dm dec v
      by (auto simp: row_getDirWithHash_def getDirWithHash_def env_rows_def checked_def
          split: prod.splits option.splits if_splits)
  qed
qed

section \<open>Properties\<close>

text \<open>C15. Reading a flist through the generated accessors is what theory SqlStore does on records: opening a
  directory by its key, listing its children and reading the blocks of a file give the same results and
  leave the same caches, and neither an accessor of the wrong variant nor an index past the end of a
  list ever panics.\<close>

theorem rows_refine:
  assumes "list_laws L"
  shows "(\<forall>r st'. row_getDirWithHash dec L (env_rows dec L ev) hash st = (r, st') \<longrightarrow>
      getDirWithHash (env_rows dec L ev) hash st =
        (case r of Inl err \<Rightarrow> Inl err | Inr (d, m, a) \<Rightarrow> Inr (Dir (the (dir_view L d m)) a), st')) \<and>
    (\<forall>d m. \<exists>v. dir_view L d m = ret v \<and> row_getChildren ev L d m st = ret (getChildren ev v st)) \<and>
    (\<forall>f m. \<exists>v. file_view L f m = ret v \<and> row_getBlocks L f m = ret (getBlocks v))"
  using row_getDirWithHash_ok [OF assms] dir_view_ok [OF assms] row_getChildren_ok [OF assms]
    file_view_ok [OF assms] row_getBlocks_ok [OF assms] by blast

text \<open>A row that holds a directory with one link.\<close>

definition demo_row :: mem where
  "demo_row = \<lparr>mm_next = 3,
     mm_data = (\<lambda>s k. if s = (1, 24, 3) \<and> k = 8 then 2 else 0),
     mm_slots = (\<lambda>s i.
       if s = (0, 16, 5) then (if i = 2 then MList [(1, 24, 3)] else if i = 4 then MText ''acl'' else MNull)
       else if s = (1, 24, 3) then (if i = 0 then MText ''l'' else if i = 1 then MStruct (2, 0, 1) else if i = 2 then MText ''acl'' else MNull)
       else if s = (2, 0, 1) then MText ''../f'' else MNull),
     mm_root = MStruct (0, 16, 5)\<rparr>"

theorem rows_refine_witness:
  "\<exists>i st. row_getChildren demo_env mem_capnp (0, 16, 5) demo_row demo_store = ret ([Link i ''../f'' demo_access], st) \<and>
    ni_Name i = ''l''"
proof -
  have which: "cp_Uint16 mem_capnp (1, 24, 3) 8 demo_row = 2"
    by (simp add: mem_capnp_def demo_row_def numeral_2_eq_2)
  have slots: "struct_at mem_capnp (1, 24, 3) 1 demo_row = ((2, 0, 1), None)"
    "text_at mem_capnp (2, 0, 1) 0 demo_row = (''../f'', None)" "text_at mem_capnp (1, 24, 3) 0 demo_row = (''l'', None)"
    "text_at mem_capnp (1, 24, 3) 2 demo_row = (''acl'', None)"
    "list_at mem_capnp (0, 16, 5) 2 demo_row = ([(1, 24, 3)], None)" "has_at mem_capnp (0, 16, 5) 2 demo_row"
    by (simp_all add: mem_capnp_def demo_row_def struct_at_def text_at_def list_at_def has_at_def)
  have "cp_Len mem_capnp [(1, 24, 3)] = 1" "cp_At mem_capnp [(1, 24, 3)] 0 = ret (1, 24, 3)"
    by (simp_all add: mem_capnp_def)
  note slots = slots this
  obtain i where i: "inode_view mem_capnp (1, 24, 3) demo_row = ret i" "ni_Name i = ''l''" "ni_Aclkey i = ''acl''"
    "ni_Attributes i = At_link ''../f''"
    using which slots by (simp add: inode_view_def attributes_view_def schema)
  obtain v where v: "dir_view mem_capnp (0, 16, 5) demo_row = ret v"
    "row_getChildren demo_env mem_capnp (0, 16, 5) demo_row demo_store = ret (getChildren demo_env v demo_store)"
    using rows_refine [OF mem_list_laws] by blast
  have "nd_HasContents v" "nd_Contents v = Inr [i]"
    using v(1) slots i(1) by (auto simp: dir_view_def elements_def schema)
  then have "getChildren demo_env v demo_store = children_from demo_env [i] demo_store"
    by (simp add: getChildren_def)
  moreover obtain st where "child_of demo_env i demo_store = (inode_meta demo_env i, st)"
    using child_of_ok [OF demo_env_ok demo_store_ok] by blast
  moreover have "inode_meta demo_env i = Some (Link i ''../f'' demo_access)"
    using i by (simp add: inode_meta_def demo_access_at)
  ultimately show ?thesis using v(2) i(2) by auto
qed

end
