(* ===== verification/Promises.thy ===== *)
theory Promises
  imports Schema
begin

text \<open>
  The rest of cap.np/model.capnp.go: printing, and promises of structs that a remote call will return.
  Both only forward to the library; the program uses neither, so nothing outside of this theory
  depends on it. A promise is a struct that will be there when a call has returned; the code of a
  schema names its type by a number, and the embedded schema has to be registered for the numbers
  that printing asks for.
\<close>

named_theorems printing \<open>the String methods\<close>
named_theorems promises \<open>the methods of promises\<close>

section \<open>The library\<close>

record ('m, 's, 'l) text_api =
  tx_Marshal :: "u64 \<Rightarrow> 's \<Rightarrow> 'm \<Rightarrow> string \<times> merr option"
  tx_MarshalList :: "u64 \<Rightarrow> 'l \<Rightarrow> 'm \<Rightarrow> string \<times> merr option"

record ('q, 's) pipe_api =
  pl_Struct :: "'q \<Rightarrow> 's \<times> merr option"         \<comment> \<open>waits for the call\<close>
  pl_GetPipeline :: "'q \<Rightarrow> nat \<Rightarrow> 'q"

section \<open>Type numbers\<close>

definition FileBlock_TypeID :: u64 where "FileBlock_TypeID = 0xd5a2538369c2f82a"

definition File_TypeID :: u64 where "File_TypeID = 0xecfda38634f4591a"

definition Link_TypeID :: u64 where "Link_TypeID = 0xe419a0e5a661965c"

definition Special_TypeID :: u64 where "Special_TypeID = 0xdc74a897ce683c6b"

definition Special_Type_TypeID :: u64 where "Special_Type_TypeID = 0x8932d2d84f4dd27a"

definition SubDir_TypeID :: u64 where "SubDir_TypeID = 0xa4a421ce00f301dd"

definition Inode_TypeID :: u64 where "Inode_TypeID = 0xc0029f81b3eee594"

definition Dir_TypeID :: u64 where "Dir_TypeID = 0x8a228653b964fd48"

definition UserGroup_TypeID :: u64 where "UserGroup_TypeID = 0xee5217621d9cbb3a"

definition ACI_TypeID :: u64 where "ACI_TypeID = 0xe7b4959415dabf9c"

definition ACI_Right_TypeID :: u64 where "ACI_Right_TypeID = 0xe615914de76be38f"

definition registered :: "u64 list" where
  "registered =
     [0x8932d2d84f4dd27a, 0x8a228653b964fd48, 0xa4a421ce00f301dd, 0xc0029f81b3eee594,
      0xd5a2538369c2f82a, 0xdc74a897ce683c6b, 0xe419a0e5a661965c, 0xe615914de76be38f,
      0xe7b4959415dabf9c, 0xecfda38634f4591a, 0xee5217621d9cbb3a, 0xf9737539703ade0c]"

section \<open>Printing\<close>

definition FileBlock_String where [printing]:
  "FileBlock_String T s m = fst (tx_Marshal T 0xd5a2538369c2f82a s m)"

definition FileBlock_List_String where [printing]:
  "FileBlock_List_String T s m = fst (tx_MarshalList T 0xd5a2538369c2f82a s m)"

definition File_String where [printing]:
  "File_String T s m = fst (tx_Marshal T 0xecfda38634f4591a s m)"

definition File_List_String where [printing]:
  "File_List_String T s m = fst (tx_MarshalList T 0xecfda38634f4591a s m)"

definition Link_String where [printing]:
  "Link_String T s m = fst (tx_Marshal T 0xe419a0e5a661965c s m)"

definition Link_List_String where [printing]:
  "Link_List_String T s m = fst (tx_MarshalList T 0xe419a0e5a661965c s m)"

definition Special_String where [printing]:
  "Special_String T s m = fst (tx_Marshal T 0xdc74a897ce683c6b s m)"

definition Special_List_String where [printing]:
  "Special_List_String T s m = fst (tx_MarshalList T 0xdc74a897ce683c6b s m)"

definition SubDir_String where [printing]:
  "SubDir_String T s m = fst (tx_Marshal T 0xa4a421ce00f301dd s m)"

definition SubDir_List_String where [printing]:
  "SubDir_List_String T s m = fst (tx_MarshalList T 0xa4a421ce00f301dd s m)"

definition Inode_String where [printing]:
  "Inode_String T s m = fst (tx_Marshal T 0xc0029f81b3eee594 s m)"

definition Inode_List_String where [printing]:
  "Inode_List_String T s m = fst (tx_MarshalList T 0xc0029f81b3eee594 s m)"

definition Dir_String where [printing]:
  "Dir_String T s m = fst (tx_Marshal T 0x8a228653b964fd48 s m)"

definition Dir_List_String where [printing]:
  "Dir_List_String T s m = fst (tx_MarshalList T 0x8a228653b964fd48 s m)"

definition UserGroup_String where [printing]:
  "UserGroup_String T s m = fst (tx_Marshal T 0xee5217621d9cbb3a s m)"

definition UserGroup_List_String where [printing]:
  "UserGroup_List_String T s m = fst (tx_MarshalList T 0xee5217621d9cbb3a s m)"

definition ACI_String where [printing]:
  "ACI_String T s m = fst (tx_Marshal T 0xe7b4959415dabf9c s m)"

definition ACI_List_String where [printing]:
  "ACI_List_String T s m = fst (tx_MarshalList T 0xe7b4959415dabf9c s m)"

definition ACI_Right_String where [printing]:
  "ACI_Right_String T s m = fst (tx_Marshal T 0xe615914de76be38f s m)"

definition ACI_Right_List_String where [printing]:
  "ACI_Right_List_String T s m = fst (tx_MarshalList T 0xe615914de76be38f s m)"

section \<open>Promises\<close>

definition FileBlock_Promise_Struct where [promises]:
  "FileBlock_Promise_Struct P p = pl_Struct P p"

definition File_Promise_Struct where [promises]:
  "File_Promise_Struct P p = pl_Struct P p"

definition Link_Promise_Struct where [promises]:
  "Link_Promise_Struct P p = pl_Struct P p"

definition Special_Promise_Struct where [promises]:
  "Special_Promise_Struct P p = pl_Struct P p"

definition SubDir_Promise_Struct where [promises]:
  "SubDir_Promise_Struct P p = pl_Struct P p"

definition Inode_Promise_Struct where [promises]:
  "Inode_Promise_Struct P p = pl_Struct P p"

definition Inode_Promise_Attributes where [promises]:
  "Inode_Promise_Attributes P p = p"

definition Inode_attributes_Promise_Struct where [promises]:
  "Inode_attributes_Promise_Struct P p = pl_Struct P p"

definition Inode_attributes_Promise_Dir where [promises]:
  "Inode_attributes_Promise_Dir P p = pl_GetPipeline P p 1"

definition Inode_attributes_Promise_File where [promises]:
  "Inode_attributes_Promise_File P p = pl_GetPipeline P p 1"

definition Inode_attributes_Promise_Link where [promises]:
  "Inode_attributes_Promise_Link P p = pl_GetPipeline P p 1"

definition Inode_attributes_Promise_Special where [promises]:
  "Inode_attributes_Promise_Special P p = pl_GetPipeline P p 1"

definition Dir_Promise_Struct where [promises]:
  "Dir_Promise_Struct P p = pl_Struct P p"

definition UserGroup_Promise_Struct where [promises]:
  "UserGroup_Promise_Struct P p = pl_Struct P p"

definition ACI_Promise_Struct where [promises]:
  "ACI_Promise_Struct P p = pl_Struct P p"

definition ACI_Right_Promise_Struct where [promises]:
  "ACI_Right_Promise_Struct P p = pl_Struct P p"

section \<open>What they rely on\<close>

text \<open>Every type of the schema is registered, under a number of its own; the one number more is that of
  the group \<open>Inode.attributes\<close>, which has no type of its own to print.\<close>

lemma registered_types:
  "distinct registered"
  "set registered =
    {FileBlock_TypeID, File_TypeID, Link_TypeID, Special_TypeID, Special_Type_TypeID,
     SubDir_TypeID, Inode_TypeID, Dir_TypeID, UserGroup_TypeID, ACI_TypeID,
     ACI_Right_TypeID,
     0xf9737539703ade0c}"
  by (simp_all add: registered_def FileBlock_TypeID_def File_TypeID_def Link_TypeID_def Special_TypeID_def Special_Type_TypeID_def SubDir_TypeID_def Inode_TypeID_def Dir_TypeID_def UserGroup_TypeID_def ACI_TypeID_def ACI_Right_TypeID_def insert_commute)

text \<open>Printing asks for registered numbers only: libraries that agree on those print alike.\<close>

definition same_texts :: "('m, 's, 'l) text_api \<Rightarrow> ('m, 's, 'l) text_api \<Rightarrow> bool" where
  "same_texts T T' \<longleftrightarrow>
     (\<forall>i\<in>set registered. tx_Marshal T i = tx_Marshal T' i \<and> tx_MarshalList T i = tx_MarshalList T' i)"

lemma printing_registered:
  assumes "same_texts T T'"
  shows "FileBlock_String T = FileBlock_String T'"
    and "FileBlock_List_String T = FileBlock_List_String T'"
    and "File_String T = File_String T'"
    and "File_List_String T = File_List_String T'"
    and "Link_String T = Link_String T'"
    and "Link_List_String T = Link_List_String T'"
    and "Special_String T = Special_String T'"
    and "Special_List_String T = Special_List_String T'"
    and "SubDir_String T = SubDir_String T'"
    and "SubDir_List_String T = SubDir_List_String T'"
    and "Inode_String T = Inode_String T'"
    and "Inode_List_String T = Inode_List_String T'"
    and "Dir_String T = Dir_String T'"
    and "Dir_List_String T = Dir_List_String T'"
    and "UserGroup_String T = UserGroup_String T'"
    and "UserGroup_List_String T = UserGroup_List_String T'"
    and "ACI_String T = ACI_String T'"
    and "ACI_List_String T = ACI_List_String T'"
    and "ACI_Right_String T = ACI_Right_String T'"
    and "ACI_Right_List_String T = ACI_Right_List_String T'"
  using assms by (auto simp: fun_eq_iff printing same_texts_def registered_def)

text \<open>The law of the library: a promise of a pointer is the struct behind the pointer of the promised
  struct. The library that has every answer already is an instance.\<close>

definition pipe_laws :: "('m, 'g, 's, 'p, 'l) capnp \<Rightarrow> ('q, 's) pipe_api \<Rightarrow> 'm \<Rightarrow> bool" where
  "pipe_laws L P m \<longleftrightarrow>
     (\<forall>p i s. pl_Struct P p = (s, None) \<longrightarrow> pl_Struct P (pl_GetPipeline P p i) = struct_at L s i m)"

definition answered :: "('m, 'g, 's, 'p, 'l) capnp \<Rightarrow> 'm \<Rightarrow> ('s \<times> merr option, 's) pipe_api" where
  "answered L m = \<lparr>pl_Struct = (\<lambda>q. q), pl_GetPipeline = (\<lambda>q i. struct_at L (fst q) i m)\<rparr>"

lemma answered_laws: "pipe_laws L (answered L m) m"
  by (simp add: pipe_laws_def answered_def)

text \<open>Where the tag of an inode fits, its promise delivers what the accessor returns.\<close>

lemma promised_attributes:
  assumes "pipe_laws L P m" "Inode_Promise_Struct P p = (s, None)"
  shows "Inode_attributes_Dir L (Inode_Attributes L s) m = ret x \<Longrightarrow>
      SubDir_Promise_Struct P (Inode_attributes_Promise_Dir P (Inode_Promise_Attributes P p)) = x"
    and "Inode_attributes_File L (Inode_Attributes L s) m = ret x \<Longrightarrow>
      File_Promise_Struct P (Inode_attributes_Promise_File P (Inode_Promise_Attributes P p)) = x"
    and "Inode_attributes_Link L (Inode_Attributes L s) m = ret x \<Longrightarrow>
      Link_Promise_Struct P (Inode_attributes_Promise_Link P (Inode_Promise_Attributes P p)) = x"
    and "Inode_attributes_Special L (Inode_Attributes L s) m = ret x \<Longrightarrow>
      Special_Promise_Struct P (Inode_attributes_Promise_Special P (Inode_Promise_Attributes P p)) = x"
  using assms by (auto simp: pipe_laws_def promises schema split: if_splits)

text \<open>The promise does not look at the tag: of a file it delivers a subdirectory, where the accessor
  panics.\<close>

lemma promise_ignores_tag:
  assumes "pipe_laws L P m" "Inode_Promise_Struct P p = (s, None)" "Inode_attributes_File L (Inode_Attributes L s) m = ret x"
  shows "SubDir_Promise_Struct P (Inode_attributes_Promise_Dir P (Inode_Promise_Attributes P p)) = x \<and>
    Inode_attributes_Dir L (Inode_Attributes L s) m = panic"
  using assms by (auto simp: pipe_laws_def promises schema split: if_splits)

end
