(* ===== verification/Spec2Isabelle.thy ===== *)
theory Spec2Isabelle
  imports Dial SharedCache Mains Objects Rows Promises
begin

text \<open>
  0-fs: a read-only filesystem over flists.

  An flist is an SQLite table of Cap'n Proto rows that describes a tree of directories, files and
  links; the contents of a file are blocks, stored somewhere else under their hash. 0-fs mounts one or
  more flists by FUSE, looks paths up in them, and downloads the blocks of a file when it is opened.
  This development models the hand-written program and the accessors generated for its schema.

  \<^bold>\<open>The parts and how they interact.\<close> The command (cmd/main.go, cmd/mount.go) assembles a stack of
  metadata stores and a router of storage pools (cmd/stores.go), and mounts a filesystem over them
  (g8ufs.go). The kernel calls the filesystem (rofs/rofs.go). It looks the path up in the stack
  (meta/layer.go), whose stores read rows of flists (meta/store.go, meta/dir.go and the other files of
  meta/, through cap.np/model.capnp.go); opening a file goes through a cache directory (rofs/cache.go),
  which lets the downloader (rofs/downloader.go) fetch the missing blocks; the downloader asks the
  router (storage/router), which picks pools by the hash of the block and keeps its caching pools
  filled in the background.

  \<^bold>\<open>Theories and sources.\<close>
  \<^item> Prelude: panics as the option monad (\<open>None\<close> is a run-time panic), Go slices with spare capacity,
    the verbs %d and %x.
  \<^item> RouterErrors (storage/router/errors.go), Ranges (range.go), Rules (rule.go), Pools (pool.go),
    Routers (router.go), Configs (config.go and storage/storage.go), Dial (dial.go).
  \<^item> Paths: what the program uses of path, path/filepath and strings.Split.
  \<^item> Schema, Layouts, Promises: cap.np/model.capnp.go, its accessors, the layout they agree on, and its
    printing and promises.
  \<^item> Metas (meta/meta.go, file.go, dir.go, link.go, special.go), SqlStore (meta/store.go and
    \<open>Dir.getChildren\<close>), Rows (the same code over the accessors), Layers (meta/layer.go), Archives
    (meta/unpack.go).
  \<^item> Downloads (rofs/downloader.go), Caches and SharedCache (rofs/cache.go, for one and for many
    callers), Rofs (rofs/rofs.go), Objects (the types of what a filesystem over flists serves).
  \<^item> Stores (cmd/stores.go and the command record of cmd/main.go), Mounts (g8ufs.go, version.go, \<open>start\<close>
    and \<open>reload\<close> of cmd/mount.go), Mains (main of cmd/main.go and \<open>mount\<close> of cmd/mount.go).
  \<^item> This theory: what the parts do together, from the command line to the contents of a file.

  A definition has the name of the Go function it translates, with a prefix where the name is taken
  (\<open>sql_Get\<close>, \<open>scan_Get\<close>, \<open>router_Get\<close> are three methods \<open>Get\<close>). A struct is a record, an interface
  value a datatype with one constructor per implementation, an error a value of a sum. State is passed
  explicitly: the LRU caches and name maps of a flist store, the connection maps of the pools (an
  explicit store, since pools are shared by pointer), the cache of resolved names, the files of the
  operating system (directories, names and inodes, so that an open file survives the removal of its
  name) and the list of mount points. Goroutines are step relations: the commit workers of a router
  (\<open>commit_step\<close>), the feeder, workers and writer of a download (\<open>dl_step\<close>), and the processes that
  share a cache directory (\<open>cache_step\<close>).

  \<^bold>\<open>Interfaces.\<close> \<open>range_iface\<close> is the interface Range, interpreted by the two kinds of ranges;
  \<open>pool_iface\<close> is the interface Pool, interpreted by \<open>ScanPool\<close>, and the router is developed inside it;
  \<open>meta_store\<close> is the interface Store, interpreted by a flist store and by a stack of stores.

  \<^bold>\<open>What is shown.\<close>
  \<^item> The whole: a mount of well-formed flists serves the object of the topmost flist at every path and
    lists what any of them lists (\<open>mounted_serves_flists\<close>), and a file read through it has the contents
    its flist describes (\<open>mounted_file_content\<close>). On damaged flists as well, and after any reloads, it
    serves well-typed objects only (\<open>object_types\<close>, \<open>process_serves_typed\<close>).
  \<^item> Integrity: a download that reports success wrote exactly the blocks whose hashes the flist names,
    in their places; what the cache serves after \<open>CheckAndGet\<close> is that content; the blocks of the
    router are those some pool holds. With many callers this needs the lock, and there is one way
    around it, which \<open>half_file_served\<close> exhibits.
  \<^item> Lookup: listing and lookup agree in a flist and in a stack; a stack shows the topmost entry of
    every path and merges directories; nested stacks are flat ones; the caches of a store are
    invisible; a walk visits each entry once; the record version of the flist code is the code over
    the generated accessors.
  \<^item> Routing: the first pool of the table that has a block answers; the cache pools get every block
    exactly once and the workers always drain; merging routers is asking them in order; a checked
    configuration becomes a router that routes every hash as its rules say; parsing and printing of
    ranges.
  \<^item> Life cycle: mounting is all or nothing; the process leaves the mount points as it found them; a
    reload puts the extra flists on top; archives unpack to what they contain; the layout of the
    schema.

  \<^bold>\<open>Bounds and termination.\<close> \<open>walkDir\<close> has fuel because a damaged flist can hold a directory that contains
  itself; any fuel above the depth of the tree is enough (\<open>sql_walk_complete\<close>). \<open>ensure\<close> calls itself
  after it created the missing directory and is a partial function; \<open>ensure_returns\<close> says just when it
  returns. A download of n blocks ends after at most 5 n + 2 steps
  (\<open>download_returns\<close>), and the steps of the callers of a cache are bounded in the same way
  (\<open>shared_cache_completes\<close>). A pool is asked at most \<open>blockGetRetries\<close> = 3 times and a mount point is
  polled 5 times; these are the constants of the code. Machine integers are words: sizes, modes, device
  numbers and the ids of an ACI wrap around as in Go.

  \<^bold>\<open>Parameters.\<close> SQLite, the Cap'n Proto library, BLAKE2b, MD5, XXTEA, Snappy, gzip and tar, YAML,
  \<open>url.Parse\<close>, the redis client, the resolver, the user database, the LRU caches, FUSE, the kernel, the
  \<open>mountpoint\<close> command, the flag parser and the forking of the daemon are arguments of the definitions
  that use them. What is assumed of them is a named hypothesis: \<open>lru_laws\<close> (a cache returns what was put
  in or nothing), \<open>redis_laws\<close>, \<open>data_laws\<close>, \<open>slot_laws\<close>, \<open>new_laws\<close> and \<open>list_laws\<close> of the Cap'n Proto
  library and \<open>pipe_laws\<close> of its promises; each has a concrete instance. \<open>flist_ok\<close> and \<open>stack_ok\<close> are what the
  well-formedness of the data means: names without slashes, no name twice in a directory, and every
  subdirectory filed under the hash of its path.

  \<^bold>\<open>Not modelled.\<close> The embedded schema of cap.np/model.capnp.go is a compressed constant that only the
  library reads; of its registration the type numbers are kept. The read budget of the Cap'n Proto
  library is left out: reading a row has no effect. Permission bits of files that are created are left
  out, and so is \<open>New\<close> of rofs/rofs.go, which wraps the filesystem for go-fuse. The log is not part of
  the state. In the model with many callers the lock, sync and seek calls do not fail; in the one with
  a single caller they may. Signals and the return of the watcher are events in a sequence: that a
  reload replaces the store while a FUSE call reads it is not modelled.
\<close>

section \<open>From the command line to the files\<close>

lemma mounted_view:
  assumes "start (sql_ops md5) e mf c name mnt k = ret (Inr (Mounted g), c', k')" "mounted_flists e c k evs"
  shows "ro_store (g_config g) = stores_Get (sql_ops md5) (map sql_layer (rev evs))"
    and "ro_cache (g_config g) = (if cm_Cache c \<noteq> [] then cm_Cache c else path_Join [cm_Backend c, ''ca''])"
proof -
  obtain evs' where m: "mounted_flists e c k evs'"
    "g_config g = rofs_NewConfig (stores_Get (sql_ops md5) (rev (map sql_layer evs')))
      (if cm_Cache c \<noteq> [] then cm_Cache c else path_Join [cm_Backend c, ''ca''])"
    using start_mounted [OF assms(1)] by blast
  have "map sql_layer evs' = (map sql_layer evs :: ('a, 'b) entry layer list)"
    using m(1) assms(2) opened_stores_unique by (auto simp: mounted_flists_def)
  then show "ro_store (g_config g) = stores_Get (sql_ops md5) (map sql_layer (rev evs))"
    and "ro_cache (g_config g) = (if cm_Cache c \<noteq> [] then cm_Cache c else path_Join [cm_Backend c, ''ca''])"
    using m(2) by (simp_all add: rofs_NewConfig_def NewCache_def rev_map)
qed

lemma mounted_topmost:
  assumes "start (sql_ops md5) e mf c name mnt k = ret (Inr (Mounted g), c', k')"
    and "mounted_flists e c k (lower @ ev # upper)" "flists_ok md5 (rev (lower @ ev # upper))" "list_all plain_name cs"
    and "\<forall>u\<in>set upper. sql_view u (path_of cs) = ret None" "sql_view ev (path_of cs) = ret (Some m)"
  shows "\<exists>x. ro_store (g_config g) (path_of cs) = ret (Some x) \<and> node_leaf x = (ev, m)"
proof -
  let ?ss = "map sql_layer (rev (lower @ ev # upper))"
  have ok: "stack_ok (sql_ops md5) ?ss" by (rule flists_stack [OF assms(3)])
  then have lok: "list_all (layer_ok (sql_ops md5)) ?ss" by (simp add: stack_ok_def)
  have total: "\<forall>s\<in>set ?ss. \<exists>r. s (path_of cs) = ret r"
  proof
    fix s assume "s \<in> set ?ss"
    then have "layer_ok (sql_ops md5) s" using lok by (simp only: list_all_iff)
    then show "\<exists>r. s (path_of cs) = ret r" by (rule layer_total [OF _ assms(4)])
  qed
  have "topmost ?ss (path_of cs) (sql_layer ev) (map sql_layer (rev lower)) (Plain (ev, m))"
    unfolding topmost_def using assms(5,6)
    by (intro exI [of _ "map sql_layer (rev upper)"]) (auto simp: sql_layer_def)
  then obtain x where "stores_Get (sql_ops md5) ?ss (path_of cs) = ret (Some x)" "node_leaf x = (ev, m)"
    using stores_Get_topmost [OF total] by fastforce
  then show ?thesis using mounted_view(1) [OF assms(1,2)] by simp
qed

text \<open>What is at a path of the mounted filesystem, and how it is listed.\<close>

lemma mounted_lookup:
  assumes "start (sql_ops md5) e mf c name mnt k = ret (Inr (Mounted g), c', k')"
    and "mounted_flists e c k evs" "flists_ok md5 (rev evs)" "list_all plain_name cs"
  obtains (gone) "ro_store (g_config g) (path_of cs) = ret None" "\<forall>ev\<in>set evs. sql_view ev (path_of cs) = ret None"
  | (there) x lower ev upper m i entries where "ro_store (g_config g) (path_of cs) = ret (Some x)"
    "evs = lower @ ev # upper" "\<forall>u\<in>set upper. sql_view u (path_of cs) = ret None"
    "sql_view ev (path_of cs) = ret (Some m)" "meta_Info m = ret i"
    "node_Info (sql_ops md5) x = ret i" "typed (sql_ops md5) x i"
    "OpenDir (sql_ops md5) (g_config g) (path_of cs) = ret (entries, OK)"
    "snd ` set entries = {n. plain_name n \<and> (\<exists>ev\<in>set evs. \<exists>m. sql_view ev (path_of (cs @ [n])) = ret (Some m))}"
proof -
  let ?ops = "sql_ops md5" and ?p = "path_of cs"
  note store = mounted_view(1) [OF assms(1,2)]
  obtain res where res: "stores_Get ?ops (map sql_layer (rev evs)) ?p = ret res"
    "case res of
       None \<Rightarrow> \<forall>ev\<in>set evs. sql_view ev ?p = ret None
     | Some x \<Rightarrow>
         (\<exists>lower ev upper m. evs = lower @ ev # upper \<and> (\<forall>u\<in>set upper. sql_view u ?p = ret None) \<and>
            sql_view ev ?p = ret (Some m) \<and> node_leaf x = (ev, m)) \<and>
         (\<exists>ms. node_Children ?ops x = ret ms \<and>
            (\<forall>c\<in>set ms. \<exists>n. node_Name ?ops c = ret n \<and> first_listing ?ops (map sql_layer (rev evs)) ?p n c) \<and>
            {n. \<exists>c\<in>set ms. node_Name ?ops c = ret n} =
              {n. plain_name n \<and> (\<exists>ev\<in>set evs. \<exists>c. sql_view ev (path_of (cs @ [n])) = ret (Some c))})"
    using flists_get [OF assms(3,4)] by blast
  show ?thesis
  proof (cases res)
    case None
    then show ?thesis using res store gone by simp
  next
    case (Some x)
    then have x: "ro_store (g_config g) ?p = ret (Some x)" using res(1) store by simp
    obtain lower ev upper m where m: "evs = lower @ ev # upper" "\<forall>u\<in>set upper. sql_view u ?p = ret None"
      "sql_view ev ?p = ret (Some m)" "node_leaf x = (ev, m)" using res(2) Some by auto
    obtain ms where ms: "node_Children ?ops x = ret ms" "\<forall>c\<in>set ms. \<exists>n. node_Name ?ops c = ret n"
      "{n. \<exists>c\<in>set ms. node_Name ?ops c = ret n} =
        {n. plain_name n \<and> (\<exists>ev\<in>set evs. \<exists>c. sql_view ev (path_of (cs @ [n])) = ret (Some c))}"
      using res(2) unfolding Some by (simp only: option.case) blast
    have sx: "sound_node x" using flist_store_sound [OF flists_store] res(1) Some by blast
    obtain i where i: "node_Info ?ops x = ret i" "typed ?ops x i" using sound_typed [OF sx] by blast
    then have mi: "meta_Info m = ret i" using m(4) by (simp add: node_Info_def sql_ops_def)
    obtain entries where en: "dir_entries ?ops ms = ret entries"
      using dir_entries_total [OF node_children_sound(1) [OF sx ms(1)] ms(2)] by blast
    have dir: "OpenDir ?ops (g_config g) ?p = ret (entries, OK)" using x ms(1) en by (simp add: OpenDir_def)
    show ?thesis by (rule there [OF x m(1-3) mi i dir trans [OF dir_entries_names [OF en] ms(3)]])
  qed
qed


lemma demo_start:
  "(case start (sql_ops id) demo_cmd_env works demo_cmd ''42'' ''/mnt'' demo_kernel of
      Some (Inr (Mounted g), _, _) \<Rightarrow> OpenDir (sql_ops id) (g_config g) [] | _ \<Rightarrow> None) = ret ([(RegularType, ''f''), (DirType, ''d'')], OK)"
  by code_simp

lemma demo_mounted: "mounted_flists demo_cmd_env demo_cmd demo_kernel [SqlStore.demo_env]"
  by (simp add: mounted_flists_def opened_stores_def demo_cmd_def demo_cmd_env_def demo_kernel_def demo_flist_fs_def boot_def
      getDB_def is_dir_def no_faults_def open_store_def NewStore_def)

lemma demo_single: "flists_ok md5 (rev [SqlStore.demo_env])"
  using no_shadow_single by (simp add: flists_ok_def demo_flist_ok)



text \<open>The file of the demonstration flist has one block, whose contents are its own hash.\<close>

definition write_two :: download_fn where
  "write_two d f = (None, write_at 0 [2] f)"

definition two :: downloader where
  "two = \<lparr>dl_workers = 0, dl_blocks = getBlocks demo_file, dl_blockSize = unat (nf_BlockSize demo_file) * 4096\<rparr>"

lemma two_eq: "two = \<lparr>dl_workers = 0, dl_blocks = [\<lparr>bi_Key = [1], bi_Decipher = [2]\<rparr>], dl_blockSize = 4096\<rparr>"
  by (simp add: two_def getBlocks_def demo_file_def)

lemma two_runs: "downloads_by toy (\<lambda>key ans. ans = Inr [2]) two write_two"
  by (auto simp: downloads_by_def write_two_def intro: single_run [OF two_eq])

lemma two_content: "the_content toy (\<lambda>key ans. ans = Inr [2]) two [2]"
  unfolding the_content_def
  by (intro exI [of _ "[[2]]"]) (simp add: two_eq full_blocks_def toy_block)

lemma demo_read:
  "(case start (sql_ops id) demo_cmd_env works demo_cmd ''42'' ''/mnt'' demo_kernel of
      Some (Inr (Mounted g), _, _) \<Rightarrow>
        (case first_answer (Open any_write (sql_ops id) no_faults write_two (g_config g) ''f'' 0 empty_fs) of
           Some (Some h, OK) \<Rightarrow> wa_File h | _ \<Rightarrow> None)
    | _ \<Rightarrow> None) = Some 0"
  by code_simp

lemma demo_view: "sql_view SqlStore.demo_env ''f'' = ret (Some (File (demo_inode ''f'' (At_file demo_file)) demo_file demo_access))"
  by code_simp


section \<open>While the process serves\<close>

lemma opened_flist_store:
  assumes "opened_stores e dbs fs ss"
  shows "flist_store md5 (stores_Get (sql_ops md5) (rev ss))"
proof -
  obtain evs where "ss = map sql_layer evs" using assms open_stores_flists by (fastforce simp: opened_stores_def)
  then show ?thesis using flists_store [of md5 "rev evs"] by (simp add: rev_map)
qed

lemma reload_flist_store:
  assumes "flist_store md5 (ro_store (g_config g))" "reload (sql_ops md5) e g c fs = ret (r, g', c', fs')"
  shows "flist_store md5 (ro_store (g_config g')) \<and> ro_cache (g_config g') = ro_cache (g_config g)"
proof (cases r)
  case (Some err)
  then show ?thesis using reload_error assms by blast
next
  case None
  show ?thesis
  proof (cases "ReadFile (ce_faults e) fs (layered_file c)")
    case (Inl x)
    then have "g' = g" using assms(2) by (auto simp: reload_def split: if_splits)
    then show ?thesis using assms(1) by simp
  next
    case (Inr content)
    obtain xs bs fs1 where o: "opened_stores e (split_on (CHR 0x0A) (bytes_string content)) fs xs" "opened_stores e (cm_Meta c) fs1 bs"
      "g' = g\<lparr>g_config := SetMetaStore
        (stores_Get (sql_ops md5) [stores_Get (sql_ops md5) (rev xs), stores_Get (sql_ops md5) (rev bs)]) (g_config g)\<rparr>"
      using reload_stores [OF assms(2) [unfolded None] Inr] by blast
    have "flist_store md5 (stores_Get (sql_ops md5) [stores_Get (sql_ops md5) (rev xs), stores_Get (sql_ops md5) (rev bs)])"
      by (rule flist_store.stack) (use o(1,2) opened_flist_store in auto)
    then show ?thesis using o(3) by (simp add: SetMetaStore_def del: stores_Get.simps)
  qed
qed

lemma serve_flist_store:
  "serve (sql_ops md5) e mf hs g c k = ret (res, g', c', k') \<Longrightarrow> flist_store md5 (ro_store (g_config g)) \<Longrightarrow>
    flist_store md5 (ro_store (g_config g')) \<and> ro_cache (g_config g') = ro_cache (g_config g)"
proof (induction hs arbitrary: g c k)
  case (Cons h hs)
  show ?case
  proof (cases h)
    case (Watcher w)
    then have "g' = g" using Cons.prems(1) by (auto simp: go_bind_eq_ret Let_def split: prod.splits)
    then show ?thesis using Cons.prems(2) by simp
  next
    case (Signalled ev)
    obtain r g1 c1 k1 where r: "serve_loop (sql_ops md5) e mf [ev] g c k = ret (r, g1, c1, k1)"
      "(case r of None \<Rightarrow> serve (sql_ops md5) e mf hs g1 c1 k1 | Some err \<Rightarrow> ret (Some err, g1, c1, k1)) = ret (res, g', c', k')"
      using Cons.prems(1) Signalled by (cases "serve_loop (sql_ops md5) e mf [ev] g c k") auto
    have one: "flist_store md5 (ro_store (g_config g1)) \<and> ro_cache (g_config g1) = ro_cache (g_config g)"
    proof (cases ev)
      case SigHup
      then obtain q fs1 where "reload (sql_ops md5) e g c (kn_fs k) = ret (q, g1, c1, fs1)"
        using r(1) by (auto simp: go_bind_eq_ret)
      then show ?thesis using reload_flist_store Cons.prems(2) by blast
    qed (use r(1) Cons.prems(2) in \<open>auto split: prod.splits\<close>)
    then show ?thesis using Cons.IH r(2) by (cases r) auto
  qed
qed simp

text \<open>C17. The served filesystem stays well typed and keeps its cache: whatever signals the process met since
  it mounted, every object it serves is a directory, a regular file or a link with the attributes of
  its kind, directories list only these, and the cache directory is the one it started with. Nothing
  is assumed of the flists, neither those of the command line nor those a reload has added.\<close>

theorem process_serves_typed:
  assumes "start (sql_ops md5) e mf c name mnt k = ret (Inr (Mounted g), c1, k1)"
    and "serve (sql_ops md5) e mf hs g c1 k1 = ret (res, g2, c2, k2)" "ro_store (g_config g2) p = ret (Some x)"
  shows "ro_cache (g_config g2) = ro_cache (g_config g) \<and>
    (\<exists>i. node_Info (sql_ops md5) x = ret i \<and> typed (sql_ops md5) x i \<and>
       (\<forall>ms entries. node_Children (sql_ops md5) x = ret ms \<longrightarrow> dir_entries (sql_ops md5) ms = ret entries \<longrightarrow>
          fst ` set entries \<subseteq> node_types \<and> (in_Type i \<noteq> DirType \<longrightarrow> entries = [])))"
proof -
  obtain evs where "mounted_flists e c k evs" using start_mounted [OF assms(1)] by blast
  then have "flist_store md5 (ro_store (g_config g))" using mounted_view(1) [OF assms(1)] flists_store by metis
  from serve_flist_store [OF assms(2) this]
  have g2: "flist_store md5 (ro_store (g_config g2))" "ro_cache (g_config g2) = ro_cache (g_config g)" by blast+
  have x: "sound_node x" using flist_store_sound [OF g2(1) assms(3)] .
  obtain i where i: "node_Info (sql_ops md5) x = ret i" "typed (sql_ops md5) x i" using sound_typed [OF x] by blast
  have "fst ` set entries \<subseteq> node_types \<and> (in_Type i \<noteq> DirType \<longrightarrow> entries = [])"
    if "node_Children (sql_ops md5) x = ret ms" "dir_entries (sql_ops md5) ms = ret entries" for ms entries
    using typed_entries [OF node_children_sound(1) [OF x that(1)] that(2)] file_no_children [OF x, of md5] that i(2)
    by (auto simp: typed_def node_IsDir_def sql_ops_def split: prod.splits)
  then show ?thesis using g2(2) i by blast
qed

lemma demo_served:
  "(case start (sql_ops id) demo_cmd_env works demo_cmd ''42'' ''/mnt'' (boot\<lparr>kn_fs := reload_fs\<rparr>) of
      Some (Inr (Mounted g), c1, k1) \<Rightarrow>
        (case serve (sql_ops id) demo_cmd_env works [Signalled SigHup] g c1 k1 of
           Some (None, g2, _, _) \<Rightarrow> OpenDir (sql_ops id) (g_config g2) ''d'' | _ \<Rightarrow> None)
    | _ \<Rightarrow> None) = ret ([(LinkType, ''l'')], OK)"
  by code_simp

theorem process_serves_typed_witness:
  "\<exists>g c1 k1 g2 c2 k2 x i. start (sql_ops id) demo_cmd_env works demo_cmd ''42'' ''/mnt'' (boot\<lparr>kn_fs := reload_fs\<rparr>) =
      ret (Inr (Mounted g), c1, k1) \<and>
    serve (sql_ops id) demo_cmd_env works [Signalled SigHup] g c1 k1 = ret (None, g2, c2, k2) \<and>
    ro_store (g_config g2) ''d'' = ret (Some x) \<and> node_Info (sql_ops id) x = ret i \<and> in_Type i = DirType"
proof -
  obtain g c1 k1 g2 c2 k2 where run: "start (sql_ops id) demo_cmd_env works demo_cmd ''42'' ''/mnt'' (boot\<lparr>kn_fs := reload_fs\<rparr>) =
      ret (Inr (Mounted g), c1, k1)"
    "serve (sql_ops id) demo_cmd_env works [Signalled SigHup] g c1 k1 = ret (None, g2, c2, k2)"
    "OpenDir (sql_ops id) (g_config g2) ''d'' = ret ([(LinkType, ''l'')], OK)"
    using demo_served by (auto split: option.splits sum.splits prod.splits mount_result.splits)
  obtain x ms where x: "ro_store (g_config g2) ''d'' = ret (Some x)" "node_Children (sql_ops id) x = ret ms"
    "dir_entries (sql_ops id) ms = ret [(LinkType, ''l'')]"
    using run(3) by (auto simp: OpenDir_def go_bind_eq_ret split: option.splits)
  from process_serves_typed [OF run(1,2) x(1)] x(2,3) run(1,2) x(1) show ?thesis by fastforce
qed

end
